(* ===== verification/Prelude.thy ===== *)
theory Prelude
  imports Complex_Main
begin

text \<open>
  Shared vocabulary of the development: the collections that the component proofs draw on, the
  result type used for every Python call that may raise, and the generic facts about lists, sums
  and rationals that more than one component needs.
\<close>

section \<open>Collections\<close>

named_theorems bucket_simps \<open>unfolding rules of the token bucket\<close>
named_theorems breaker_simps \<open>unfolding rules of the circuit breaker\<close>
named_theorems gate_simps \<open>unfolding rules of the capacity gate\<close>
named_theorems metrics_simps \<open>unfolding rules of the metrics counters\<close>

section \<open>Results of calls that may raise\<close>

text \<open>
  A Python call that may raise an exception of type \<open>'e\<close> returns \<open>Inl e\<close> when it raises and
  \<open>Inr v\<close> when it returns \<open>v\<close>.
\<close>

type_synonym ('e, 'a) result = "'e + 'a"

definition bind_result :: "('e, 'a) result \<Rightarrow> ('a \<Rightarrow> ('e, 'b) result) \<Rightarrow> ('e, 'b) result" where
  "bind_result r f = (case r of Inl e \<Rightarrow> Inl e | Inr v \<Rightarrow> f v)"

lemma bind_result_simps [simp]:
  "bind_result (Inl e) f = Inl e"
  "bind_result (Inr v) f = f v"
  by (simp_all add: bind_result_def)

lemma bind_result_Inr_iff:
  "bind_result r f = Inr w \<longleftrightarrow> (\<exists>v. r = Inr v \<and> f v = Inr w)"
  by (cases r) auto

lemma bind_result_Inl_iff:
  "bind_result r f = Inl e \<longleftrightarrow> r = Inl e \<or> (\<exists>v. r = Inr v \<and> f v = Inl e)"
  by (cases r) auto

lemma bind_result_cong [fundef_cong]:
  assumes "r = r'" and "\<And>v. r' = Inr v \<Longrightarrow> f v = f' v"
  shows "bind_result r f = bind_result r' f'"
  using assms by (cases r') simp_all

section \<open>Lists\<close>

text \<open>The first element that satisfies a predicate, the shape of an early-return loop.\<close>

lemma find_Some_iff_split:
  "List.find P xs = Some x \<longleftrightarrow>
     (\<exists>ys zs. xs = ys @ x # zs \<and> P x \<and> (\<forall>y \<in> set ys. \<not> P y))"
proof (induction xs)
  case Nil
  then show ?case by simp
next
  case (Cons a xs)
  show ?case
  proof (cases "P a")
    case True
    then show ?thesis
      by (auto simp: Cons_eq_append_conv)
  next
    case False
    then have "List.find P (a # xs) = Some x \<longleftrightarrow>
        (\<exists>ys zs. xs = ys @ x # zs \<and> P x \<and> (\<forall>y \<in> set ys. \<not> P y))"
      using Cons.IH by simp
    also have "\<dots> \<longleftrightarrow> (\<exists>ys zs. a # xs = ys @ x # zs \<and> P x \<and> (\<forall>y \<in> set ys. \<not> P y))"
    proof
      assume "\<exists>ys zs. xs = ys @ x # zs \<and> P x \<and> (\<forall>y \<in> set ys. \<not> P y)"
      then obtain ys zs where "xs = ys @ x # zs" "P x" "\<forall>y \<in> set ys. \<not> P y"
        by blast
      with False have "a # xs = (a # ys) @ x # zs \<and> P x \<and> (\<forall>y \<in> set (a # ys). \<not> P y)"
        by simp
      then show "\<exists>ys zs. a # xs = ys @ x # zs \<and> P x \<and> (\<forall>y \<in> set ys. \<not> P y)"
        by blast
    next
      assume "\<exists>ys zs. a # xs = ys @ x # zs \<and> P x \<and> (\<forall>y \<in> set ys. \<not> P y)"
      with False show "\<exists>ys zs. xs = ys @ x # zs \<and> P x \<and> (\<forall>y \<in> set ys. \<not> P y)"
        by (auto simp: Cons_eq_append_conv)
    qed
    finally show ?thesis .
  qed
qed

lemma find_SomeD: "List.find P xs = Some x \<Longrightarrow> x \<in> set xs \<and> P x"
  by (auto simp: find_Some_iff_split)

lemma sorted_map_hd_le:
  "sorted (map f (x # xs)) \<Longrightarrow> y \<in> set (x # xs) \<Longrightarrow> f x \<le> f y"
  by auto

lemma sum_list_nonneg_rat: "(\<And>x. x \<in> set xs \<Longrightarrow> 0 \<le> x) \<Longrightarrow> (0::rat) \<le> sum_list xs"
  by (induction xs) auto

section \<open>Association lists in insertion order\<close>

text \<open>
  A Python \<open>dict\<close> keeps its keys in insertion order; assigning to a key that is present keeps
  its place, assigning to a new one appends it.
\<close>

fun dict_set :: "'k \<Rightarrow> 'v \<Rightarrow> ('k \<times> 'v) list \<Rightarrow> ('k \<times> 'v) list" where
  "dict_set k v [] = [(k, v)]"
| "dict_set k v ((k', v') # kvs) =
     (if k = k' then (k, v) # kvs else (k', v') # dict_set k v kvs)"

definition dict_del :: "'k \<Rightarrow> ('k \<times> 'v) list \<Rightarrow> ('k \<times> 'v) list" where
  "dict_del k kvs = filter (\<lambda>(k', _). k' \<noteq> k) kvs"

lemma map_of_dict_set [simp]: "map_of (dict_set k v kvs) = (map_of kvs)(k \<mapsto> v)"
  by (induction kvs) auto

lemma dict_set_keys: "fst ` set (dict_set k v kvs) = insert k (fst ` set kvs)"
  by (induction k v kvs rule: dict_set.induct) (auto simp: insert_commute)

lemma distinct_dict_set:
  "distinct (map fst kvs) \<Longrightarrow> distinct (map fst (dict_set k v kvs))"
  by (induction k v kvs rule: dict_set.induct) (auto simp: dict_set_keys)

lemma map_of_dict_del [simp]: "map_of (dict_del k kvs) = (map_of kvs)(k := None)"
  unfolding dict_del_def by (induction kvs) auto

lemma dict_del_keys: "fst ` set (dict_del k kvs) = fst ` set kvs - {k}"
  unfolding dict_del_def by (induction kvs) auto

lemma distinct_dict_del: "distinct (map fst kvs) \<Longrightarrow> distinct (map fst (dict_del k kvs))"
  unfolding dict_del_def by (simp add: distinct_map_filter)

lemma length_dict_del: "length (dict_del k kvs) \<le> length kvs"
  unfolding dict_del_def by simp

lemma map_of_append_single:
  "map_of (kvs @ [(k, v)]) k' =
     (case map_of kvs k' of None \<Rightarrow> if k' = k then Some v else None | Some w \<Rightarrow> Some w)"
  by (simp add: map_add_def split: option.splits)

end
