(* ===== verification/Binary64.thy ===== *)
theory Binary64
  imports Prelude "HOL-Library.Log_Nat" "HOL-Library.Sublist"
begin

text \<open>
  Python's \<open>float\<close>: IEEE 754 binary64 with round-half-even, as an executable rounding function
  \<open>fl64\<close> on the rationals. A float value of the program is the rational number it denotes, and
  every arithmetic operation of the program is the exact operation followed by \<open>fl64\<close>, so that
  \<open>0.1 + 0.2\<close> is here, as in Python, not \<open>0.3\<close>. Significand width 53 and the smallest exponent
  -1074 (subnormals) are those of binary64; overflow to infinity, NaN and the sign of zero are not
  represented, so the model is that of computations whose intermediate results stay below
  \<open>2 ^ 1024\<close>.

  The locale \<open>rounding\<close> states the laws of a rounding function that the components rely on
  (monotone, idempotent, odd) and derives from them the order facts about rounded sums, differences
  and products; it is interpreted on \<open>fl64\<close>.
\<close>

section \<open>Rounding to the nearest integer, ties to even\<close>

type_synonym f64 = rat

definition rne :: "rat \<Rightarrow> int" where
  "rne x = (let f = \<lfloor>x\<rfloor>; d = x - of_int f in
     if d < 1/2 then f else if 1/2 < d then f + 1 else if even f then f else f + 1)"

lemma rne_of_int [simp]: "rne (of_int n) = n"
  by (simp add: rne_def)

lemma rne_numeral [simp]: "rne (numeral n) = numeral n"
  using rne_of_int [of "numeral n"] by simp

lemma rne_0 [simp]: "rne 0 = 0"
  by (simp add: rne_def)

lemma rne_error: "\<bar>of_int (rne x) - x\<bar> \<le> 1/2"
proof -
  have "of_int \<lfloor>x\<rfloor> \<le> x" and "x < of_int \<lfloor>x\<rfloor> + 1" by linarith+
  then show ?thesis by (auto simp: rne_def Let_def abs_le_iff)
qed

lemma rne_bounds: "\<lfloor>x\<rfloor> \<le> rne x" "rne x \<le> \<lfloor>x\<rfloor> + 1"
  by (auto simp: rne_def Let_def)

lemma rne_mono: "x \<le> y \<Longrightarrow> rne x \<le> rne y"
proof -
  assume le: "x \<le> y"
  then have f: "\<lfloor>x\<rfloor> \<le> \<lfloor>y\<rfloor>" by (rule floor_mono)
  show ?thesis
  proof (cases "\<lfloor>x\<rfloor> = \<lfloor>y\<rfloor>")
    case True
    with le show ?thesis by (auto simp: rne_def Let_def)
  next
    case False
    with f have "\<lfloor>x\<rfloor> + 1 \<le> \<lfloor>y\<rfloor>" by simp
    with rne_bounds(2) [of x] rne_bounds(1) [of y] show ?thesis by linarith
  qed
qed

lemma rne_minus: "rne (- x) = - rne x"
proof (cases "x = of_int \<lfloor>x\<rfloor>")
  case True
  then obtain n where "x = of_int n" by blast
  then show ?thesis using rne_of_int [of n] rne_of_int [of "- n"] by simp
next
  case False
  have lt: "of_int \<lfloor>x\<rfloor> < x" and lt': "x < of_int \<lfloor>x\<rfloor> + 1" using False by linarith+
  then have fl: "\<lfloor>- x\<rfloor> = - \<lfloor>x\<rfloor> - 1"
    by (intro floor_unique) auto
  define d where "d = x - of_int \<lfloor>x\<rfloor>"
  have d: "0 < d" "d < 1" using lt lt' by (auto simp: d_def)
  have d': "- x - of_int (- \<lfloor>x\<rfloor> - 1) = 1 - d" by (simp add: d_def)
  show ?thesis
    unfolding rne_def fl Let_def d' d_def [symmetric] by auto
qed

lemma rne_le_of_int: "x \<le> of_int n \<Longrightarrow> rne x \<le> n"
  using rne_mono [of x "of_int n"] by simp

lemma rne_ge_of_int: "of_int n \<le> x \<Longrightarrow> n \<le> rne x"
  using rne_mono [of "of_int n" x] by simp

section \<open>The binary exponent of a positive rational\<close>

definition flog2 :: "rat \<Rightarrow> int" where
  "flog2 x = (case quotient_of x of (n, d) \<Rightarrow>
     let k = bitlen n - bitlen d in if 2 powi k \<le> x then k else k - 1)"

lemma pow2_less_iff: "(2::rat) powi a < 2 powi b \<longleftrightarrow> a < b"
  by (meson linorder_not_le one_le_numeral one_less_numeral_iff power_int_increasing
      power_int_strict_increasing semiring_norm(76))

lemma bitlen_rat_bounds:
  assumes "0 < n"
  shows "2 powi (bitlen n - 1) \<le> (of_int n :: rat)" "(of_int n :: rat) < 2 powi bitlen n"
proof -
  have b: "0 < bitlen n" using assms bitlen_eq_zero_iff [of n] bitlen_nonneg [of n] by linarith
  have "2 ^ nat (bitlen n - 1) \<le> n" and "n < 2 ^ nat (bitlen n)"
    using bitlen_bounds [OF assms] by auto
  then have "(2::rat) ^ nat (bitlen n - 1) \<le> of_int n" and "of_int n < (2::rat) ^ nat (bitlen n)"
    by (metis of_int_le_iff of_int_numeral of_int_power,
        metis of_int_less_iff of_int_numeral of_int_power)
  with b show "2 powi (bitlen n - 1) \<le> (of_int n :: rat)" "(of_int n :: rat) < 2 powi bitlen n"
    by (simp_all add: power_int_def)
qed

lemma flog2_bounds:
  assumes "0 < x"
  shows "2 powi flog2 x \<le> x" "x < 2 powi (flog2 x + 1)"
proof -
  obtain n d where q: "quotient_of x = (n, d)" by fastforce
  then have x: "x = of_int n / of_int d" and d: "0 < d"
    by (auto intro: quotient_of_div quotient_of_denom_pos)
  with assms have n: "0 < n" by (auto simp: zero_less_divide_iff)
  define k where "k = bitlen n - bitlen d"
  have d': "(0::rat) < of_int d" using d by simp
  have "x < 2 powi bitlen n / of_int d"
    using bitlen_rat_bounds(2) [OF n] d' by (simp add: x divide_strict_right_mono)
  also have "\<dots> \<le> 2 powi bitlen n / 2 powi (bitlen d - 1)"
    using bitlen_rat_bounds(1) [OF d] by (intro divide_left_mono) (auto simp: d)
  also have "\<dots> = 2 powi (k + 1)"
    by (simp add: k_def power_int_diff power_int_add)
  finally have up: "x < 2 powi (k + 1)" .
  have "2 powi (k - 1) = (2 powi (bitlen n - 1) / 2 powi bitlen d :: rat)"
    by (simp add: k_def power_int_diff)
  also have "\<dots> \<le> of_int n / 2 powi bitlen d"
    using bitlen_rat_bounds(1) [OF n] by (intro divide_right_mono) auto
  also have "\<dots> \<le> of_int n / of_int d"
    using bitlen_rat_bounds(2) [OF d] n d' by (intro divide_left_mono) auto
  finally have lo: "2 powi (k - 1) \<le> x" by (simp add: x)
  have fk: "flog2 x = (if 2 powi k \<le> x then k else k - 1)"
    by (simp add: flog2_def q k_def Let_def)
  show "2 powi flog2 x \<le> x" using lo by (simp add: fk)
  show "x < 2 powi (flog2 x + 1)" using up by (simp add: fk)
qed

lemma flog2_unique:
  assumes "2 powi k \<le> x" "x < 2 powi (k + 1)"
  shows "flog2 x = k"
proof -
  have pos: "0 < x" using assms(1) by (rule less_le_trans [rotated]) simp
  have "(2::rat) powi k < 2 powi (flog2 x + 1)"
    using assms(1) flog2_bounds(2) [OF pos] by (rule le_less_trans)
  then have "k < flog2 x + 1" by (simp add: pow2_less_iff)
  moreover have "(2::rat) powi flog2 x < 2 powi (k + 1)"
    using flog2_bounds(1) [OF pos] assms(2) by (rule le_less_trans)
  then have "flog2 x < k + 1" by (simp add: pow2_less_iff)
  ultimately show ?thesis by simp
qed

lemma flog2_mono:
  assumes "0 < x" "x \<le> y"
  shows "flog2 x \<le> flog2 y"
proof -
  have "0 < y" using assms by simp
  have "(2::rat) powi flog2 x < 2 powi (flog2 y + 1)"
    using flog2_bounds(1) [OF assms(1)] assms(2) flog2_bounds(2) [OF \<open>0 < y\<close>] by linarith
  then show ?thesis by (simp add: pow2_less_iff)
qed

section \<open>Rounding to binary64\<close>

text \<open>The exponent of the last place of \<open>x\<close>, and the rounding to that place.\<close>

definition ulp_exp :: "rat \<Rightarrow> int" where
  "ulp_exp x = max (- 1074) (flog2 \<bar>x\<bar> - 52)"

definition fl64 :: "rat \<Rightarrow> f64" where
  "fl64 x = (if x = 0 then 0 else
     let q = 2 powi ulp_exp x in of_int (rne (x / q)) * q)"

text \<open>The values a binary64 can hold (below the overflow threshold).\<close>

definition is_f64 :: "rat \<Rightarrow> bool" where
  "is_f64 x \<longleftrightarrow> (\<exists>m e. x = of_int m * 2 powi e \<and> \<bar>m\<bar> \<le> 2 ^ 53 \<and> - 1074 \<le> e)"

lemma fl64_0 [simp]: "fl64 0 = 0"
  by (simp add: fl64_def)

lemma fl64_minus: "fl64 (- x) = - fl64 x"
  by (simp add: fl64_def ulp_exp_def Let_def rne_minus)

lemma power_int_split_rat: "(2::rat) powi (a + b) = 2 powi a * 2 powi b"
  by (simp add: power_int_add)

lemma ulp_quotient_bound:
  assumes "0 < x"
  shows "x / 2 powi ulp_exp x < 2 ^ 53"
proof -
  have "x < 2 powi (flog2 x + 1)" by (rule flog2_bounds(2) [OF assms])
  also have "\<dots> \<le> 2 powi (ulp_exp x + 53)"
    using assms by (intro power_int_increasing) (auto simp: ulp_exp_def)
  also have "\<dots> = 2 ^ 53 * 2 powi ulp_exp x"
    by (simp add: power_int_split_rat)
  finally show ?thesis by (simp add: pos_divide_less_eq)
qed

lemma fl64_pos_form:
  assumes "0 < x"
  shows "fl64 x = of_int (rne (x / 2 powi ulp_exp x)) * 2 powi ulp_exp x"
    and "0 \<le> rne (x / 2 powi ulp_exp x)" and "rne (x / 2 powi ulp_exp x) \<le> 2 ^ 53"
    and "of_int (rne (x / 2 powi ulp_exp x)) \<le> (2 ^ 53 :: rat)"
proof -
  show "fl64 x = of_int (rne (x / 2 powi ulp_exp x)) * 2 powi ulp_exp x"
    using assms by (simp add: fl64_def Let_def)
  show "0 \<le> rne (x / 2 powi ulp_exp x)"
    using assms by (intro rne_ge_of_int) simp
  show "rne (x / 2 powi ulp_exp x) \<le> 2 ^ 53"
    using ulp_quotient_bound [OF assms] by (intro rne_le_of_int) simp
  then show "of_int (rne (x / 2 powi ulp_exp x)) \<le> (2 ^ 53 :: rat)"
    by (metis of_int_le_iff of_int_numeral of_int_power)
qed

lemma fl64_nonneg: "0 \<le> x \<Longrightarrow> 0 \<le> fl64 x"
  using fl64_pos_form(1,2) [of x] by (cases "x = 0") auto

lemma fl64_mono_pos:
  assumes "0 < x" "x \<le> y"
  shows "fl64 x \<le> fl64 y"
proof -
  have y: "0 < y" using assms by simp
  have le: "ulp_exp x \<le> ulp_exp y"
    using flog2_mono [OF assms] assms y by (simp add: ulp_exp_def)
  show ?thesis
  proof (cases "ulp_exp x = ulp_exp y")
    case True
    have "x / 2 powi ulp_exp y \<le> y / 2 powi ulp_exp y"
      using assms(2) by (intro divide_right_mono) auto
    then show ?thesis
      unfolding fl64_pos_form(1) [OF assms(1)] fl64_pos_form(1) [OF y] True
      by (intro mult_right_mono) (auto intro: rne_mono)
  next
    case False
    with le have lt: "ulp_exp x + 1 \<le> ulp_exp y" by simp
    then have ey: "ulp_exp y = flog2 y - 52" using y by (auto simp: ulp_exp_def)
    have "fl64 x \<le> 2 ^ 53 * 2 powi ulp_exp x"
      unfolding fl64_pos_form(1) [OF assms(1)]
      by (intro mult_right_mono fl64_pos_form(4) [OF assms(1)]) simp
    also have "\<dots> = 2 ^ 52 * 2 powi (ulp_exp x + 1)"
      by (simp add: power_int_split_rat)
    also have "\<dots> \<le> 2 ^ 52 * 2 powi ulp_exp y"
      using lt by (intro mult_left_mono power_int_increasing) auto
    also have "\<dots> \<le> of_int (rne (y / 2 powi ulp_exp y)) * 2 powi ulp_exp y"
    proof (intro mult_right_mono)
      have "(2::rat) ^ 52 * 2 powi ulp_exp y = 2 powi flog2 y"
        using power_int_split_rat [of 52 "ulp_exp y"] by (simp add: ey)
      then have "of_int (2 ^ 52) \<le> y / 2 powi ulp_exp y"
        using flog2_bounds(1) [OF y] by (simp add: pos_le_divide_eq)
      then have "2 ^ 52 \<le> rne (y / 2 powi ulp_exp y)" by (rule rne_ge_of_int)
      then show "2 ^ 52 \<le> (of_int (rne (y / 2 powi ulp_exp y)) :: rat)"
        by (metis of_int_le_iff of_int_numeral of_int_power)
    qed auto
    finally show ?thesis unfolding fl64_pos_form(1) [OF y] .
  qed
qed

lemma fl64_mono: "x \<le> y \<Longrightarrow> fl64 x \<le> fl64 y"
proof -
  assume le: "x \<le> y"
  consider "0 < x" | "x \<le> 0" "0 \<le> y" | "y < 0" by linarith
  then show ?thesis
  proof cases
    case 1
    then show ?thesis using le by (rule fl64_mono_pos)
  next
    case 2
    then have "fl64 x \<le> 0" using fl64_nonneg [of "- x"] by (simp add: fl64_minus)
    with 2 show ?thesis using fl64_nonneg [of y] by simp
  next
    case 3
    then have "fl64 (- y) \<le> fl64 (- x)" using le by (intro fl64_mono_pos) auto
    then show ?thesis by (simp add: fl64_minus)
  qed
qed

lemma fl64_of_repr_pos:
  assumes x: "x = of_int m * 2 powi e" and m: "0 < m" "m \<le> 2 ^ 53" and e: "- 1074 \<le> e"
  shows "fl64 x = x"
proof -
  have pos: "0 < x" using m by (simp add: x)
  show ?thesis
  proof (cases "m = 2 ^ 53")
    case True
    have x': "x = 2 powi (e + 53)" by (simp add: x True power_int_split_rat mult.commute)
    have "flog2 x = e + 53"
      by (rule flog2_unique) (auto simp: x' pow2_less_iff)
    with pos e have u: "ulp_exp x = e + 1" by (simp add: ulp_exp_def)
    have "x / 2 powi ulp_exp x = 2 powi 52"
      unfolding u by (simp add: x' flip: power_int_diff)
    also have "\<dots> = of_int (2 ^ 52)" by (simp add: power_int_def)
    finally have q: "x / 2 powi ulp_exp x = of_int (2 ^ 52)" .
    have "x = (x / 2 powi ulp_exp x) * 2 powi ulp_exp x" by simp
    then show ?thesis unfolding fl64_pos_form(1) [OF pos] q rne_of_int by (rule sym)
  next
    case False
    with m have "m < 2 ^ 53" by simp
    then have "(of_int m :: rat) < 2 ^ 53" by (metis of_int_less_iff of_int_numeral of_int_power)
    then have "x < 2 ^ 53 * 2 powi e" by (simp add: x)
    also have "\<dots> = 2 powi (e + 53)" by (simp add: power_int_split_rat)
    finally have "(2::rat) powi flog2 x < 2 powi (e + 53)"
      using flog2_bounds(1) [OF pos] by linarith
    then have "flog2 x < e + 53" by (simp add: pow2_less_iff)
    with pos e have u: "ulp_exp x \<le> e" by (simp add: ulp_exp_def)
    then have "x / 2 powi ulp_exp x = of_int m * 2 powi (e - ulp_exp x)"
      by (simp add: x power_int_diff)
    also have "\<dots> = of_int (m * 2 ^ nat (e - ulp_exp x))" using u by (simp add: power_int_def)
    finally have q: "x / 2 powi ulp_exp x = of_int (m * 2 ^ nat (e - ulp_exp x))" .
    have "x = (x / 2 powi ulp_exp x) * 2 powi ulp_exp x" by simp
    then show ?thesis unfolding fl64_pos_form(1) [OF pos] q rne_of_int by (rule sym)
  qed
qed

lemma fl64_of_is_f64: "is_f64 x \<Longrightarrow> fl64 x = x"
proof -
  assume "is_f64 x"
  then obtain m e where x: "x = of_int m * 2 powi e" and m: "\<bar>m\<bar> \<le> 2 ^ 53" and e: "- 1074 \<le> e"
    by (auto simp: is_f64_def)
  consider "m = 0" | "0 < m" | "m < 0" by linarith
  then show ?thesis
  proof cases
    case 1
    then show ?thesis by (simp add: x)
  next
    case 2
    then show ?thesis using m e by (intro fl64_of_repr_pos [OF x]) auto
  next
    case 3
    have "- x = of_int (- m) * 2 powi e" by (simp add: x)
    then have "fl64 (- x) = - x" using 3 m e by (intro fl64_of_repr_pos) auto
    then show ?thesis by (simp add: fl64_minus)
  qed
qed

lemma is_f64_fl64: "is_f64 (fl64 x)"
proof -
  have pos: "is_f64 (fl64 x)" if "0 < x" for x
    unfolding is_f64_def
    using fl64_pos_form [OF that]
    by (intro exI [of _ "rne (x / 2 powi ulp_exp x)"] exI [of _ "ulp_exp x"]) (auto simp: ulp_exp_def)
  have neg: "is_f64 (- y)" if "is_f64 y" for y
  proof -
    from that obtain m e where "y = of_int m * 2 powi e" "\<bar>m\<bar> \<le> 2 ^ 53" "- 1074 \<le> e"
      by (auto simp: is_f64_def)
    then have "- y = of_int (- m) * 2 powi e \<and> \<bar>- m\<bar> \<le> 2 ^ 53 \<and> - 1074 \<le> e" by simp
    then show ?thesis unfolding is_f64_def by blast
  qed
  consider "x = 0" | "0 < x" | "0 < - x" by linarith
  then show ?thesis
  proof cases
    case 1
    then show ?thesis by (auto simp: is_f64_def intro: exI [of _ 0])
  next
    case 2
    then show ?thesis by (rule pos)
  next
    case 3
    from neg [OF pos [OF this]] show ?thesis by (simp add: fl64_minus)
  qed
qed

lemma fl64_idem [simp]: "fl64 (fl64 x) = fl64 x"
  by (rule fl64_of_is_f64 [OF is_f64_fl64])

lemma is_f64_iff: "is_f64 x \<longleftrightarrow> fl64 x = x"
  using fl64_of_is_f64 is_f64_fl64 by metis

lemma is_f64_int: "\<bar>n\<bar> \<le> 2 ^ 53 \<Longrightarrow> is_f64 (of_int n)"
  unfolding is_f64_def by (intro exI [of _ n] exI [of _ 0]) simp

lemma fl64_int: "\<bar>n\<bar> \<le> 2 ^ 53 \<Longrightarrow> fl64 (of_int n) = of_int n"
  by (rule fl64_of_is_f64 [OF is_f64_int])

lemma fl64_numeral: "(numeral k :: int) \<le> 2 ^ 53 \<Longrightarrow> fl64 (numeral k) = numeral k"
  using fl64_int [of "numeral k"] by simp

lemma fl64_1 [simp]: "fl64 1 = 1"
  using fl64_int [of 1] by simp

section \<open>Evaluation on integers\<close>

text \<open>
  The same rounding by integer division of numerator and denominator, which is what evaluation of a
  closed term uses.
\<close>

definition rne_div :: "int \<Rightarrow> int \<Rightarrow> int" where
  "rne_div a b = (let q = a div b; r = 2 * (a mod b) in
     if r < b then q else if b < r then q + 1 else if even q then q else q + 1)"

lemma rne_div: "0 < b \<Longrightarrow> rne (of_int a / of_int b) = rne_div a b"
proof -
  assume b: "0 < b"
  have fl: "\<lfloor>of_int a / of_int b :: rat\<rfloor> = a div b"
    by (simp add: floor_divide_of_int_eq)
  have "of_int a = (of_int (a div b) * of_int b + of_int (a mod b) :: rat)"
    by (metis div_mult_mod_eq of_int_add of_int_mult)
  then have d: "of_int a / of_int b - of_int (a div b) = (of_int (a mod b) / of_int b :: rat)"
    using b by (simp add: field_simps)
  have "of_int (a mod b) / of_int b < (1/2 :: rat) \<longleftrightarrow> 2 * (a mod b) < b"
    using b by (simp add: pos_divide_less_eq) (metis of_int_less_iff of_int_mult of_int_numeral mult.commute)
  moreover have "(1/2 :: rat) < of_int (a mod b) / of_int b \<longleftrightarrow> b < 2 * (a mod b)"
    using b by (simp add: pos_less_divide_eq) (metis of_int_less_iff of_int_mult of_int_numeral mult.commute)
  ultimately show ?thesis
    unfolding rne_def fl Let_def d by (simp add: rne_div_def Let_def)
qed

definition flog2_frac :: "int \<Rightarrow> int \<Rightarrow> int" where
  "flog2_frac n d = (let k = bitlen n - bitlen d in
     if (if 0 \<le> k then d * 2 ^ nat k \<le> n else d \<le> n * 2 ^ nat (- k)) then k else k - 1)"

lemma flog2_frac: "quotient_of x = (n, d) \<Longrightarrow> flog2 x = flog2_frac n d"
proof -
  assume q: "quotient_of x = (n, d)"
  then have x: "x = of_int n / of_int d" and d: "(0::rat) < of_int d"
    using quotient_of_div [OF q] quotient_of_denom_pos [OF q] by auto
  have "2 powi k \<le> x \<longleftrightarrow> (if 0 \<le> k then d * 2 ^ nat k \<le> n else d \<le> n * 2 ^ nat (- k))" for k
  proof (cases "0 \<le> k")
    case True
    then have "2 powi k \<le> x \<longleftrightarrow> 2 ^ nat k * of_int d \<le> (of_int n :: rat)"
      using d by (simp add: x pos_le_divide_eq power_int_def)
    also have "\<dots> \<longleftrightarrow> of_int (d * 2 ^ nat k) \<le> (of_int n :: rat)" by (simp add: mult.commute)
    finally show ?thesis using True by (simp only: of_int_le_iff if_True)
  next
    case False
    then have "2 powi k \<le> x \<longleftrightarrow> of_int d \<le> (2 ^ nat (- k) * of_int n :: rat)"
      using d by (simp add: x power_int_def field_simps)
    also have "\<dots> \<longleftrightarrow> of_int d \<le> (of_int (n * 2 ^ nat (- k)) :: rat)" by (simp add: mult.commute)
    finally show ?thesis using False by (simp only: of_int_le_iff if_False)
  qed
  then show ?thesis by (simp add: flog2_def flog2_frac_def q Let_def)
qed

lemma fl64_code [code]:
  "fl64 x = (case quotient_of x of (n, d) \<Rightarrow>
     if n = 0 then 0
     else let e = max (- 1074) (flog2_frac \<bar>n\<bar> d - 52) in
       if 0 \<le> e then of_int (rne_div n (d * 2 ^ nat e) * 2 ^ nat e)
       else of_int (rne_div (n * 2 ^ nat (- e)) d) / of_int (2 ^ nat (- e)))"
proof -
  obtain n d where q: "quotient_of x = (n, d)" by fastforce
  have x: "x = of_int n / of_int d" and d: "0 < d"
    using quotient_of_div [OF q] quotient_of_denom_pos [OF q] by auto
  have u: "ulp_exp x = max (- 1074) (flog2_frac \<bar>n\<bar> d - 52)"
    unfolding ulp_exp_def by (subst flog2_frac [of _ "\<bar>n\<bar>" d]) (simp_all add: rat_abs_code q)
  define e where "e = ulp_exp x"
  show ?thesis
  proof (cases "n = 0")
    case True
    then show ?thesis by (simp add: q x)
  next
    case False
    with d have x0: "x \<noteq> 0" by (simp add: x)
    show ?thesis
    proof (cases "0 \<le> e")
      case True
      have "x / 2 powi e = of_int n / of_int (d * 2 ^ nat e)"
        using True by (simp add: x power_int_def)
      moreover have "0 < d * 2 ^ nat e" using d by simp
      ultimately have "rne (x / 2 powi e) = rne_div n (d * 2 ^ nat e)"
        by (simp only: rne_div)
      then show ?thesis
        using True False x0 by (simp add: fl64_def q flip: u e_def) (simp add: power_int_def)
    next
      case False
      have "x / 2 powi e = of_int (n * 2 ^ nat (- e)) / of_int d"
        using False by (simp add: x power_int_def field_simps)
      then have "rne (x / 2 powi e) = rne_div (n * 2 ^ nat (- e)) d"
        by (simp only: rne_div [OF d])
      then show ?thesis
        using False \<open>n \<noteq> 0\<close> x0
        by (simp add: fl64_def q flip: u e_def) (simp add: power_int_def field_simps)
    qed
  qed
qed

section \<open>The laws of rounding\<close>

locale rounding =
  fixes rnd :: "rat \<Rightarrow> rat"
  assumes mono: "x \<le> y \<Longrightarrow> rnd x \<le> rnd y"
    and idem: "rnd (rnd x) = rnd x"
    and odd: "rnd (- x) = - rnd x"
begin

lemma zero: "rnd 0 = 0"
  using odd [of 0] by simp

lemma nonneg: "0 \<le> x \<Longrightarrow> 0 \<le> rnd x"
  using mono [of 0 x] by (simp add: zero)

lemma nonpos: "x \<le> 0 \<Longrightarrow> rnd x \<le> 0"
  using mono [of x 0] by (simp add: zero)

text \<open>Comparing a rounded value with a representable one is comparing the exact value with it,
  in the direction that rounding can only close.\<close>

lemma le_repr: "x \<le> y \<Longrightarrow> rnd y = y \<Longrightarrow> rnd x \<le> y"
  using mono [of x y] by simp

lemma ge_repr: "y \<le> x \<Longrightarrow> rnd y = y \<Longrightarrow> y \<le> rnd x"
  using mono [of y x] by simp

lemma add_ge: "rnd a = a \<Longrightarrow> 0 \<le> b \<Longrightarrow> a \<le> rnd (a + b)"
  by (rule ge_repr) auto

lemma sub_le: "rnd a = a \<Longrightarrow> 0 \<le> b \<Longrightarrow> rnd (a - b) \<le> a"
  by (rule le_repr) auto

lemma sub_nonneg: "b \<le> a \<Longrightarrow> 0 \<le> rnd (a - b)"
  by (rule nonneg) simp

lemma sub_mono: "a \<le> a' \<Longrightarrow> b' \<le> b \<Longrightarrow> rnd (a - b) \<le> rnd (a' - b')"
  by (rule mono) simp

lemma add_mono: "a \<le> a' \<Longrightarrow> b \<le> b' \<Longrightarrow> rnd (a + b) \<le> rnd (a' + b')"
  by (rule mono) simp

lemma mult_mono_nonneg:
  "a \<le> a' \<Longrightarrow> b \<le> b' \<Longrightarrow> 0 \<le> a' \<Longrightarrow> 0 \<le> b \<Longrightarrow> rnd (a * b) \<le> rnd (a' * b')"
  by (rule mono) (rule mult_mono)

lemma min_repr: "rnd a = a \<Longrightarrow> rnd b = b \<Longrightarrow> rnd (min a b) = min a b"
  by (simp add: min_def)

lemma max_repr: "rnd a = a \<Longrightarrow> rnd b = b \<Longrightarrow> rnd (max a b) = max a b"
  by (simp add: max_def)

end

interpretation flr: rounding fl64
  by unfold_locales (auto simp: fl64_mono fl64_minus)

text \<open>How far rounding moves a value: half a unit in the last place.\<close>

lemma fl64_error: "\<bar>fl64 x - x\<bar> \<le> \<bar>x\<bar> / 2 ^ 53 + 2 powi (- 1075)"
proof (cases "x = 0")
  case True
  then show ?thesis by simp
next
  case False
  define q :: rat where "q = 2 powi ulp_exp x"
  have q: "0 < q" by (simp add: q_def)
  have "fl64 x - x = (of_int (rne (x / q)) - x / q) * q"
    using False q by (simp add: fl64_def Let_def q_def left_diff_distrib)
  then have "\<bar>fl64 x - x\<bar> \<le> 1/2 * q"
    using rne_error [of "x / q"] q by (simp add: abs_mult)
  moreover have "1/2 * q \<le> \<bar>x\<bar> / 2 ^ 53 + 2 powi (- 1075)"
  proof (cases "ulp_exp x = - 1074")
    case True
    then have "1/2 * q = 2 powi (- 1075)"
      using power_int_split_rat [of "- 1074" "- 1"] by (simp add: q_def)
    then show ?thesis by simp
  next
    case False
    then have u: "ulp_exp x + 52 = flog2 \<bar>x\<bar>" by (auto simp: ulp_exp_def)
    have "2 ^ 52 * q = 2 powi flog2 \<bar>x\<bar>"
      unfolding q_def u [symmetric] by (simp add: power_int_split_rat)
    also have "\<dots> \<le> \<bar>x\<bar>" using \<open>x \<noteq> 0\<close> by (intro flog2_bounds) simp
    finally show ?thesis by (simp add: field_simps add_increasing2)
  qed
  ultimately show ?thesis by linarith
qed

section \<open>The operations of Python's float\<close>

definition fadd :: "f64 \<Rightarrow> f64 \<Rightarrow> f64" where "fadd a b = fl64 (a + b)"
definition fsub :: "f64 \<Rightarrow> f64 \<Rightarrow> f64" where "fsub a b = fl64 (a - b)"
definition fmul :: "f64 \<Rightarrow> f64 \<Rightarrow> f64" where "fmul a b = fl64 (a * b)"

text \<open>Division by zero raises in Python; every use guards it.\<close>

definition fdiv :: "f64 \<Rightarrow> f64 \<Rightarrow> f64" where "fdiv a b = fl64 (a / b)"

text \<open>An \<open>int\<close> operand of a mixed operation is converted first. A decimal literal with \<open>k\<close>
  digits after the point is the nearest float: \<open>0.15\<close> is \<open>lit 15 2\<close>.\<close>

definition fint :: "int \<Rightarrow> f64" where "fint n = fl64 (of_int n)"
definition lit :: "int \<Rightarrow> nat \<Rightarrow> f64" where "lit n k = fl64 (of_int n / of_int (10 ^ k))"

text \<open>\<open>sum(...)\<close> over floats adds from the left, starting at \<open>0\<close> (CPython up to 3.11, the
  version of the deployed image).\<close>

definition fsum :: "f64 list \<Rightarrow> f64" where "fsum xs = foldl fadd 0 xs"

text \<open>\<open>round(x)\<close>, \<open>int(x)\<close>, and \<open>round(x, n)\<close>: the decimal rounding is of the exact value,
  correctly rounded back to a float.\<close>

definition py_round :: "f64 \<Rightarrow> int" where "py_round x = rne x"
definition py_int :: "f64 \<Rightarrow> int" where "py_int x = (if 0 \<le> x then \<lfloor>x\<rfloor> else \<lceil>x\<rceil>)"
definition round_dec :: "nat \<Rightarrow> f64 \<Rightarrow> f64" where
  "round_dec n x = fl64 (of_int (rne (x * 10 ^ n)) / 10 ^ n)"

lemma fadd_repr [simp]: "fl64 (fadd a b) = fadd a b" by (simp add: fadd_def)
lemma fsub_repr [simp]: "fl64 (fsub a b) = fsub a b" by (simp add: fsub_def)
lemma fmul_repr [simp]: "fl64 (fmul a b) = fmul a b" by (simp add: fmul_def)
lemma fdiv_repr [simp]: "fl64 (fdiv a b) = fdiv a b" by (simp add: fdiv_def)
lemma fint_repr [simp]: "fl64 (fint n) = fint n" by (simp add: fint_def)

lemma lit_repr [simp]: "fl64 (lit n k) = lit n k" by (simp add: lit_def)
lemma lit_nonneg: "0 \<le> n \<Longrightarrow> 0 \<le> lit n k" by (simp add: lit_def fl64_nonneg)
lemma fint_0 [simp]: "fint 0 = 0" by (simp add: fint_def)
lemma fint_mono: "m \<le> n \<Longrightarrow> fint m \<le> fint n" by (simp add: fint_def fl64_mono)
lemma fint_nonneg: "0 \<le> n \<Longrightarrow> 0 \<le> fint n" by (simp add: fint_def fl64_nonneg)

lemma fadd_mono: "a \<le> a' \<Longrightarrow> b \<le> b' \<Longrightarrow> fadd a b \<le> fadd a' b'"
  unfolding fadd_def by (rule flr.add_mono)

lemma fadd_nonneg: "0 \<le> a \<Longrightarrow> 0 \<le> b \<Longrightarrow> 0 \<le> fadd a b"
  unfolding fadd_def by (intro fl64_nonneg) simp

lemma fadd_ge_left: "fl64 a = a \<Longrightarrow> 0 \<le> b \<Longrightarrow> a \<le> fadd a b"
  unfolding fadd_def by (rule flr.add_ge)

lemma fadd_zero_left: "fl64 a = a \<Longrightarrow> fadd 0 a = a"
  by (simp add: fadd_def)

lemma fadd_zero_right: "fl64 a = a \<Longrightarrow> fadd a 0 = a"
  by (simp add: fadd_def)

lemma fsub_nonneg: "b \<le> a \<Longrightarrow> 0 \<le> fsub a b"
  unfolding fsub_def by (rule flr.sub_nonneg)

lemma fsub_le_left: "fl64 a = a \<Longrightarrow> 0 \<le> b \<Longrightarrow> fsub a b \<le> a"
  unfolding fsub_def by (rule flr.sub_le)

lemma fsub_mono: "a \<le> a' \<Longrightarrow> b' \<le> b \<Longrightarrow> fsub a b \<le> fsub a' b'"
  unfolding fsub_def by (rule flr.sub_mono)

lemma fsub_self [simp]: "fsub a a = 0"
  by (simp add: fsub_def)

lemma fmul_nonneg: "0 \<le> a \<Longrightarrow> 0 \<le> b \<Longrightarrow> 0 \<le> fmul a b"
  unfolding fmul_def by (intro fl64_nonneg) simp

lemma fmul_mono: "a \<le> a' \<Longrightarrow> b \<le> b' \<Longrightarrow> 0 \<le> a' \<Longrightarrow> 0 \<le> b \<Longrightarrow> fmul a b \<le> fmul a' b'"
  unfolding fmul_def by (rule flr.mult_mono_nonneg)

lemma f64_zero [simp]: "fmul a 0 = 0" "fmul 0 a = 0" "fdiv 0 a = 0" "fadd 0 0 = 0"
  by (simp_all add: fmul_def fdiv_def fadd_def)

lemma fdiv_nonneg: "0 \<le> a \<Longrightarrow> 0 \<le> b \<Longrightarrow> 0 \<le> fdiv a b"
  unfolding fdiv_def by (intro fl64_nonneg) simp

lemma fmul_left_mono: "0 \<le> w \<Longrightarrow> x \<le> y \<Longrightarrow> fmul w x \<le> fmul w y"
  unfolding fmul_def by (intro fl64_mono mult_left_mono)

lemma fdiv_mono: "a \<le> a' \<Longrightarrow> 0 < b \<Longrightarrow> fdiv a b \<le> fdiv a' b"
  unfolding fdiv_def by (intro fl64_mono divide_right_mono) auto

lemma fsum_Nil [simp]: "fsum [] = 0" by (simp add: fsum_def)

lemma fsum_snoc: "fsum (xs @ [x]) = fadd (fsum xs) x"
  by (simp add: fsum_def)

lemma fsum_repr [simp]: "fl64 (fsum xs) = fsum xs"
  by (cases xs rule: rev_cases) (simp_all add: fsum_snoc)

lemma fsum_nonneg: "(\<And>x. x \<in> set xs \<Longrightarrow> 0 \<le> x) \<Longrightarrow> 0 \<le> fsum xs"
  by (induction xs rule: rev_induct) (auto simp: fsum_snoc fadd_nonneg)

text \<open>Leaving out terms that are not negative never raises a rounded sum.\<close>

lemma foldl_fadd_subseq:
  "subseq xs ys \<Longrightarrow> (\<And>y. y \<in> set ys \<Longrightarrow> 0 \<le> y) \<Longrightarrow> a \<le> b \<Longrightarrow> fl64 b = b \<Longrightarrow>
     foldl fadd a xs \<le> foldl fadd b ys"
proof (induction xs ys arbitrary: a b rule: list_emb.induct)
  case (list_emb_Nil ys)
  then show ?case
  proof (induction ys arbitrary: b)
    case (Cons y ys)
    have "a \<le> fadd b y" using Cons.prems fadd_ge_left [of b y] by force
    with Cons show ?case by simp
  qed simp
next
  case (list_emb_Cons xs ys y)
  have "a \<le> fadd b y" using list_emb_Cons.prems fadd_ge_left [of b y] by force
  with list_emb_Cons show ?case by simp
next
  case (list_emb_Cons2 x y xs ys)
  have "fadd a x \<le> fadd b y" using list_emb_Cons2 by (simp add: fadd_mono)
  with list_emb_Cons2 show ?case by simp
qed

lemma fsum_subseq: "subseq xs ys \<Longrightarrow> (\<And>y. y \<in> set ys \<Longrightarrow> 0 \<le> y) \<Longrightarrow> fsum xs \<le> fsum ys"
  unfolding fsum_def by (rule foldl_fadd_subseq) auto

lemma py_round_nonneg: "0 \<le> x \<Longrightarrow> 0 \<le> py_round x"
  unfolding py_round_def using rne_mono [of 0 x] by simp

lemma py_round_mono: "x \<le> y \<Longrightarrow> py_round x \<le> py_round y"
  unfolding py_round_def by (rule rne_mono)

lemma py_int_mono: "x \<le> y \<Longrightarrow> py_int x \<le> py_int y"
proof -
  assume le: "x \<le> y"
  have "\<lceil>x\<rceil> \<le> \<lfloor>y\<rfloor>" if "x \<le> 0" "0 \<le> y"
  proof -
    have "\<lceil>x\<rceil> \<le> 0" "0 \<le> \<lfloor>y\<rfloor>" using that by (simp_all add: ceiling_le_iff)
    then show ?thesis by (rule order_trans)
  qed
  with le show ?thesis by (auto simp: py_int_def floor_mono ceiling_mono)
qed

lemmas f64_order = fadd_mono fadd_nonneg fsub_nonneg fsub_mono fmul_nonneg fmul_mono
  fdiv_nonneg fdiv_mono fint_mono fint_nonneg

end
