(* ===== verification/PyString.thy ===== *)
theory PyString
  imports Prelude
begin

text \<open>
  The operations of Python's \<open>str\<close> that the program uses: \<open>lower\<close>, \<open>strip\<close>, \<open>in\<close>,
  \<open>split\<close>, \<open>partition\<close>, and \<open>re.search\<close> for a literal between two word boundaries. A
  \<open>str\<close> is a list of characters with code points below 256 (Latin-1), for which the tables below
  are those of CPython; code points above 255 are not represented.
\<close>

section \<open>Character classes\<close>

definition code_point :: "char \<Rightarrow> nat" where "code_point c = of_char c"

definition char_lower :: "char \<Rightarrow> char" where
  "char_lower c = (let n = code_point c in
     if (65 \<le> n \<and> n \<le> 90) \<or> (192 \<le> n \<and> n \<le> 222 \<and> n \<noteq> 215) then char_of (n + 32) else c)"

definition is_space :: "char \<Rightarrow> bool" where
  "is_space c = (let n = code_point c in
     (9 \<le> n \<and> n \<le> 13) \<or> (28 \<le> n \<and> n \<le> 32) \<or> n = 133 \<or> n = 160)"

text \<open>The class \<open>\w\<close> of a \<open>str\<close> pattern.\<close>

definition is_word_char :: "char \<Rightarrow> bool" where
  "is_word_char c = (let n = code_point c in
     (48 \<le> n \<and> n \<le> 57) \<or> (65 \<le> n \<and> n \<le> 90) \<or> n = 95 \<or> (97 \<le> n \<and> n \<le> 122) \<or>
     n = 170 \<or> n = 178 \<or> n = 179 \<or> n = 181 \<or> n = 185 \<or> n = 186 \<or> (188 \<le> n \<and> n \<le> 190) \<or>
     (192 \<le> n \<and> n \<le> 255 \<and> n \<noteq> 215 \<and> n \<noteq> 247))"

section \<open>Whole strings\<close>

definition py_lower :: "string \<Rightarrow> string" where "py_lower s = map char_lower s"

definition py_strip :: "string \<Rightarrow> string" where
  "py_strip s = rev (dropWhile is_space (rev (dropWhile is_space s)))"

definition starts_with :: "string \<Rightarrow> string \<Rightarrow> bool" where
  "starts_with p s \<longleftrightarrow> take (length p) s = p"

text \<open>\<open>sub in s\<close>\<close>

fun py_in :: "string \<Rightarrow> string \<Rightarrow> bool" where
  "py_in sub [] = (sub = [])"
| "py_in sub (c # s) = (starts_with sub (c # s) \<or> py_in sub s)"

text \<open>\<open>s.split(sep)\<close> for a one-character separator, and \<open>s.partition(sep)\<close>.\<close>

fun py_split :: "char \<Rightarrow> string \<Rightarrow> string list" where
  "py_split sep [] = [[]]"
| "py_split sep (c # s) =
     (if c = sep then [] # py_split sep s
      else (case py_split sep s of [] \<Rightarrow> [[c]] | w # ws \<Rightarrow> (c # w) # ws))"

definition py_partition :: "char \<Rightarrow> string \<Rightarrow> string \<times> string \<times> string" where
  "py_partition sep s =
     (let l = takeWhile (\<lambda>c. c \<noteq> sep) s; r = dropWhile (\<lambda>c. c \<noteq> sep) s
      in case r of [] \<Rightarrow> (s, [], []) | c # t \<Rightarrow> (l, [c], t))"

section \<open>A literal between word boundaries\<close>

text \<open>\<open>\b\<close> between two neighbours: exactly one of them is a word character; the ends of the
  string count as non-word.\<close>

definition word_boundary :: "char option \<Rightarrow> char option \<Rightarrow> bool" where
  "word_boundary p n \<longleftrightarrow>
     (case p of None \<Rightarrow> False | Some c \<Rightarrow> is_word_char c) \<noteq>
     (case n of None \<Rightarrow> False | Some c \<Rightarrow> is_word_char c)"

definition head_char :: "string \<Rightarrow> char option" where
  "head_char s = (case s of [] \<Rightarrow> None | c # _ \<Rightarrow> Some c)"

definition word_match_at :: "string \<Rightarrow> char option \<Rightarrow> string \<Rightarrow> bool" where
  "word_match_at kw prev s \<longleftrightarrow>
     starts_with kw s \<and> word_boundary prev (head_char s) \<and>
     word_boundary (if kw = [] then prev else Some (last kw)) (head_char (drop (length kw) s))"

fun word_search_from :: "string \<Rightarrow> char option \<Rightarrow> string \<Rightarrow> bool" where
  "word_search_from kw prev [] = word_match_at kw prev []"
| "word_search_from kw prev (c # s) =
     (word_match_at kw prev (c # s) \<or> word_search_from kw (Some c) s)"

text \<open>\<open>re.search(rf"\b{re.escape(kw)}\b", text)\<close>\<close>

definition word_search :: "string \<Rightarrow> string \<Rightarrow> bool" where
  "word_search kw text = word_search_from kw None text"

section \<open>Facts\<close>

lemma starts_with_iff: "starts_with p s \<longleftrightarrow> (\<exists>t. s = p @ t)"
  unfolding starts_with_def by (metis append_eq_conv_conj)

lemma py_in_iff: "py_in sub s \<longleftrightarrow> (\<exists>a b. s = a @ sub @ b)"
proof (induction s)
  case Nil
  then show ?case by auto
next
  case (Cons c s)
  have "(\<exists>a b. c # s = a @ sub @ b) \<longleftrightarrow> (\<exists>b. c # s = sub @ b) \<or> (\<exists>a b. s = a @ sub @ b)"
    by (metis append_Cons append_Nil list.inject neq_Nil_conv)
  then show ?case using Cons.IH by (simp add: starts_with_iff)
qed

lemma word_match_at_split:
  assumes "kw \<noteq> []"
  shows "word_match_at kw prev s \<longleftrightarrow>
    (\<exists>b. s = [] @ kw @ b \<and>
       word_boundary (if [] = ([]::string) then prev else Some (last [])) (Some (hd kw)) \<and>
       word_boundary (Some (last kw)) (head_char b))"
proof -
  obtain k ks where kw: "kw = k # ks" using assms by (cases kw) auto
  have "word_match_at kw prev (kw @ b) \<longleftrightarrow>
      word_boundary prev (Some (hd kw)) \<and> word_boundary (Some (last kw)) (head_char b)" for b
    using assms by (simp add: word_match_at_def starts_with_def kw head_char_def)
  moreover have "\<exists>b. s = kw @ b" if "word_match_at kw prev s"
    using that by (simp add: word_match_at_def starts_with_iff)
  ultimately show ?thesis by auto
qed

lemma word_search_from_iff:
  assumes "kw \<noteq> []"
  shows "word_search_from kw prev s \<longleftrightarrow>
    (\<exists>a b. s = a @ kw @ b \<and>
       word_boundary (if a = [] then prev else Some (last a)) (Some (hd kw)) \<and>
       word_boundary (Some (last kw)) (head_char b))"
proof (induction s arbitrary: prev)
  case Nil
  with assms show ?case by (simp add: word_match_at_def starts_with_iff)
next
  case (Cons c s)
  let ?P = "\<lambda>prev s a b. s = a @ kw @ b \<and>
       word_boundary (if a = [] then prev else Some (last a)) (Some (hd kw)) \<and>
       word_boundary (Some (last kw)) (head_char b)"
  have here: "word_match_at kw prev (c # s) \<longleftrightarrow> (\<exists>b. ?P prev (c # s) [] b)"
    by (rule word_match_at_split [OF assms])
  have "(\<exists>a b. ?P prev (c # s) a b) \<longleftrightarrow>
      (\<exists>b. ?P prev (c # s) [] b) \<or> (\<exists>a b. ?P (Some c) s a b)"
  proof
    assume "\<exists>a b. ?P prev (c # s) a b"
    then obtain a b where P: "?P prev (c # s) a b" by blast
    show "(\<exists>b. ?P prev (c # s) [] b) \<or> (\<exists>a b. ?P (Some c) s a b)"
    proof (cases a)
      case Nil
      with P show ?thesis by auto
    next
      case (Cons x a')
      with P have "?P (Some c) s a' b" by auto
      then show ?thesis by blast
    qed
  next
    assume "(\<exists>b. ?P prev (c # s) [] b) \<or> (\<exists>a b. ?P (Some c) s a b)"
    then show "\<exists>a b. ?P prev (c # s) a b"
    proof
      assume "\<exists>a b. ?P (Some c) s a b"
      then obtain a b where "?P (Some c) s a b" by blast
      then have "?P prev (c # s) (c # a) b" by auto
      then show ?thesis by blast
    qed blast
  qed
  then show ?case using here Cons.IH by simp
qed

lemma py_split_nonempty: "py_split sep s \<noteq> []"
  by (cases s) (auto split: list.splits)

lemma py_split_no_sep: "w \<in> set (py_split sep s) \<Longrightarrow> sep \<notin> set w"
proof (induction s arbitrary: w)
  case Nil
  then show ?case by simp
next
  case (Cons c s)
  then show ?case by (auto split: if_splits list.splits)
qed

lemma py_split_append:
  "sep \<notin> set w \<Longrightarrow> py_split sep (w @ sep # s) = w # py_split sep s"
  by (induction w) auto

lemma py_split_no: "sep \<notin> set w \<Longrightarrow> py_split sep w = [w]"
  by (induction w) auto

lemma take_drop_sep:
  assumes "c \<notin> set a"
  shows "takeWhile (\<lambda>x. x \<noteq> c) (a @ c # b) = a" "dropWhile (\<lambda>x. x \<noteq> c) (a @ c # b) = c # b"
  using assms by (induction a) auto

lemma py_partition_append: "c \<notin> set a \<Longrightarrow> py_partition c (a @ c # b) = (a, [c], b)"
  by (simp add: py_partition_def take_drop_sep)

lemma py_partition_none: "c \<notin> set a \<Longrightarrow> py_partition c a = (a, [], [])"
proof -
  assume "c \<notin> set a"
  then have "dropWhile (\<lambda>x. x \<noteq> c) a = []" by (induction a) auto
  then show ?thesis unfolding py_partition_def Let_def by (simp only: list.case)
qed

end
