(* ===== verification/Config.thy ===== *)
theory Config
  imports Binary64 PyString
begin

text \<open>
  \<open>app/config.py\<close>: complexity tiers, model specifications and their prices, the default catalog,
  the runtime settings, and the parser of the model map.
\<close>

section \<open>Tiers\<close>

datatype complexity = SIMPLE | MODERATE | COMPLEX

fun tier_value :: "complexity \<Rightarrow> int" where
  "tier_value SIMPLE = 1"
| "tier_value MODERATE = 2"
| "tier_value COMPLEX = 3"

lemma tier_value_inj: "tier_value a = tier_value b \<longleftrightarrow> a = b"
  by (cases a; cases b) auto

instantiation complexity :: linorder
begin

definition less_eq_complexity :: "complexity \<Rightarrow> complexity \<Rightarrow> bool" where
  "less_eq_complexity a b \<longleftrightarrow> tier_value a \<le> tier_value b"

definition less_complexity :: "complexity \<Rightarrow> complexity \<Rightarrow> bool" where
  "less_complexity a b \<longleftrightarrow> tier_value a < tier_value b"

instance
  by intro_classes (auto simp: less_eq_complexity_def less_complexity_def tier_value_inj)

end

lemma complexity_order [simp]:
  "SIMPLE \<le> t" "t \<le> COMPLEX" "COMPLEX \<le> t \<longleftrightarrow> t = COMPLEX" "t \<le> SIMPLE \<longleftrightarrow> t = SIMPLE"
  by (cases t; simp add: less_eq_complexity_def)+

section \<open>Models\<close>

record model_spec =
  name :: string
  provider :: string
  tier :: complexity
  input_price_per_1k :: f64
  output_price_per_1k :: f64
  max_context_tokens :: int
  speed :: f64

definition cost :: "model_spec \<Rightarrow> int \<Rightarrow> int \<Rightarrow> f64" where
  "cost m input_tokens output_tokens =
     fadd (fmul (fdiv (fint input_tokens) 1000) (input_price_per_1k m))
          (fmul (fdiv (fint output_tokens) 1000) (output_price_per_1k m))"

definition small_model :: model_spec where
  "small_model = \<lparr>name = ''small'', provider = ''mock'', tier = SIMPLE,
     input_price_per_1k = lit 25 5, output_price_per_1k = lit 125 5,
     max_context_tokens = 16000, speed = 3\<rparr>"

definition medium_model :: model_spec where
  "medium_model = \<lparr>name = ''medium'', provider = ''mock'', tier = MODERATE,
     input_price_per_1k = lit 3 3, output_price_per_1k = lit 15 3,
     max_context_tokens = 200000, speed = 2\<rparr>"

definition large_model :: model_spec where
  "large_model = \<lparr>name = ''large'', provider = ''mock'', tier = COMPLEX,
     input_price_per_1k = lit 15 3, output_price_per_1k = lit 75 3,
     max_context_tokens = 200000, speed = 1\<rparr>"

definition DEFAULT_CATALOG :: "model_spec list" where
  "DEFAULT_CATALOG = [small_model, medium_model, large_model]"

text \<open>The prices a catalog is expected to have.\<close>

definition priced :: "model_spec \<Rightarrow> bool" where
  "priced m \<longleftrightarrow> 0 \<le> input_price_per_1k m \<and> 0 \<le> output_price_per_1k m"

section \<open>Settings\<close>

record settings =
  default_request_budget_usd :: f64
  default_user_daily_budget_usd :: f64
  reject_when_over_budget :: bool
  min_replicas :: int
  max_replicas :: int
  target_concurrency_per_replica :: f64
  scale_down_cooldown_s :: f64
  scale_up_cooldown_s :: f64
  chars_per_token :: f64
  default_max_output_tokens :: int
  provider_backend :: string
  vllm_base_url :: string
  vllm_api_key :: "string option"
  vllm_model_map :: "(string \<times> string) list"
  vllm_read_timeout_s :: f64
  vllm_connect_timeout_s :: f64
  vllm_max_retries :: int
  ledger_backend :: string
  redis_url :: string
  redis_fail_closed :: bool
  cache_backend :: string
  cache_ttl_s :: f64
  cache_max_entries :: int
  admission_timeout_s :: f64
  rate_limit_enabled :: bool
  rate_limit_burst :: f64
  rate_limit_per_second :: f64
  breaker_failure_threshold :: int
  breaker_recovery_timeout_s :: f64
  fallback_enabled :: bool
  catalog :: "model_spec list"

definition default_settings :: settings where
  "default_settings = \<lparr>
     default_request_budget_usd = 1/2, default_user_daily_budget_usd = 25,
     reject_when_over_budget = True, min_replicas = 1, max_replicas = 20, target_concurrency_per_replica = 4,
     scale_down_cooldown_s = 60, scale_up_cooldown_s = 10,
     chars_per_token = 4, default_max_output_tokens = 512,
     provider_backend = ''mock'', vllm_base_url = ''http://localhost:8000'', vllm_api_key = None,
     vllm_model_map = [], vllm_read_timeout_s = 120, vllm_connect_timeout_s = 5, vllm_max_retries = 3,
     ledger_backend = ''memory'', redis_url = ''redis://localhost:6379/0'', redis_fail_closed = True,
     cache_backend = ''memory'', cache_ttl_s = 300, cache_max_entries = 1024,
     admission_timeout_s = 30, rate_limit_enabled = True,
     rate_limit_burst = 20, rate_limit_per_second = 5,
     breaker_failure_threshold = 5, breaker_recovery_timeout_s = 30,
     fallback_enabled = True, catalog = DEFAULT_CATALOG\<rparr>"

text \<open>\<open>{m.name: m for m in models}\<close>: the last model of a name wins.\<close>

definition by_name :: "model_spec list \<Rightarrow> string \<Rightarrow> model_spec option" where
  "by_name ms = fold (\<lambda>m d. d(name m \<mapsto> m)) ms Map.empty"

definition catalog_by_name :: "settings \<Rightarrow> string \<Rightarrow> model_spec option" where
  "catalog_by_name s = by_name (catalog s)"

section \<open>The model map\<close>

text \<open>\<open>_parse_model_map\<close>: one step of the loop over the comma-separated pairs.\<close>

definition parse_model_pair :: "(string \<times> string) list \<Rightarrow> string \<Rightarrow> (string \<times> string) list" where
  "parse_model_pair out raw_pair =
     (let pair = py_strip raw_pair in
      if pair = [] \<or> CHR ''='' \<notin> set pair then out
      else (case py_partition (CHR ''='') pair of (key, _, value) \<Rightarrow>
        let key = py_strip key; value = py_strip value in
        if key \<noteq> [] \<and> value \<noteq> [] then dict_set key value out else out))"

definition parse_model_map :: "string \<Rightarrow> (string \<times> string) list" where
  "parse_model_map raw = foldl parse_model_pair [] (py_split (CHR '','') raw)"

section \<open>Facts\<close>

lemma cost_nonneg: "priced m \<Longrightarrow> 0 \<le> i \<Longrightarrow> 0 \<le> j \<Longrightarrow> 0 \<le> cost m i j"
  unfolding cost_def priced_def
  by (intro fadd_nonneg fmul_nonneg fdiv_nonneg fint_nonneg) auto

lemma cost_mono:
  assumes "priced m" "0 \<le> i" "0 \<le> j" "i \<le> i'" "j \<le> j'"
  shows "cost m i j \<le> cost m i' j'"
proof -
  have "fmul (fdiv (fint a) 1000) p \<le> fmul (fdiv (fint a') 1000) p"
    if "0 \<le> p" "0 \<le> a" "a \<le> a'" for p a a'
    using that by (intro fmul_mono fdiv_mono fint_mono fdiv_nonneg fint_nonneg) auto
  with assms show ?thesis
    unfolding cost_def priced_def by (intro fadd_mono) auto
qed

lemma cost_repr [simp]: "fl64 (cost m i j) = cost m i j"
  by (simp add: cost_def)

lemma cost_zero: "cost m 0 0 = 0"
  by (simp add: cost_def fmul_def fadd_def fdiv_def)

lemma by_name_fold:
  "fold (\<lambda>m d. d(name m \<mapsto> m)) ms d k = Some m \<Longrightarrow> (m \<in> set ms \<and> name m = k) \<or> d k = Some m"
proof (induction ms arbitrary: d)
  case Nil
  then show ?case by simp
next
  case (Cons x ms)
  from Cons.prems Cons.IH [of "d(name x \<mapsto> x)"] show ?case
    by (auto split: if_splits)
qed

lemma by_name_Some: "by_name ms k = Some m \<Longrightarrow> m \<in> set ms \<and> name m = k"
  unfolding by_name_def using by_name_fold [of ms Map.empty k m] by simp

lemma by_name_None_aux:
  "fold (\<lambda>m d. d(name m \<mapsto> m)) ms d k = None \<longleftrightarrow> k \<notin> name ` set ms \<and> d k = None"
  by (induction ms arbitrary: d) auto

lemma by_name_None: "by_name ms k = None \<longleftrightarrow> k \<notin> name ` set ms"
  unfolding by_name_def by (simp add: by_name_None_aux)

lemmas default_catalog_defs = DEFAULT_CATALOG_def small_model_def medium_model_def large_model_def

lemma default_names [simp]:
  "name small_model = ''small''" "name medium_model = ''medium''" "name large_model = ''large''"
  "tier small_model = SIMPLE" "tier medium_model = MODERATE" "tier large_model = COMPLEX"
  "max_context_tokens small_model = 16000" "max_context_tokens medium_model = 200000"
  "max_context_tokens large_model = 200000"
  by (simp_all add: default_catalog_defs)

lemma default_catalog_priced: "\<forall>m \<in> set DEFAULT_CATALOG. priced m"
  by (simp add: default_catalog_defs priced_def lit_nonneg)

end
