(* ===== verification/Errors.thy ===== *)
theory Errors
  imports Config
begin

text \<open>
  The exceptions the program raises, as one type: each class with the values its handlers read.
  Their texts are written in Messages. \<open>ProviderTimeoutError\<close> and \<open>ProviderUnavailableError\<close> are
  the two subclasses of \<open>ProviderError\<close> (\<open>app/providers/base.py\<close>).
\<close>

text \<open>A waiting time: \<open>float("inf")\<close> is \<open>Infinite\<close>.\<close>

datatype delay = Finite f64 | Infinite

datatype value_error =
    UnknownModel string
  | NoModelForTier complexity
  | UnknownBackend string
  | NotJson
  | BadNumber string

datatype exc =
    BudgetExceededError f64 f64
  | ContextTooLargeError
  | NoModelAvailableError
  | ValueError value_error
  | UserBudgetExceededError string f64 f64 f64
  | LedgerUnavailableError
  | RateLimitExceededError string delay
  | CircuitOpenError string f64
  | AdmissionTimeoutError f64
  | ProviderError
  | ProviderTimeoutError
  | ProviderUnavailableError
  | ZeroDivisionError
  | OtherError string

text \<open>\<open>SERVER_FAULTS\<close> of \<open>app/service.py\<close>: this backend is sick.\<close>

definition server_fault :: "exc \<Rightarrow> bool" where
  "server_fault e \<longleftrightarrow> e \<in> {ProviderUnavailableError, ProviderTimeoutError}"

text \<open>\<open>ADMISSION_FAULTS\<close>: routing failures that are counted as rejections.\<close>

fun admission_fault :: "exc \<Rightarrow> bool" where
  "admission_fault (BudgetExceededError _ _) = True"
| "admission_fault ContextTooLargeError = True"
| "admission_fault NoModelAvailableError = True"
| "admission_fault (ValueError _) = True"
| "admission_fault _ = False"

end
