(* ===== verification/Tokens.thy ===== *)
theory Tokens
  imports Errors
begin

text \<open>
  \<open>app/tokens.py\<close>. The optional third-party tokenizer is a parameter: \<open>None\<close> when \<open>tiktoken\<close>
  is not installed, otherwise the function that gives the number of tokens of a text, or \<open>None\<close>
  where encoding it raises.
\<close>

type_synonym tokenizer = "(string \<Rightarrow> int option) option"

definition run_tokenizer :: "tokenizer \<Rightarrow> string \<Rightarrow> int option" where
  "run_tokenizer tk text = (case tk of None \<Rightarrow> None | Some enc \<Rightarrow> enc text)"

definition count_tokens :: "tokenizer \<Rightarrow> string \<Rightarrow> f64 \<Rightarrow> (exc, int) result" where
  "count_tokens tk text cpt =
     (if text = [] then Inr 0
      else case run_tokenizer tk text of
        Some n \<Rightarrow> Inr n
      | None \<Rightarrow>
          if cpt = 0 then Inl ZeroDivisionError
          else Inr (max 1 (py_round (fdiv (fint (int (length text))) cpt))))"

definition estimate_output_tokens :: "int option \<Rightarrow> int \<Rightarrow> int" where
  "estimate_output_tokens requested_max default_max =
     (let ceiling = (case requested_max of
          Some r \<Rightarrow> if r > 0 then r else default_max
        | None \<Rightarrow> default_max)
      in max 1 (py_round (fmul (fint ceiling) (3/4))))"

text \<open>What the callers rely on of a tokenizer: it gives a non-empty text at least one token.\<close>

definition sound_tokenizer :: "tokenizer \<Rightarrow> bool" where
  "sound_tokenizer tk \<longleftrightarrow> (\<forall>text n. text \<noteq> [] \<longrightarrow> run_tokenizer tk text = Some n \<longrightarrow> 1 \<le> n)"

lemma sound_tokenizer_None [simp]: "sound_tokenizer None"
  by (simp add: sound_tokenizer_def run_tokenizer_def)

lemma count_tokens_nonneg:
  "sound_tokenizer tk \<Longrightarrow> count_tokens tk text cpt = Inr n \<Longrightarrow> 0 \<le> n"
  unfolding count_tokens_def sound_tokenizer_def
  by (fastforce split: if_splits option.splits)

lemma count_tokens_total: "cpt \<noteq> 0 \<Longrightarrow> \<exists>n. count_tokens tk text cpt = Inr n"
  unfolding count_tokens_def by (auto split: option.splits)

lemma count_tokens_error: "count_tokens tk text cpt = Inl e \<Longrightarrow> e = ZeroDivisionError \<and> cpt = 0"
  unfolding count_tokens_def by (auto split: option.splits if_splits)

lemma count_tokens_mono:
  assumes "length s \<le> length t" "0 < cpt"
    and "count_tokens None s cpt = Inr m" "count_tokens None t cpt = Inr n"
  shows "m \<le> n"
proof -
  have "py_round (fdiv (fint (int (length s))) cpt) \<le> py_round (fdiv (fint (int (length t))) cpt)"
    using assms(1,2) by (intro py_round_mono fdiv_mono fint_mono) auto
  with assms show ?thesis
    by (auto simp: count_tokens_def run_tokenizer_def split: if_splits)
qed

lemma estimate_output_tokens_pos: "1 \<le> estimate_output_tokens r d"
  by (simp add: estimate_output_tokens_def Let_def)

lemma estimate_output_tokens_mono:
  assumes "r \<le> r'" "0 < r"
  shows "estimate_output_tokens (Some r) d \<le> estimate_output_tokens (Some r') d"
proof -
  have "py_round (fmul (fint r) (3/4)) \<le> py_round (fmul (fint r') (3/4))"
    using assms by (intro py_round_mono fmul_mono fint_mono fint_nonneg) auto
  with assms show ?thesis by (simp add: estimate_output_tokens_def Let_def max_def)
qed

end
