(* ===== verification/Complexity.thy ===== *)
theory Complexity
  imports Tokens
begin

text \<open>
  \<open>app/complexity.py\<close>: the keyword classifier. The two keyword sets are lists here, so that the
  hits come in a fixed order; the code iterates over a \<open>set\<close>, whose order it leaves open, and only
  uses how many hits there are. The reasons, formatted strings in the code, are a datatype with the
  values each string interpolates.
\<close>

section \<open>Keywords\<close>

definition REASONING_KEYWORDS :: "string list" where
  "REASONING_KEYWORDS = [
     ''analyze'', ''analyse'', ''prove'', ''derive'', ''design'', ''architect'', ''debug'',
     ''optimize'', ''optimise'', ''refactor'', ''explain'', ''reason'', ''step by step'',
     ''step-by-step'', ''compare'', ''evaluate'', ''algorithm'', ''trade-off'', ''tradeoff'',
     ''strategy'', ''plan'']"

definition SIMPLE_KEYWORDS :: "string list" where
  "SIMPLE_KEYWORDS = [
     ''translate'', ''capitalize'', ''uppercase'', ''lowercase'', ''spell'', ''define'',
     ''what is'', ''hello'', ''hi '', ''thanks'', ''summarize'', ''tl;dr'', ''list'']"

definition keyword_hit :: "string \<Rightarrow> string \<Rightarrow> bool" where
  "keyword_hit text kw =
     (if CHR '' '' \<in> set kw then py_in kw text else word_search kw text)"

definition keyword_hits :: "string \<Rightarrow> string list \<Rightarrow> string list" where
  "keyword_hits text keywords = filter (keyword_hit text) keywords"

definition CODE_FENCE :: string where
  "CODE_FENCE = [CHR 0x60, CHR 0x60, CHR 0x60]"

section \<open>The score\<close>

datatype reason =
    ExplicitTaskType string
  | PromptTokens int f64
  | MaxOutputTokens int f64
  | ReasoningKeywords "string list"
  | SimpleKeywords "string list"
  | ContainsCodeBlock
  | ScoreTier f64 complexity

record complexity_result =
  result_tier :: complexity
  score :: f64
  reasons :: "reason list"

definition task_override :: "string \<Rightarrow> complexity option" where
  "task_override key =
     (if key = ''simple'' then Some SIMPLE
      else if key = ''moderate'' then Some MODERATE
      else if key = ''complex'' then Some COMPLEX
      else None)"

text \<open>The normalised signals, the weighted blend with its correction, and the buckets.\<close>

definition token_signal :: "int \<Rightarrow> f64" where
  "token_signal n = min (fdiv (fint n) 2000) 1"

definition reasoning_signal :: "nat \<Rightarrow> f64" where
  "reasoning_signal hits = min (fdiv (fint (int hits)) 3) 1"

definition blend :: "f64 \<Rightarrow> f64 \<Rightarrow> f64 \<Rightarrow> f64 \<Rightarrow> f64" where
  "blend reasoning len out code =
     fadd (fadd (fadd (fmul (lit 60 2) reasoning) (fmul (lit 15 2) len))
                (fmul (lit 15 2) out)) code"

definition adjust :: "bool \<Rightarrow> f64 \<Rightarrow> f64" where
  "adjust pure_simple s =
     min (if pure_simple then max 0 (fsub s (lit 15 2)) else s) 1"

definition bucket :: "f64 \<Rightarrow> complexity" where
  "bucket s =
     (if lit 5 1 \<le> s then COMPLEX else if lit 2 1 \<le> s then MODERATE else SIMPLE)"

text \<open>Step 1: the explicit override, and the key it is looked up by.\<close>

definition task_key :: "string option \<Rightarrow> string" where
  "task_key task_type = (case task_type of None \<Rightarrow> [] | Some t \<Rightarrow> py_lower (py_strip t))"

definition override_of :: "string option \<Rightarrow> complexity option" where
  "override_of task_type =
     (if task_type = None \<or> task_type = Some [] then None else task_override (task_key task_type))"

text \<open>Steps 2 to 5: the signals and their score, from the counted prompt tokens.\<close>

definition code_signal :: "string \<Rightarrow> f64" where
  "code_signal prompt = (if py_in CODE_FENCE prompt then lit 15 2 else 0)"

definition heuristic_score :: "string \<Rightarrow> int \<Rightarrow> int \<Rightarrow> f64" where
  "heuristic_score prompt prompt_tokens out =
     (let text = py_lower prompt;
          reasoning_hits = keyword_hits text REASONING_KEYWORDS;
          simple_hits = keyword_hits text SIMPLE_KEYWORDS
      in adjust (simple_hits \<noteq> [] \<and> reasoning_hits = [])
           (blend (reasoning_signal (length reasoning_hits)) (token_signal prompt_tokens)
             (token_signal out) (code_signal prompt)))"

definition heuristic_reasons :: "string \<Rightarrow> int \<Rightarrow> int \<Rightarrow> reason list" where
  "heuristic_reasons prompt prompt_tokens out =
     (let text = py_lower prompt;
          reasoning_hits = keyword_hits text REASONING_KEYWORDS;
          simple_hits = keyword_hits text SIMPLE_KEYWORDS;
          s = heuristic_score prompt prompt_tokens out
      in [PromptTokens prompt_tokens (token_signal prompt_tokens)]
         @ (if out \<noteq> 0 then [MaxOutputTokens out (token_signal out)] else [])
         @ (if reasoning_hits \<noteq> [] then [ReasoningKeywords reasoning_hits] else [])
         @ (if simple_hits \<noteq> [] then [SimpleKeywords simple_hits] else [])
         @ (if code_signal prompt \<noteq> 0 then [ContainsCodeBlock] else [])
         @ [ScoreTier s (bucket s)])"

text \<open>\<open>max_output_tokens or 0\<close>\<close>

definition out_or_zero :: "int option \<Rightarrow> int" where
  "out_or_zero max_output_tokens = (case max_output_tokens of None \<Rightarrow> 0 | Some n \<Rightarrow> n)"

definition estimate_complexity ::
  "tokenizer \<Rightarrow> string \<Rightarrow> string option \<Rightarrow> int option \<Rightarrow> f64 \<Rightarrow> (exc, complexity_result) result"
where
  "estimate_complexity tk prompt task_type max_output_tokens cpt =
     (case override_of task_type of
        Some t \<Rightarrow> Inr \<lparr>result_tier = t, score = fdiv (fint (tier_value t)) 3,
                       reasons = [ExplicitTaskType (task_key task_type)]\<rparr>
      | None \<Rightarrow>
          bind_result (count_tokens tk prompt cpt) (\<lambda>prompt_tokens.
            let out = out_or_zero max_output_tokens;
                s = heuristic_score prompt prompt_tokens out
            in Inr \<lparr>result_tier = bucket s, score = s,
                    reasons = heuristic_reasons prompt prompt_tokens out\<rparr>))"

text \<open>What evaluates the string functions on a concrete text.\<close>

lemmas str_eval = py_lower_def py_strip_def char_lower_def is_space_def code_point_def
lemmas keyword_eval = keyword_hits_def keyword_hit_def REASONING_KEYWORDS_def SIMPLE_KEYWORDS_def
  CODE_FENCE_def str_eval word_search_def word_match_at_def starts_with_def word_boundary_def
  head_char_def is_word_char_def

section \<open>Facts about the signals\<close>

lemma token_signal_range: "0 \<le> n \<Longrightarrow> 0 \<le> token_signal n" "token_signal n \<le> 1"
  by (auto simp: token_signal_def intro: fdiv_nonneg fint_nonneg)

lemma token_signal_mono: "m \<le> n \<Longrightarrow> token_signal m \<le> token_signal n"
  unfolding token_signal_def by (intro min.mono fdiv_mono fint_mono) auto

lemma reasoning_signal_range: "0 \<le> reasoning_signal h" "reasoning_signal h \<le> 1"
  unfolding reasoning_signal_def by (simp_all add: fdiv_nonneg fint_nonneg)

lemma blend_nonneg:
  "0 \<le> r \<Longrightarrow> 0 \<le> l \<Longrightarrow> 0 \<le> out \<Longrightarrow> 0 \<le> c \<Longrightarrow> 0 \<le> blend r l out c"
  unfolding blend_def by (intro fadd_nonneg fmul_nonneg lit_nonneg) auto

lemma blend_mono:
  assumes "r \<le> r'" "l \<le> l'" "out \<le> out'" "c \<le> c'"
  shows "blend r l out c \<le> blend r' l' out' c'"
  unfolding blend_def using assms by (intro fadd_mono fmul_left_mono lit_nonneg) auto

lemma adjust_range: "0 \<le> s \<Longrightarrow> 0 \<le> adjust b s" "adjust b s \<le> 1"
  by (auto simp: adjust_def)

lemma adjust_mono: "s \<le> s' \<Longrightarrow> adjust b s \<le> adjust b s'"
  using fsub_mono [of s s' "lit 15 2" "lit 15 2"] by (auto simp: adjust_def min_def max_def)

lemma bucket_mono: "s \<le> s' \<Longrightarrow> bucket s \<le> bucket s'"
  by (auto simp: bucket_def less_eq_complexity_def)

lemma task_override_Some:
  "task_override key = Some t \<longleftrightarrow>
     (key = ''simple'' \<and> t = SIMPLE) \<or> (key = ''moderate'' \<and> t = MODERATE) \<or>
     (key = ''complex'' \<and> t = COMPLEX)"
  by (auto simp: task_override_def)

lemma lit_two_tenths: "0 < lit 2 1" "lit 2 1 < lit 5 1"
  by code_simp+

section \<open>Properties\<close>

text \<open>The two ways to a result.\<close>

lemma estimate_cases:
  assumes "estimate_complexity tk prompt task_type out cpt = Inr r"
  obtains (override) t where "override_of task_type = Some t" "result_tier r = t"
      "score r = fdiv (fint (tier_value t)) 3"
    | (heuristic) n where "override_of task_type = None" "count_tokens tk prompt cpt = Inr n"
      "score r = heuristic_score prompt n (out_or_zero out)" "result_tier r = bucket (score r)"
  using assms
  by (cases "override_of task_type")
     (auto simp: estimate_complexity_def Let_def bind_result_Inr_iff)

lemma estimate_override:
  assumes "task_override (py_lower (py_strip tt)) = Some t"
  shows "estimate_complexity tk prompt (Some tt) out cpt =
    Inr \<lparr>result_tier = t, score = fdiv (fint (tier_value t)) 3,
         reasons = [ExplicitTaskType (py_lower (py_strip tt))]\<rparr>"
proof -
  have "tt \<noteq> []"
    using assms by (auto simp: task_override_def py_strip_def py_lower_def split: if_splits)
  with assms show ?thesis by (simp add: estimate_complexity_def override_of_def task_key_def)
qed

lemma heuristic_score_range:
  assumes "0 \<le> n" "0 \<le> out"
  shows "0 \<le> heuristic_score prompt n out" "heuristic_score prompt n out \<le> 1"
  using assms unfolding heuristic_score_def Let_def
  by (auto simp: code_signal_def
      intro!: adjust_range blend_nonneg reasoning_signal_range token_signal_range lit_nonneg)

lemma heuristic_score_mono:
  assumes "n \<le> n'" "out \<le> out'"
  shows "heuristic_score prompt n out \<le> heuristic_score prompt n' out'"
  unfolding heuristic_score_def Let_def
  using assms by (intro adjust_mono blend_mono token_signal_mono) auto

lemma estimate_total: "cpt \<noteq> 0 \<Longrightarrow> \<exists>r. estimate_complexity tk prompt tt out cpt = Inr r"
  using count_tokens_total [of cpt tk prompt]
  by (auto simp: estimate_complexity_def Let_def split: option.splits)

lemma estimate_error: "estimate_complexity tk prompt tt out cpt = Inl e \<Longrightarrow> e = ZeroDivisionError"
  by (auto simp: estimate_complexity_def Let_def bind_result_Inl_iff
      dest: count_tokens_error split: option.splits)

lemma tier_score_range: "0 \<le> fdiv (fint (tier_value t)) 3 \<and> fdiv (fint (tier_value t)) 3 \<le> 1"
proof -
  have "fdiv (fint (tier_value t)) 3 \<le> fdiv (fint 3) 3"
    by (intro fdiv_mono fint_mono) (cases t; simp)+
  also have "fdiv (fint 3) 3 = 1" by (simp add: fdiv_def fint_def fl64_numeral)
  finally show ?thesis by (cases t) (auto intro!: fdiv_nonneg fint_nonneg)
qed

text \<open>
  The score the classifier reports lies between 0 and 1, whatever the prompt, for every
  requested output length that is not negative.
\<close>

theorem complexity_score_in_unit_interval:
  assumes "sound_tokenizer tk" and "case out of None \<Rightarrow> True | Some k \<Rightarrow> 0 \<le> k"
    and "estimate_complexity tk prompt task_type out cpt = Inr r"
  shows "0 \<le> score r \<and> score r \<le> 1"
  using assms(3)
proof (cases rule: estimate_cases)
  case (override t)
  then show ?thesis using tier_score_range by simp
next
  case (heuristic n)
  have "0 \<le> n" by (rule count_tokens_nonneg [OF assms(1) heuristic(2)])
  moreover have "0 \<le> out_or_zero out" using assms(2) by (simp add: out_or_zero_def split: option.splits)
  ultimately show ?thesis unfolding heuristic(3) by (simp add: heuristic_score_range)
qed

theorem complexity_score_in_unit_interval_witness:
  "\<exists>r. estimate_complexity None ''plan'' None (Some 100) 4 = Inr r \<and> 0 \<le> score r \<and> score r \<le> 1"
proof -
  obtain r where r: "estimate_complexity None ''plan'' None (Some 100) 4 = Inr r"
    using estimate_total [of 4 None "''plan''" None "Some 100"] by auto
  show ?thesis
    using r complexity_score_in_unit_interval [OF _ _ r] by simp
qed

text \<open>
  Asking for a longer answer never lowers the tier or the score of the same prompt.
\<close>

theorem complexity_monotone_in_output:
  assumes "estimate_complexity tk prompt task_type (Some k) cpt = Inr r"
    and "estimate_complexity tk prompt task_type (Some k') cpt = Inr r'" and "k \<le> k'"
  shows "result_tier r \<le> result_tier r' \<and> score r \<le> score r'"
  using assms(1)
proof (cases rule: estimate_cases)
  case (override t)
  with assms(2) show ?thesis by (auto simp: estimate_complexity_def)
next
  case (heuristic n)
  then have "score r' = heuristic_score prompt n k'" "result_tier r' = bucket (score r')"
    using assms(2) by (auto simp: estimate_complexity_def Let_def out_or_zero_def)
  moreover have "heuristic_score prompt n k \<le> heuristic_score prompt n k'"
    by (rule heuristic_score_mono [OF order_refl assms(3)])
  ultimately show ?thesis
    using heuristic by (simp add: out_or_zero_def bucket_mono)
qed

theorem complexity_monotone_in_output_witness:
  "\<exists>r r'. estimate_complexity None ''plan'' None (Some 10) 4 = Inr r \<and>
     estimate_complexity None ''plan'' None (Some 4000) 4 = Inr r' \<and>
     result_tier r \<le> result_tier r' \<and> score r \<le> score r'"
proof -
  obtain r r' where r: "estimate_complexity None ''plan'' None (Some 10) 4 = Inr r"
    and r': "estimate_complexity None ''plan'' None (Some 4000) 4 = Inr r'"
    using estimate_total [of 4 None "''plan''" None] by (metis zero_neq_numeral)
  show ?thesis
    using r r' complexity_monotone_in_output [OF r r'] by auto
qed

text \<open>
  An explicit task type (any case, surrounding blanks ignored) decides the tier alone: no
  keyword, length or output ceiling is looked at, and the tokenizer is never called.
\<close>

theorem complexity_override_wins:
  assumes "task_override (py_lower (py_strip tt)) = Some t"
  shows "estimate_complexity tk prompt (Some tt) out cpt =
    Inr \<lparr>result_tier = t, score = fdiv (fint (tier_value t)) 3,
         reasons = [ExplicitTaskType (py_lower (py_strip tt))]\<rparr>"
  by (rule estimate_override [OF assms])

theorem complexity_override_wins_witness:
  "task_override (py_lower (py_strip '' Complex '')) = Some COMPLEX \<and>
   result_tier (projr (estimate_complexity None ''hello'' (Some '' Complex '') None 0)) = COMPLEX"
proof -
  have t: "task_override (py_lower (py_strip '' Complex '')) = Some COMPLEX"
    by code_simp
  show ?thesis
    unfolding complexity_override_wins [OF t] using t by simp
qed

text \<open>A literal that stands in the text with a word boundary at both of its ends.\<close>

definition occurs_as_word :: "string \<Rightarrow> string \<Rightarrow> bool" where
  "occurs_as_word kw text \<longleftrightarrow>
     (\<exists>a b. text = a @ kw @ b \<and>
        word_boundary (if a = [] then None else Some (last a)) (Some (hd kw)) \<and>
        word_boundary (Some (last kw)) (head_char b))"

definition keyword_occurs :: "string \<Rightarrow> string \<Rightarrow> bool" where
  "keyword_occurs text kw \<longleftrightarrow>
     (if CHR '' '' \<in> set kw then \<exists>a b. text = a @ kw @ b else occurs_as_word kw text)"

lemma keyword_hit_iff: "kw \<noteq> [] \<Longrightarrow> keyword_hit text kw \<longleftrightarrow> keyword_occurs text kw"
  by (simp add: keyword_hit_def keyword_occurs_def occurs_as_word_def py_in_iff word_search_def
      word_search_from_iff)

text \<open>
  What a keyword hit is: a keyword with a blank is found anywhere in the text, any other only
  where both of its ends are word boundaries, so that \<open>design\<close> is not found in \<open>designated\<close>.
\<close>

theorem keyword_hits_characterised:
  "keyword_hits text REASONING_KEYWORDS = filter (keyword_occurs text) REASONING_KEYWORDS \<and>
   keyword_hits text SIMPLE_KEYWORDS = filter (keyword_occurs text) SIMPLE_KEYWORDS"
proof -
  have "[] \<notin> set REASONING_KEYWORDS" "[] \<notin> set SIMPLE_KEYWORDS"
    by (simp_all add: REASONING_KEYWORDS_def SIMPLE_KEYWORDS_def)
  then show ?thesis
    unfolding keyword_hits_def by (metis (no_types, lifting) filter_cong keyword_hit_iff)
qed

lemma designated_is_no_hit:
  "\<not> keyword_hit ''designated'' ''design'' \<and> keyword_hit ''design it'' ''design''"
  by (simp add: keyword_eval)

text \<open>
  A code block alone does not raise the tier: a prompt of at most 600 tokens with a code fence
  and no reasoning keyword, and no requested output length, is SIMPLE, although the comment above
  the buckets says that anything with code lands at least MODERATE.
\<close>

theorem code_block_alone_is_simple:
  assumes "keyword_hits (py_lower prompt) REASONING_KEYWORDS = []"
    and "count_tokens tk prompt cpt = Inr n" and "n \<le> 600"
  shows "\<exists>r. estimate_complexity tk prompt None None cpt = Inr r \<and> result_tier r = SIMPLE"
proof -
  let ?s = "blend (reasoning_signal 0) (token_signal n) (token_signal 0) (code_signal prompt)"
  have "?s \<le> blend (reasoning_signal 0) (token_signal 600) (token_signal 0) (lit 15 2)"
    using assms(3) by (intro blend_mono token_signal_mono) (auto simp: code_signal_def lit_nonneg)
  also have "\<dots> = fadd (fmul (lit 15 2) (token_signal 600)) (lit 15 2)"
    by (simp add: blend_def fadd_zero_left fadd_zero_right token_signal_def reasoning_signal_def)
  also have "\<dots> < lit 2 1" by code_simp
  finally have lt: "?s < lit 2 1" .
  have "fsub ?s (lit 15 2) \<le> ?s"
    by (rule fsub_le_left) (auto simp: blend_def intro: lit_nonneg)
  then have "adjust b ?s < lit 2 1" for b
    using lt lit_two_tenths(1) by (simp add: adjust_def min_def max_def)
  then have "heuristic_score prompt n 0 < lit 2 1"
    using assms(1) by (simp add: heuristic_score_def Let_def)
  then have "bucket (heuristic_score prompt n 0) = SIMPLE"
    using lit_two_tenths(2) by (auto simp: bucket_def)
  then show ?thesis
    using assms(2) by (simp add: estimate_complexity_def override_of_def out_or_zero_def)
qed

theorem code_block_alone_is_simple_witness:
  "py_in CODE_FENCE (CODE_FENCE @ ''x=1'' @ CODE_FENCE) \<and>
   (\<exists>r. estimate_complexity None (CODE_FENCE @ ''x=1'' @ CODE_FENCE) None None 4 = Inr r \<and>
      result_tier r = SIMPLE)"
proof -
  have k: "keyword_hits (py_lower (CODE_FENCE @ ''x=1'' @ CODE_FENCE)) REASONING_KEYWORDS = []"
    by (simp add: keyword_eval)
  have n: "count_tokens None (CODE_FENCE @ ''x=1'' @ CODE_FENCE) 4 = Inr 2"
    by code_simp
  have "py_in CODE_FENCE (CODE_FENCE @ ''x=1'' @ CODE_FENCE)"
    by (simp add: keyword_eval)
  then show ?thesis
    using code_block_alone_is_simple [OF k n] by simp
qed

end
