(* ===== verification/Router.thy ===== *)
theory Router
  imports Complexity
begin

text \<open>
  \<open>app/router.py\<close>: the cheapest capable model, the projected cost, and the switch to a cheaper
  model when the projection exceeds the request's budget. The notes of a decision, formatted
  strings in the code, are a datatype with the values each string interpolates.
\<close>

section \<open>Decisions\<close>

datatype routing_note =
    ForcedModel string
  | TierPrimary complexity string f64
  | PrimaryOverBudget f64 f64
  | DowngradedTo string f64
  | ServedFromCache

record routing_decision =
  model :: model_spec
  complexity :: complexity_result
  input_tokens :: int
  projected_output_tokens :: int
  projected_cost :: f64
  downgraded :: bool
  decision_notes :: "routing_note list"

text \<open>The nominal price that ranks models: a call of 1k tokens in and 1k out.\<close>

definition nominal_price :: "model_spec \<Rightarrow> f64" where
  "nominal_price m = cost m 1000 1000"

definition capable_models :: "model_spec list \<Rightarrow> complexity \<Rightarrow> model_spec list" where
  "capable_models ms t = sort_key nominal_price (filter (\<lambda>m. t \<le> tier m) ms)"

definition all_models_by_price :: "model_spec list \<Rightarrow> model_spec list" where
  "all_models_by_price ms = sort_key nominal_price ms"

definition context_fits :: "model_spec \<Rightarrow> int \<Rightarrow> int \<Rightarrow> bool" where
  "context_fits m inp out \<longleftrightarrow> \<not> max_context_tokens m < inp + out"

definition check_context :: "model_spec \<Rightarrow> int \<Rightarrow> int \<Rightarrow> (exc, unit) result" where
  "check_context m inp out = (if context_fits m inp out then Inr () else Inl ContextTooLargeError)"

text \<open>The loop over the models by price, with its three \<open>continue\<close>s.\<close>

fun downgrade_loop ::
  "model_spec list \<Rightarrow> model_spec \<Rightarrow> int \<Rightarrow> int \<Rightarrow> f64 \<Rightarrow> (model_spec \<times> f64) option" where
  "downgrade_loop [] primary inp out b = None"
| "downgrade_loop (candidate # rest) primary inp out b =
     (if nominal_price primary \<le> nominal_price candidate then downgrade_loop rest primary inp out b
      else case check_context candidate inp out of
        Inl _ \<Rightarrow> downgrade_loop rest primary inp out b
      | Inr _ \<Rightarrow>
          if cost candidate inp out \<le> b then Some (candidate, cost candidate inp out)
          else downgrade_loop rest primary inp out b)"

section \<open>Routing\<close>

text \<open>The forced-model path.\<close>

definition route_forced ::
  "model_spec list \<Rightarrow> string \<Rightarrow> complexity_result \<Rightarrow> int \<Rightarrow> int \<Rightarrow> f64 \<Rightarrow> (exc, routing_decision) result"
where
  "route_forced ms f c inp out b =
     (case by_name ms f of
        None \<Rightarrow> Inl (ValueError (UnknownModel f))
      | Some chosen \<Rightarrow>
          bind_result (check_context chosen inp out) (\<lambda>_.
            if b < cost chosen inp out then Inl (BudgetExceededError (cost chosen inp out) b)
            else Inr \<lparr>model = chosen, complexity = c, input_tokens = inp,
                      projected_output_tokens = out, projected_cost = cost chosen inp out,
                      downgraded = False, decision_notes = [ForcedModel f]\<rparr>))"

text \<open>The complexity path: the cheapest capable model, then the switch down.\<close>

definition route_by_tier ::
  "model_spec list \<Rightarrow> complexity_result \<Rightarrow> int \<Rightarrow> int \<Rightarrow> f64 \<Rightarrow> (exc, routing_decision) result"
where
  "route_by_tier ms c inp out b =
     (case capable_models ms (result_tier c) of
        [] \<Rightarrow> Inl (ValueError (NoModelForTier (result_tier c)))
      | primary # _ \<Rightarrow>
          bind_result (check_context primary inp out) (\<lambda>_.
            let primary_cost = cost primary inp out;
                ns = [TierPrimary (result_tier c) (name primary) primary_cost]
            in if primary_cost \<le> b then
                 Inr \<lparr>model = primary, complexity = c, input_tokens = inp,
                      projected_output_tokens = out, projected_cost = primary_cost,
                      downgraded = False, decision_notes = ns\<rparr>
               else case downgrade_loop (all_models_by_price ms) primary inp out b of
                 Some (candidate, c') \<Rightarrow>
                   Inr \<lparr>model = candidate, complexity = c, input_tokens = inp,
                        projected_output_tokens = out, projected_cost = c',
                        downgraded = True,
                        decision_notes = ns @ [PrimaryOverBudget primary_cost b, DowngradedTo (name candidate) c']\<rparr>
               | None \<Rightarrow> Inl (BudgetExceededError primary_cost b)))"

text \<open>An empty \<open>force_model\<close> is no choice, as its truth value says.\<close>

definition forced :: "string option \<Rightarrow> bool" where
  "forced force_model \<longleftrightarrow> force_model \<noteq> None \<and> force_model \<noteq> Some []"

definition request_budget :: "settings \<Rightarrow> f64 option \<Rightarrow> f64" where
  "request_budget s budget_usd =
     (case budget_usd of Some b \<Rightarrow> b | None \<Rightarrow> default_request_budget_usd s)"

definition available :: "settings \<Rightarrow> string set \<Rightarrow> model_spec list" where
  "available s exclude = filter (\<lambda>m. name m \<notin> exclude) (catalog s)"

definition route ::
  "tokenizer \<Rightarrow> string \<Rightarrow> settings \<Rightarrow> string option \<Rightarrow> int option \<Rightarrow> f64 option \<Rightarrow> string option \<Rightarrow>
   string set \<Rightarrow> (exc, routing_decision) result"
where
  "route tk prompt s task_type max_output_tokens budget_usd force_model exclude =
     bind_result (estimate_complexity tk prompt task_type max_output_tokens (chars_per_token s)) (\<lambda>c.
     bind_result (count_tokens tk prompt (chars_per_token s)) (\<lambda>inp.
       let b = request_budget s budget_usd;
           out = estimate_output_tokens max_output_tokens (default_max_output_tokens s);
           ms = available s exclude
       in if ms = [] then Inl NoModelAvailableError
          else case force_model of
              Some f \<Rightarrow> if f = [] then route_by_tier ms c inp out b else route_forced ms f c inp out b
            | None \<Rightarrow> route_by_tier ms c inp out b))"

section \<open>Facts\<close>

lemma check_context_simps [simp]:
  "check_context m inp out = Inr u \<longleftrightarrow> context_fits m inp out"
  "check_context m inp out = Inl e \<longleftrightarrow> \<not> context_fits m inp out \<and> e = ContextTooLargeError"
  by (auto simp: check_context_def)

lemma downgrade_loop_find:
  "downgrade_loop ms primary inp out b =
     map_option (\<lambda>m. (m, cost m inp out))
       (List.find (\<lambda>m. nominal_price m < nominal_price primary \<and> context_fits m inp out \<and>
          cost m inp out \<le> b) ms)"
  by (induction ms) (auto simp: check_context_def not_le)

lemma capable_models_set: "set (capable_models ms t) = {m \<in> set ms. t \<le> tier m}"
  by (auto simp: capable_models_def)

lemma capable_models_hd:
  assumes "capable_models ms t = p # rest" "m \<in> set ms" "t \<le> tier m"
  shows "nominal_price p \<le> nominal_price m"
proof -
  have "sorted (map nominal_price (p # rest))"
    using assms(1) sorted_sort_key [of nominal_price "filter (\<lambda>m. t \<le> tier m) ms"]
    by (simp add: capable_models_def)
  moreover have "m \<in> set (p # rest)"
    using capable_models_set [of ms t] assms by auto
  ultimately show ?thesis by (rule sorted_map_hd_le)
qed

lemma capable_models_Nil: "capable_models ms t = [] \<longleftrightarrow> (\<forall>m \<in> set ms. \<not> t \<le> tier m)"
  using capable_models_set [of ms t] by (auto simp flip: set_empty)

lemma all_models_set [simp]: "set (all_models_by_price ms) = set ms"
  by (simp add: all_models_by_price_def)

lemma all_models_sorted: "sorted (map nominal_price (all_models_by_price ms))"
  by (simp add: all_models_by_price_def)

text \<open>What the loop finds is affordable and fits, and no cheaper model is.\<close>

lemma downgrade_loop_Some:
  assumes "downgrade_loop (all_models_by_price ms) primary inp out b = Some (m, c)"
  shows "m \<in> set ms" "nominal_price m < nominal_price primary" "context_fits m inp out"
    "c = cost m inp out" "cost m inp out \<le> b"
    "\<And>m'. m' \<in> set ms \<Longrightarrow> context_fits m' inp out \<Longrightarrow> cost m' inp out \<le> b \<Longrightarrow>
       nominal_price m \<le> nominal_price m'"
proof -
  let ?P = "\<lambda>m. nominal_price m < nominal_price primary \<and> context_fits m inp out \<and> cost m inp out \<le> b"
  from assms have f: "List.find ?P (all_models_by_price ms) = Some m" and c: "c = cost m inp out"
    by (auto simp: downgrade_loop_find)
  then obtain ys zs where split: "all_models_by_price ms = ys @ m # zs" and Pm: "?P m"
    and before: "\<forall>y \<in> set ys. \<not> ?P y"
    by (auto simp: find_Some_iff_split)
  show "m \<in> set ms" using split by (metis all_models_set in_set_conv_decomp)
  show "nominal_price m < nominal_price primary" "context_fits m inp out" "c = cost m inp out"
    "cost m inp out \<le> b"
    using Pm c by auto
  fix m' assume m': "m' \<in> set ms" "context_fits m' inp out" "cost m' inp out \<le> b"
  then have "m' \<in> set (ys @ m # zs)" using split by (metis all_models_set)
  moreover have "nominal_price m \<le> nominal_price m'" if "m' \<in> set (m # zs)"
    using all_models_sorted [of ms] that by (auto simp: split sorted_append)
  moreover have "nominal_price m \<le> nominal_price m'" if "m' \<in> set ys"
    using before that m' Pm by auto
  ultimately show "nominal_price m \<le> nominal_price m'" by auto
qed

lemma downgrade_loop_None:
  "downgrade_loop (all_models_by_price ms) primary inp out b = None \<longleftrightarrow>
     (\<forall>m \<in> set ms. nominal_price m < nominal_price primary \<longrightarrow> context_fits m inp out \<longrightarrow>
        b < cost m inp out)"
  by (auto simp: downgrade_loop_find find_None_iff not_le)

text \<open>The ways a routing call returns a decision.\<close>

lemma route_Inr:
  assumes "route tk prompt s tt out b fm ex = Inr d"
  obtains c inp where
    "estimate_complexity tk prompt tt out (chars_per_token s) = Inr c"
    "count_tokens tk prompt (chars_per_token s) = Inr inp"
    "available s ex \<noteq> []"
    "if forced fm
     then route_forced (available s ex) (the fm) c inp
       (estimate_output_tokens out (default_max_output_tokens s)) (request_budget s b) = Inr d
     else route_by_tier (available s ex) c inp
       (estimate_output_tokens out (default_max_output_tokens s)) (request_budget s b) = Inr d"
  using assms
  by (auto simp: route_def bind_result_Inr_iff forced_def Let_def split: if_splits option.splits)

lemma route_unfold:
  assumes "estimate_complexity tk prompt tt out (chars_per_token s) = Inr c"
    and "count_tokens tk prompt (chars_per_token s) = Inr inp" and "available s ex \<noteq> []"
  shows "route tk prompt s tt out b fm ex =
    (if forced fm
     then route_forced (available s ex) (the fm) c inp
       (estimate_output_tokens out (default_max_output_tokens s)) (request_budget s b)
     else route_by_tier (available s ex) c inp
       (estimate_output_tokens out (default_max_output_tokens s)) (request_budget s b))"
  using assms by (auto simp: route_def forced_def Let_def split: option.splits)

lemma route_forced_Inr:
  assumes "route_forced ms f c inp out b = Inr d"
  shows "by_name ms f = Some (model d)" "context_fits (model d) inp out"
    "cost (model d) inp out \<le> b" "\<not> downgraded d" "complexity d = c" "input_tokens d = inp"
    "projected_output_tokens d = out" "projected_cost d = cost (model d) inp out"
  using assms by (auto simp: route_forced_def bind_result_Inr_iff split: option.splits if_splits)

lemma route_by_tier_Inr:
  assumes "route_by_tier ms c inp out b = Inr d"
  obtains (primary) rest where
      "capable_models ms (result_tier c) = model d # rest" "context_fits (model d) inp out"
      "cost (model d) inp out \<le> b" "\<not> downgraded d"
      "complexity d = c" "input_tokens d = inp" "projected_output_tokens d = out"
      "projected_cost d = cost (model d) inp out"
    | (switched) primary rest where
      "capable_models ms (result_tier c) = primary # rest" "context_fits primary inp out"
      "b < cost primary inp out" "downgraded d"
      "downgrade_loop (all_models_by_price ms) primary inp out b = Some (model d, projected_cost d)"
      "complexity d = c" "input_tokens d = inp" "projected_output_tokens d = out"
  using assms
  by (auto simp: route_by_tier_def bind_result_Inr_iff Let_def not_le
      split: list.splits if_splits option.splits)

section \<open>The default catalog\<close>

lemma default_prices:
  "nominal_price small_model < nominal_price medium_model"
  "nominal_price medium_model < nominal_price large_model"
  by code_simp+

lemma default_capable:
  "capable_models DEFAULT_CATALOG SIMPLE = [small_model, medium_model, large_model]"
  "capable_models DEFAULT_CATALOG MODERATE = [medium_model, large_model]"
  "capable_models DEFAULT_CATALOG COMPLEX = [large_model]"
  "all_models_by_price DEFAULT_CATALOG = [small_model, medium_model, large_model]"
  using default_prices
  by (simp_all add: capable_models_def all_models_by_price_def DEFAULT_CATALOG_def
      less_eq_complexity_def)

lemma available_empty [simp]: "available s {} = catalog s"
  by (simp add: available_def)

lemma override_names:
  "task_override (py_lower (py_strip ''simple'')) = Some SIMPLE"
  "task_override (py_lower (py_strip ''complex'')) = Some COMPLEX"
  "py_lower (py_strip ''simple'') = ''simple''" "py_lower (py_strip ''complex'') = ''complex''"
  by code_simp+

lemma estimate_named [simp]:
  "estimate_complexity tk p (Some ''simple'') out cpt =
    Inr \<lparr>result_tier = SIMPLE, score = fdiv (fint 1) 3, reasons = [ExplicitTaskType ''simple'']\<rparr>"
  "estimate_complexity tk p (Some ''complex'') out cpt =
    Inr \<lparr>result_tier = COMPLEX, score = fdiv (fint 3) 3, reasons = [ExplicitTaskType ''complex'']\<rparr>"
  using estimate_override [OF override_names(1)] estimate_override [OF override_names(2)]
  by (simp_all add: override_names)

lemma hello_tokens: "count_tokens None ''hello'' 4 = Inr 1"
  by code_simp

lemma default_output: "estimate_output_tokens None 512 = 384"
  by code_simp

lemma hello_cost: "cost small_model 1 384 \<le> 1/2" "1/2 < cost large_model 200000 384"
  by code_simp+

lemma route_simple_example:
  "\<exists>d. route None ''hello'' default_settings (Some ''simple'') None None None {} = Inr d \<and>
     model d = small_model \<and> input_tokens d = 1 \<and> projected_output_tokens d = 384 \<and>
     \<not> downgraded d \<and> projected_cost d = cost small_model 1 384"
proof -
  have "DEFAULT_CATALOG \<noteq> []" by (simp add: DEFAULT_CATALOG_def)
  then show ?thesis
    using hello_cost(1)
    by (simp add: route_def default_settings_def hello_tokens default_output route_by_tier_def
        default_capable check_context_def context_fits_def request_budget_def Let_def)
qed

text \<open>A complex task with a budget of two cents: \<open>large\<close> costs more, \<open>small\<close> is affordable.\<close>

lemma complex_costs:
  "lit 2 2 < cost large_model 1 384" "cost small_model 1 384 \<le> lit 2 2"
  by code_simp+

lemma route_downgrade_example:
  "\<exists>d. route None ''hello'' default_settings (Some ''complex'') None (Some (lit 2 2)) None {} = Inr d \<and>
     model d = small_model \<and> downgraded d"
proof -
  have "DEFAULT_CATALOG \<noteq> []" by (simp add: DEFAULT_CATALOG_def)
  then show ?thesis
    using complex_costs default_prices
    by (simp add: route_def default_settings_def hello_tokens default_output route_by_tier_def
        default_capable check_context_def context_fits_def request_budget_def Let_def not_le)
qed

section \<open>Properties\<close>

lemma available_set: "m \<in> set (available s ex) \<longleftrightarrow> m \<in> set (catalog s) \<and> name m \<notin> ex"
  by (simp add: available_def)

lemma route_safe:
  assumes "route tk prompt s tt out b fm ex = Inr d"
  shows "model d \<in> set (available s ex) \<and>
    context_fits (model d) (input_tokens d) (projected_output_tokens d) \<and>
    projected_cost d = cost (model d) (input_tokens d) (projected_output_tokens d) \<and>
    projected_cost d \<le> request_budget s b"
  using assms
proof (cases rule: route_Inr)
  case (1 c inp)
  let ?ms = "available s ex"
  let ?out = "estimate_output_tokens out (default_max_output_tokens s)"
  show ?thesis
  proof (cases "forced fm")
    case True
    with 1 have f: "route_forced ?ms (the fm) c inp ?out (request_budget s b) = Inr d"
      by simp
    then show ?thesis
      using route_forced_Inr [OF f] by_name_Some [OF route_forced_Inr(1) [OF f]] by simp
  next
    case False
    with 1 have "route_by_tier ?ms c inp ?out (request_budget s b) = Inr d"
      by simp
    then show ?thesis
    proof (cases rule: route_by_tier_Inr)
      case (primary rest)
      then have "model d \<in> set ?ms"
        using capable_models_set [of ?ms "result_tier c"] by auto
      with primary show ?thesis by simp
    next
      case (switched p rest)
      with downgrade_loop_Some [OF switched(5)] show ?thesis by simp
    qed
  qed
qed

text \<open>
  C8. Whatever path routing takes (primary, switched down or forced), the chosen model is a model of
  the catalog that is not excluded, the prompt and the projected output fit its context window, the
  projection is that model's price for them, and it does not exceed the request's budget.
\<close>

theorem route_respects_budget_and_context:
  assumes "route tk prompt s tt out b fm ex = Inr d"
  shows "model d \<in> set (catalog s) \<and> name (model d) \<notin> ex \<and>
    context_fits (model d) (input_tokens d) (projected_output_tokens d) \<and>
    projected_cost d = cost (model d) (input_tokens d) (projected_output_tokens d) \<and>
    projected_cost d \<le> request_budget s b"
  using route_safe [OF assms] by (simp add: available_set)

theorem route_respects_budget_and_context_witness:
  "\<exists>d. route None ''hello'' default_settings (Some ''simple'') None None None {} = Inr d \<and>
     model d = small_model \<and> model d \<in> set (catalog default_settings) \<and>
     projected_cost d \<le> 1/2"
  using route_simple_example
    route_respects_budget_and_context [of None "''hello''" default_settings "Some ''simple''" None None None "{}"]
  by (auto simp: default_settings_def request_budget_def)

text \<open>
  C7. The path without a pinned model. The decision is for an available model that holds the request and whose cost,
  which is the projected one, is within the budget. It is not a downgrade exactly when the cheapest capable model is
  within the budget, and then it is that model (capable, and no capable model of the catalog has a lower
  nominal price). A downgrade goes to a model that is strictly cheaper than the cheapest capable one, which itself is
  over the budget, and is the cheapest of all the available models that hold the request within the budget.
\<close>

theorem route_cheapest_capable_or_downgrade:
  assumes "route tk prompt s tt out b fm ex = Inr d" and "\<not> forced fm"
  shows "\<exists>p \<in> set (available s ex).
    result_tier (complexity d) \<le> tier p \<and>
    (\<forall>m \<in> set (available s ex). result_tier (complexity d) \<le> tier m \<longrightarrow> nominal_price p \<le> nominal_price m) \<and>
    model d \<in> set (available s ex) \<and>
    context_fits (model d) (input_tokens d) (projected_output_tokens d) \<and>
    projected_cost d = cost (model d) (input_tokens d) (projected_output_tokens d) \<and>
    projected_cost d \<le> request_budget s b \<and>
    (if downgraded d
     then request_budget s b < cost p (input_tokens d) (projected_output_tokens d) \<and>
       nominal_price (model d) < nominal_price p \<and>
       (\<forall>m \<in> set (available s ex). context_fits m (input_tokens d) (projected_output_tokens d) \<longrightarrow>
          cost m (input_tokens d) (projected_output_tokens d) \<le> request_budget s b \<longrightarrow>
          nominal_price (model d) \<le> nominal_price m)
     else model d = p)"
  using assms(1)
proof (cases rule: route_Inr)
  case (1 c inp)
  let ?ms = "available s ex"
  have t: "route_by_tier ?ms c inp (estimate_output_tokens out (default_max_output_tokens s))
      (request_budget s b) = Inr d"
    using 1 assms(2) by simp
  have capable: "p \<in> set ?ms \<and> result_tier c \<le> tier p" if "capable_models ?ms (result_tier c) = p # rest" for p rest
    using that capable_models_set [of ?ms "result_tier c"] by auto
  from t show ?thesis
  proof (cases rule: route_by_tier_Inr)
    case (primary rest)
    show ?thesis
      using capable [OF primary(1)] capable_models_hd [OF primary(1)] primary
      by (intro bexI [of _ "model d"]) auto
  next
    case (switched p rest)
    show ?thesis
      using capable [OF switched(1)] capable_models_hd [OF switched(1)] switched
        downgrade_loop_Some [OF switched(5)]
      by (intro bexI [of _ p]) auto
  qed
qed

theorem route_cheapest_capable_or_downgrade_witness:
  "\<exists>d p. route None ''hello'' default_settings (Some ''complex'') None (Some (lit 2 2)) None {} = Inr d \<and>
     model d = small_model \<and> downgraded d \<and> p \<in> set DEFAULT_CATALOG \<and>
     nominal_price small_model < nominal_price p"
proof -
  obtain d where d: "route None ''hello'' default_settings (Some ''complex'') None (Some (lit 2 2)) None {} = Inr d"
    "model d = small_model" "downgraded d"
    using route_downgrade_example by blast
  have "\<not> forced None" by (simp add: forced_def)
  from route_cheapest_capable_or_downgrade [OF d(1) this] d show ?thesis
    by (auto simp: default_settings_def)
qed

text \<open>
  A request without a pinned model is turned away for its budget only when nothing cheaper
  helps: the cheapest capable model is over the budget, and every model with a lower nominal price
  either cannot hold the request or is over the budget as well.
\<close>

theorem route_budget_error_is_justified:
  assumes "route tk prompt s tt out b fm ex = Inl (BudgetExceededError c limit)" and "\<not> forced fm"
  shows "limit = request_budget s b \<and> limit < c \<and>
    (\<exists>p inp. p \<in> set (available s ex) \<and>
       count_tokens tk prompt (chars_per_token s) = Inr inp \<and>
       c = cost p inp (estimate_output_tokens out (default_max_output_tokens s)) \<and>
       (\<forall>m \<in> set (available s ex). nominal_price m < nominal_price p \<longrightarrow>
          context_fits m inp (estimate_output_tokens out (default_max_output_tokens s)) \<longrightarrow>
          limit < cost m inp (estimate_output_tokens out (default_max_output_tokens s))))"
proof -
  let ?out = "estimate_output_tokens out (default_max_output_tokens s)"
  from assms obtain r inp where inp: "count_tokens tk prompt (chars_per_token s) = Inr inp"
    and t: "route_by_tier (available s ex) r inp ?out (request_budget s b) =
      Inl (BudgetExceededError c limit)"
    by (auto simp: route_def bind_result_Inl_iff forced_def Let_def
        dest: estimate_error count_tokens_error split: if_splits option.splits)
  from t obtain p rest where p: "capable_models (available s ex) (result_tier r) = p # rest"
    and c: "c = cost p inp ?out" "limit = request_budget s b" "limit < c"
    and none: "downgrade_loop (all_models_by_price (available s ex)) p inp ?out limit = None"
    by (auto simp: route_by_tier_def bind_result_Inl_iff Let_def not_le
        split: list.splits if_splits option.splits)
  have "p \<in> set (available s ex)"
    using p capable_models_set [of "available s ex" "result_tier r"] by auto
  with c none inp show ?thesis
    by (intro conjI exI [of _ p] exI [of _ inp]) (simp_all add: downgrade_loop_None)
qed

lemma route_budget_error_example:
  "\<exists>c. route None ''hello'' default_settings (Some ''simple'') None (Some 0) None {} =
     Inl (BudgetExceededError c 0)"
proof -
  have "DEFAULT_CATALOG \<noteq> []" by (simp add: DEFAULT_CATALOG_def)
  moreover have "0 < cost small_model 1 384" by code_simp
  ultimately show ?thesis
    using default_prices
    by (simp add: route_def default_settings_def hello_tokens default_output route_by_tier_def
        default_capable check_context_def context_fits_def request_budget_def Let_def not_le)
qed

theorem route_budget_error_is_justified_witness:
  "\<exists>c. route None ''hello'' default_settings (Some ''simple'') None (Some 0) None {} =
     Inl (BudgetExceededError c 0) \<and> 0 < c"
proof -
  obtain c where c: "route None ''hello'' default_settings (Some ''simple'') None (Some 0) None {} =
      Inl (BudgetExceededError c 0)"
    using route_budget_error_example by blast
  have "\<not> forced None" by (simp add: forced_def)
  from route_budget_error_is_justified [OF c this] c show ?thesis by blast
qed

text \<open>
  A larger budget never loses a request: what routes under a budget routes under every larger
  one, and a decision that was not a downgrade stays the same model.
\<close>

theorem route_monotone_in_budget:
  assumes "route tk prompt s tt out (Some b) fm ex = Inr d" and "b \<le> b'"
  shows "\<exists>d'. route tk prompt s tt out (Some b') fm ex = Inr d' \<and>
    (downgraded d \<or> model d' = model d \<and> \<not> downgraded d')"
  using assms(1)
proof (cases rule: route_Inr)
  case (1 c inp)
  let ?out = "estimate_output_tokens out (default_max_output_tokens s)"
  let ?ms = "available s ex"
  have r: "route tk prompt s tt out (Some b') fm ex =
      (if forced fm then route_forced ?ms (the fm) c inp ?out b' else route_by_tier ?ms c inp ?out b')"
    using route_unfold [OF 1(1-3)] by (simp add: request_budget_def)
  show ?thesis
  proof (cases "forced fm")
    case True
    with 1 have "route_forced ?ms (the fm) c inp ?out b = Inr d" by (simp add: request_budget_def)
    with True assms(2) show ?thesis
      by (auto simp: r route_forced_def bind_result_Inr_iff check_context_def
          split: option.splits if_splits)
  next
    case False
    with 1 have t: "route_by_tier ?ms c inp ?out b = Inr d" by (simp add: request_budget_def)
    from t show ?thesis
    proof (cases rule: route_by_tier_Inr)
      case (primary rest)
      with False assms(2) show ?thesis
        by (simp add: r route_by_tier_def check_context_def Let_def)
    next
      case (switched p rest)
      have "downgrade_loop (all_models_by_price ?ms) p inp ?out b' \<noteq> None"
        using downgrade_loop_Some(1-3,5) [OF switched(5)] assms(2)
        by (metis downgrade_loop_None leD order_trans)
      with False switched show ?thesis
        by (auto simp: r route_by_tier_def check_context_def Let_def)
    qed
  qed
qed

theorem route_monotone_in_budget_witness:
  "\<exists>d d'. route None ''hello'' default_settings (Some ''complex'') None (Some (lit 2 2)) None {} = Inr d \<and>
     route None ''hello'' default_settings (Some ''complex'') None (Some 1) None {} = Inr d'"
proof -
  obtain d where d: "route None ''hello'' default_settings (Some ''complex'') None (Some (lit 2 2)) None {} = Inr d"
    using route_downgrade_example by blast
  have "lit 2 2 \<le> 1" by code_simp
  from route_monotone_in_budget [OF d this] d show ?thesis by blast
qed

text \<open>
  Only the cheapest capable model's context window is asked: when the request does not fit
  there, routing raises the context error even where a larger capable model could hold it, so the
  error does not mean, as its docstring says, that the prompt exceeds every model's window.
\<close>

theorem route_context_error_from_primary:
  assumes "\<not> forced fm"
    and "estimate_complexity tk prompt tt out (chars_per_token s) = Inr c"
    and "count_tokens tk prompt (chars_per_token s) = Inr inp"
    and "capable_models (available s ex) (result_tier c) = p # rest"
    and "\<not> context_fits p inp (estimate_output_tokens out (default_max_output_tokens s))"
  shows "route tk prompt s tt out b fm ex = Inl ContextTooLargeError"
proof -
  have "available s ex \<noteq> []"
    using assms(4) by (auto simp: capable_models_def)
  from route_unfold [OF assms(2,3) this] assms(1,4,5) show ?thesis
    by (simp add: route_by_tier_def check_context_def)
qed

theorem route_context_error_from_primary_witness:
  "route None ''hello'' default_settings (Some ''simple'') (Some 30000) None None {} =
     Inl ContextTooLargeError \<and>
   context_fits medium_model 1 (estimate_output_tokens (Some 30000) 512)"
proof -
  have out: "estimate_output_tokens (Some 30000) 512 = 22500" by code_simp
  have nf: "\<not> forced None" by (simp add: forced_def)
  have inp: "count_tokens None ''hello'' (chars_per_token default_settings) = Inr 1"
    by (simp add: default_settings_def hello_tokens)
  have cap: "capable_models (available default_settings {}) (result_tier \<lparr>result_tier = SIMPLE,
      score = fdiv (fint 1) 3, reasons = [ExplicitTaskType ''simple'']\<rparr>) =
      small_model # [medium_model, large_model]"
    by (simp add: default_settings_def default_capable)
  have nofit: "\<not> context_fits small_model 1
      (estimate_output_tokens (Some 30000) (default_max_output_tokens default_settings))"
    by (simp add: default_settings_def out context_fits_def)
  from route_context_error_from_primary [OF nf estimate_named(1) inp cap nofit]
  show ?thesis by (simp add: out context_fits_def)
qed

text \<open>
  A pinned model is honoured: a decision for a pinned model is for an available model of that
  name, is never a downgrade, and still respects the budget.
\<close>

theorem route_force_model:
  assumes "f \<noteq> []" and "route tk prompt s tt out b (Some f) ex = Inr d"
  shows "name (model d) = f \<and> f \<notin> ex \<and> \<not> downgraded d \<and> projected_cost d \<le> request_budget s b"
proof -
  have "forced (Some f)" using assms(1) by (simp add: forced_def)
  with assms(2) obtain c inp where r: "route_forced (available s ex) f c inp
      (estimate_output_tokens out (default_max_output_tokens s)) (request_budget s b) = Inr d"
    by (auto elim!: route_Inr)
  have "model d \<in> set (available s ex)" "name (model d) = f"
    using by_name_Some [OF route_forced_Inr(1) [OF r]] by auto
  then show ?thesis using route_forced_Inr [OF r] by (auto simp: available_set)
qed

lemma route_forced_example:
  "\<exists>d. route None ''hello'' default_settings (Some ''simple'') None None (Some ''large'') {} = Inr d"
proof -
  have "DEFAULT_CATALOG \<noteq> []" by (simp add: DEFAULT_CATALOG_def)
  moreover have "\<not> 1/2 < cost large_model 1 384" by code_simp
  ultimately show ?thesis
    by (simp add: route_def default_settings_def hello_tokens default_output route_forced_def
        by_name_def DEFAULT_CATALOG_def check_context_def context_fits_def request_budget_def Let_def)
qed

theorem route_force_model_witness:
  "\<exists>d. route None ''hello'' default_settings (Some ''simple'') None None (Some ''large'') {} = Inr d \<and>
     name (model d) = ''large''"
proof -
  obtain d where d: "route None ''hello'' default_settings (Some ''simple'') None None (Some ''large'') {} = Inr d"
    using route_forced_example by blast
  have "''large'' \<noteq> []" by simp
  from route_force_model [OF this d] d show ?thesis by blast
qed

end
