(* ===== verification/Roundoff.thy ===== *)
theory Roundoff
  imports Binary64
begin

text \<open>
  How far a sum of floats is from the exact sum: each addition rounds by at most \<open>2^-53\<close> of its result, or by
  less than any float where the result is tiny. The budgets of the ledgers are checked on such sums; these are
  the bounds that let the checks say something about the money itself.
\<close>

definition unit_roundoff :: rat where "unit_roundoff = 1 / 2 ^ 53"
definition tiny :: rat where "tiny = 2 powi (- 1075)"

lemma roundoff_bounds: "0 \<le> 1 - unit_roundoff" "1 - unit_roundoff \<le> 1" "0 \<le> tiny" "0 \<le> unit_roundoff"
  by (simp_all add: unit_roundoff_def tiny_def)

lemma roundoff_power: "0 \<le> (1 - unit_roundoff) ^ k" "(1 - unit_roundoff) ^ k \<le> 1"
  using roundoff_bounds by (simp_all add: power_le_one)

lemma fl64_above: "0 \<le> x \<Longrightarrow> x * (1 - unit_roundoff) - tiny \<le> fl64 x"
proof -
  assume "0 \<le> x"
  then show ?thesis
    using fl64_error [of x] unfolding tiny_def [symmetric] by (simp add: unit_roundoff_def algebra_simps abs_le_iff)
qed

lemma fl64_unround: "0 \<le> x \<Longrightarrow> fl64 x * (1 - unit_roundoff) \<le> x + tiny"
proof -
  assume x: "0 \<le> x"
  let ?u = unit_roundoff
  have "fl64 x \<le> x * (1 + ?u) + tiny"
    using x fl64_error [of x] unfolding tiny_def [symmetric] by (simp add: unit_roundoff_def algebra_simps abs_le_iff)
  then have "fl64 x * (1 - ?u) \<le> (x * (1 + ?u) + tiny) * (1 - ?u)"
    using roundoff_bounds(1) by (rule mult_right_mono)
  also have "\<dots> = x - x * ?u ^ 2 + tiny - tiny * ?u" by (simp add: algebra_simps power2_eq_square)
  also have "\<dots> \<le> x + tiny"
  proof -
    have "0 \<le> x * ?u ^ 2" "0 \<le> tiny * ?u" using x roundoff_bounds by simp_all
    then show ?thesis by linarith
  qed
  finally show ?thesis .
qed

lemma foldl_fadd_nonneg: "0 \<le> t \<Longrightarrow> (\<And>x. x \<in> set xs \<Longrightarrow> 0 \<le> x) \<Longrightarrow> 0 \<le> foldl fadd t xs"
  by (induction xs arbitrary: t) (simp_all add: fadd_nonneg)

text \<open>A running sum against the exact one.\<close>

lemma foldl_fadd_lower:
  assumes "0 \<le> t" "\<And>x. x \<in> set xs \<Longrightarrow> 0 \<le> x"
  shows "(t + sum_list xs) * (1 - unit_roundoff) ^ length xs - of_nat (length xs) * tiny \<le> foldl fadd t xs"
  using assms
proof (induction xs arbitrary: t)
  case (Cons v xs)
  let ?q = "1 - unit_roundoff" and ?S = "sum_list xs" and ?t = "fadd t v"
  have S: "0 \<le> ?S" using Cons.prems(2) by (intro sum_list_nonneg) auto
  have v: "0 \<le> v" using Cons.prems(2) by simp
  note qn = roundoff_power [of "length xs"]
  have t: "(t + v) * ?q - tiny \<le> ?t" using fl64_above [of "t + v"] Cons.prems(1) v by (simp add: fadd_def)
  have "(t + v + ?S) * (?q * ?q ^ length xs) - tiny * ?q ^ length xs
      = ((t + v) * ?q - tiny + ?S * ?q) * ?q ^ length xs" by (simp add: algebra_simps)
  also have "\<dots> \<le> (?t + ?S) * ?q ^ length xs"
    using t S roundoff_bounds qn(1) by (intro mult_right_mono add_mono) (simp_all add: mult_left_le)
  also have "\<dots> \<le> foldl fadd ?t xs + of_nat (length xs) * tiny"
    using Cons.IH [of ?t] Cons.prems fadd_nonneg [OF Cons.prems(1) v] by simp
  finally have "(t + v + ?S) * (?q * ?q ^ length xs) \<le>
      foldl fadd ?t xs + of_nat (length xs) * tiny + tiny * ?q ^ length xs" by simp
  also have "tiny * ?q ^ length xs \<le> tiny" using qn(2) roundoff_bounds(3) by (simp add: mult_left_le)
  finally have "(t + v + ?S) * (?q * ?q ^ length xs) \<le> foldl fadd ?t xs + of_nat (length xs) * tiny + tiny" by simp
  moreover have "of_nat (length (v # xs)) * tiny = of_nat (length xs) * tiny + tiny" by (simp add: algebra_simps)
  ultimately show ?case by (simp add: add.assoc)
qed simp

text \<open>What it says about the exact amounts that a sum and one more addition stayed below a bound.\<close>

lemma sum_then_add:
  assumes "\<And>x. x \<in> set xs \<Longrightarrow> 0 \<le> x" "0 \<le> a" "fadd (fsum xs) a \<le> B" "length xs \<le> n"
  shows "(sum_list xs + a) * (1 - unit_roundoff) ^ (n + 1) \<le> B + of_nat (n + 1) * tiny"
proof -
  let ?q = "1 - unit_roundoff" and ?S = "sum_list xs" and ?T = "fsum xs" and ?k = "length xs"
  have S: "0 \<le> ?S" using assms(1) by (intro sum_list_nonneg) auto
  note q = roundoff_power roundoff_bounds(1,2)
  have T: "?S * ?q ^ ?k - of_nat ?k * tiny \<le> ?T"
    using foldl_fadd_lower [of 0 xs] assms(1) by (simp add: fsum_def)
  have T0: "0 \<le> ?T" using foldl_fadd_nonneg [of 0 xs] assms(1) by (simp add: fsum_def)
  have "(?S + a) * ?q ^ (n + 1) \<le> (?S + a) * ?q ^ (?k + 1)"
    using S assms(2,4) q by (intro mult_left_mono power_decreasing) simp_all
  also have "\<dots> = ?S * ?q ^ ?k * ?q + a * ?q ^ ?k * ?q" by (simp add: algebra_simps)
  also have "\<dots> \<le> (?T + of_nat ?k * tiny) * ?q + a * ?q"
    using T q assms(2) by (intro add_mono mult_right_mono) (simp_all add: mult_right_le_one_le)
  also have "\<dots> \<le> (?T + a) * ?q + of_nat ?k * tiny"
    using q(3,4) roundoff_bounds(3) by (simp add: algebra_simps mult_left_le)
  also have "(?T + a) * ?q \<le> fadd ?T a + tiny"
    using fl64_above [of "?T + a"] T0 assms(2) by (simp add: fadd_def)
  finally have "(?S + a) * ?q ^ (n + 1) \<le> fadd ?T a + of_nat (?k + 1) * tiny" by (simp add: algebra_simps)
  also have "\<dots> \<le> B + of_nat (n + 1) * tiny"
    using assms(3,4) roundoff_bounds(3) by (intro add_mono mult_right_mono) simp_all
  finally show ?thesis .
qed

text \<open>A step that adds no more than \<open>o\<close> to what is recorded keeps a bound that grows by \<open>o\<close>.\<close>

lemma bound_step:
  fixes r r' over more_over :: rat
  assumes "0 \<le> r" "r' \<le> r + more_over" "0 \<le> more_over" "r * (1 - unit_roundoff) ^ (n + 1) \<le> B + over + of_nat (n + 1) * tiny"
  shows "r' * (1 - unit_roundoff) ^ (Suc n + 1) \<le> B + (over + more_over) + of_nat (Suc n + 1) * tiny"
proof -
  let ?q = "1 - unit_roundoff"
  have "r' * ?q ^ (Suc n + 1) \<le> (r + more_over) * ?q ^ (Suc n + 1)"
    using assms(2) by (rule mult_right_mono) (rule roundoff_power)
  also have "\<dots> = r * ?q ^ (Suc n + 1) + more_over * ?q ^ (Suc n + 1)" by (simp add: algebra_simps)
  also have "\<dots> \<le> r * ?q ^ (n + 1) + more_over"
    using assms(1,3) roundoff_bounds roundoff_power(2) [of "Suc n + 1"]
    by (intro add_mono mult_left_mono power_decreasing mult_left_le) auto
  also have "\<dots> \<le> B + over + of_nat (n + 1) * tiny + more_over" using assms(4) by simp
  also have "\<dots> \<le> B + (over + more_over) + of_nat (Suc n + 1) * tiny"
    using roundoff_bounds(3) by (simp add: algebra_simps)
  finally show ?thesis .
qed

end
