(* ===== verification/Ledger.thy ===== *)
theory Ledger
  imports Errors Roundoff
begin

text \<open>
  \<open>app/cost/base.py\<close> and \<open>app/cost/memory.py\<close>: the three-phase budget ledger. Entries are
  \<open>(timestamp, amount, entry id)\<close> per user, in the order they were appended. A method of the class
  is a function of the clock reading it makes and of the ledger, and returns the ledger; the
  \<open>closed\<close> flag of a reservation is a field of the reservation, which \<open>settle\<close> and \<open>release\<close>
  return updated. The random id of a reservation is an argument of \<open>reserve\<close>. None of the methods
  suspends while it holds the lock, so each is one atomic step.

  The locale \<open>budget_ledger\<close> is the contract the service relies on, stated over the live entries
  of a user; it is interpreted on the in-memory ledger at the end.
\<close>

section \<open>State\<close>

record reservation =
  res_user :: string
  res_amount :: f64
  res_created_at :: f64
  res_id :: string
  res_closed :: bool

record usage_record =
  rec_user :: string
  rec_model :: string
  rec_input_tokens :: int
  rec_output_tokens :: int
  rec_cost :: f64
  rec_at :: f64

type_synonym entry = "f64 \<times> f64 \<times> string"

record ledger =
  window_seconds :: f64
  spend :: "string \<Rightarrow> entry list"
  usage_records :: "usage_record list"

definition new_ledger :: ledger where
  "new_ledger = \<lparr>window_seconds = 86400, spend = (\<lambda>_. []), usage_records = []\<rparr>"

abbreviation entry_time :: "entry \<Rightarrow> f64" where "entry_time e \<equiv> fst e"
abbreviation entry_amount :: "entry \<Rightarrow> f64" where "entry_amount e \<equiv> fst (snd e)"
abbreviation entry_id :: "entry \<Rightarrow> string" where "entry_id e \<equiv> snd (snd e)"

section \<open>Operations\<close>

definition set_spend :: "ledger \<Rightarrow> string \<Rightarrow> entry list \<Rightarrow> ledger" where
  "set_spend L u es = L\<lparr>spend := (spend L)(u := es)\<rparr>"

definition prune :: "f64 \<Rightarrow> ledger \<Rightarrow> string \<Rightarrow> ledger" where
  "prune now L u =
     set_spend L u (filter (\<lambda>e. fsub now (window_seconds L) \<le> entry_time e) (spend L u))"

definition total :: "entry list \<Rightarrow> f64" where
  "total es = fsum (map entry_amount es)"

definition spent :: "f64 \<Rightarrow> ledger \<Rightarrow> string \<Rightarrow> f64 \<times> ledger" where
  "spent now L u = (let L' = prune now L u in (total (spend L' u), L'))"

definition reserve ::
  "f64 \<Rightarrow> string \<Rightarrow> ledger \<Rightarrow> string \<Rightarrow> f64 \<Rightarrow> f64 \<Rightarrow> (exc, reservation) result \<times> ledger"
where
  "reserve now rid L u amount limit =
     (let L' = prune now L u; current = total (spend L' u)
      in if fadd limit (lit 1 9) < fadd current amount
         then (Inl (UserBudgetExceededError u current limit amount), L')
         else (Inr \<lparr>res_user = u, res_amount = amount, res_created_at = now, res_id = rid,
                    res_closed = False\<rparr>,
               set_spend L' u (spend L' u @ [(now, amount, rid)])))"

fun drop_entry :: "string \<Rightarrow> entry list \<Rightarrow> entry list" where
  "drop_entry rid [] = []"
| "drop_entry rid (e # es) = (if entry_id e = rid then es else e # drop_entry rid es)"

definition settle ::
  "f64 \<Rightarrow> ledger \<Rightarrow> reservation \<Rightarrow> f64 \<Rightarrow> string \<Rightarrow> int \<Rightarrow> int \<Rightarrow> ledger \<times> reservation"
where
  "settle now L r actual_cost mname inp out =
     (if res_closed r then (L, r)
      else let u = res_user r;
               L1 = set_spend L u (drop_entry (res_id r) (spend L u));
               L2 = set_spend L1 u (spend L1 u @ [(now, actual_cost, res_id r)]);
               L3 = L2\<lparr>usage_records := usage_records L2 @
                 [\<lparr>rec_user = u, rec_model = mname, rec_input_tokens = inp,
                   rec_output_tokens = out, rec_cost = actual_cost, rec_at = now\<rparr>]\<rparr>
           in (L3, r\<lparr>res_closed := True\<rparr>))"

definition release :: "ledger \<Rightarrow> reservation \<Rightarrow> ledger \<times> reservation" where
  "release L r =
     (if res_closed r then (L, r)
      else (set_spend L (res_user r) (drop_entry (res_id r) (spend L (res_user r))),
            r\<lparr>res_closed := True\<rparr>))"

definition records :: "ledger \<Rightarrow> usage_record list" where
  "records L = usage_records L"

definition add_cost :: "(string \<times> f64) list \<Rightarrow> usage_record \<Rightarrow> (string \<times> f64) list" where
  "add_cost out r =
     dict_set (rec_user r) (fadd (case map_of out (rec_user r) of None \<Rightarrow> 0 | Some c \<Rightarrow> c) (rec_cost r)) out"

definition summary :: "ledger \<Rightarrow> (string \<times> f64) list" where
  "summary L = foldl add_cost [] (usage_records L)"

section \<open>The entries of a user\<close>

definition entry_ids :: "ledger \<Rightarrow> string \<Rightarrow> string set" where
  "entry_ids L u = entry_id ` set (spend L u)"

definition wf_ledger :: "ledger \<Rightarrow> bool" where
  "wf_ledger L \<longleftrightarrow> (\<forall>u. distinct (map entry_id (spend L u)))"

lemma spend_set_spend [simp]:
  "spend (set_spend L u es) v = (if v = u then es else spend L v)"
  by (simp add: set_spend_def)

lemma set_spend_frame [simp]:
  "window_seconds (set_spend L u es) = window_seconds L"
  "usage_records (set_spend L u es) = usage_records L"
  by (simp_all add: set_spend_def)

lemma prune_frame [simp]:
  "window_seconds (prune now L u) = window_seconds L"
  "usage_records (prune now L u) = usage_records L"
  "v \<noteq> u \<Longrightarrow> spend (prune now L u) v = spend L v"
  by (simp_all add: prune_def)

lemma set_spend_idem [simp]: "set_spend (set_spend L u es) u es' = set_spend L u es'"
  by (simp add: set_spend_def)

lemma set_spend_same [simp]: "set_spend L u (spend L u) = L"
  by (simp add: set_spend_def)

lemma spend_prune:
  "spend (prune now L u) u = filter (\<lambda>e. fsub now (window_seconds L) \<le> entry_time e) (spend L u)"
  by (simp add: prune_def)

lemma prune_idem: "prune now (prune now L u) u = prune now L u"
  by (simp add: prune_def)

lemma drop_entry_absent: "rid \<notin> entry_id ` set es \<Longrightarrow> drop_entry rid es = es"
  by (induction es) auto

lemma drop_entry_snoc:
  "rid \<notin> entry_id ` set es \<Longrightarrow> drop_entry rid (es @ [(t, a, rid)]) = es"
  by (induction es) auto

lemma drop_entry_filter:
  "distinct (map entry_id es) \<Longrightarrow> drop_entry rid es = filter (\<lambda>e. entry_id e \<noteq> rid) es"
proof (induction es)
  case Nil
  then show ?case by simp
next
  case (Cons e es)
  then have "entry_id e \<notin> entry_id ` set es" by simp
  then have "filter (\<lambda>e'. entry_id e' \<noteq> entry_id e) es = es"
    unfolding filter_id_conv by (metis imageI)
  with Cons show ?case by auto
qed

lemma total_snoc: "total (es @ [e]) = fadd (total es) (entry_amount e)"
  by (simp add: total_def fsum_snoc)

lemma total_Nil [simp]: "total [] = 0"
  by (simp add: total_def)

lemma wf_new_ledger: "wf_ledger new_ledger"
  by (simp add: wf_ledger_def new_ledger_def)

lemma wf_set_spend:
  "wf_ledger L \<Longrightarrow> distinct (map entry_id es) \<Longrightarrow> wf_ledger (set_spend L u es)"
  by (simp add: wf_ledger_def)

lemma wf_prune: "wf_ledger L \<Longrightarrow> wf_ledger (prune now L u)"
  unfolding prune_def by (rule wf_set_spend) (auto simp: wf_ledger_def distinct_map_filter)

lemma distinct_drop: "distinct (map entry_id es) \<Longrightarrow> distinct (map entry_id (drop_entry rid es))"
  by (simp add: drop_entry_filter distinct_map_filter)

lemma drop_removes: "distinct (map entry_id es) \<Longrightarrow> rid \<notin> entry_id ` set (drop_entry rid es)"
  by (auto simp: drop_entry_filter)

text \<open>Every operation keeps the ids of a user's entries distinct; \<open>reserve\<close> needs a fresh id.\<close>

lemma wf_reserve:
  assumes "wf_ledger L" "rid \<notin> entry_ids L u"
  shows "wf_ledger (snd (reserve now rid L u amount limit))"
proof -
  have "wf_ledger (prune now L u)" using assms(1) by (rule wf_prune)
  moreover have "distinct (map entry_id (spend (prune now L u) u @ [(now, amount, rid)]))"
    using assms by (auto simp: wf_ledger_def entry_ids_def spend_prune distinct_map_filter)
  ultimately show ?thesis
    by (simp add: reserve_def Let_def wf_set_spend)
qed

lemma wf_settle: "wf_ledger L \<Longrightarrow> wf_ledger (fst (settle now L r c m i out))"
proof -
  assume wf: "wf_ledger L"
  then have d: "distinct (map entry_id (spend L (res_user r)))" by (simp add: wf_ledger_def)
  have "wf_ledger (set_spend L (res_user r)
      (drop_entry (res_id r) (spend L (res_user r)) @ [(now, c, res_id r)]))"
    using wf distinct_drop [OF d] drop_removes [OF d] by (intro wf_set_spend) auto
  with wf show ?thesis by (simp add: settle_def Let_def wf_ledger_def)
qed

lemma wf_release: "wf_ledger L \<Longrightarrow> wf_ledger (fst (release L r))"
  by (simp add: release_def wf_set_spend distinct_drop wf_ledger_def)

section \<open>What each operation does to the entries\<close>

lemma reserve_granted:
  assumes "reserve now rid L u amount limit = (Inr r, L')"
  shows "r = \<lparr>res_user = u, res_amount = amount, res_created_at = now, res_id = rid, res_closed = False\<rparr>"
    "L' = set_spend (prune now L u) u (spend (prune now L u) u @ [(now, amount, rid)])"
    "fadd (total (spend (prune now L u) u)) amount \<le> fadd limit (lit 1 9)"
  using assms by (auto simp: reserve_def Let_def not_less split: if_splits)

lemma reserve_refused:
  assumes "reserve now rid L u amount limit = (Inl e, L')"
  shows "e = UserBudgetExceededError u (total (spend (prune now L u) u)) limit amount"
    "L' = prune now L u"
    "fadd limit (lit 1 9) < fadd (total (spend (prune now L u) u)) amount"
  using assms by (auto simp: reserve_def Let_def split: if_splits)

lemma settle_open:
  assumes "\<not> res_closed r"
  shows "spend (fst (settle now L r c m i out)) u =
      (if u = res_user r then drop_entry (res_id r) (spend L u) @ [(now, c, res_id r)] else spend L u)"
    "usage_records (fst (settle now L r c m i out)) = usage_records L @
      [\<lparr>rec_user = res_user r, rec_model = m, rec_input_tokens = i, rec_output_tokens = out,
        rec_cost = c, rec_at = now\<rparr>]"
    "snd (settle now L r c m i out) = r\<lparr>res_closed := True\<rparr>"
  using assms by (simp_all add: settle_def Let_def)

lemma release_open:
  assumes "\<not> res_closed r"
  shows "spend (fst (release L r)) u =
      (if u = res_user r then drop_entry (res_id r) (spend L u) else spend L u)"
    "usage_records (fst (release L r)) = usage_records L"
    "snd (release L r) = r\<lparr>res_closed := True\<rparr>"
  using assms by (simp_all add: release_def)

lemma closed_noop [simp]:
  "res_closed r \<Longrightarrow> settle now L r c m i out = (L, r)"
  "res_closed r \<Longrightarrow> release L r = (L, r)"
  by (simp_all add: settle_def release_def)

lemma settle_closes [simp]: "res_closed (snd (settle now L r c m i out))"
  by (simp add: settle_def Let_def)

lemma release_closes [simp]: "res_closed (snd (release L r))"
  by (simp add: release_def)

section \<open>The contract\<close>

text \<open>A call that closes a reservation, and a sequence of them on one reservation.\<close>

datatype closing =
    Settle (close_now: f64) (close_cost: f64) (close_model: string) (close_in: int) (close_out: int)
  | Release

fun close_with ::
  "(f64 \<Rightarrow> 'l \<Rightarrow> reservation \<Rightarrow> f64 \<Rightarrow> string \<Rightarrow> int \<Rightarrow> int \<Rightarrow> 'l \<times> reservation) \<Rightarrow>
   ('l \<Rightarrow> reservation \<Rightarrow> 'l \<times> reservation) \<Rightarrow> 'l \<times> reservation \<Rightarrow> closing \<Rightarrow> 'l \<times> reservation"
where
  "close_with charge refund (L, r) (Settle now c m i out) = charge now L r c m i out"
| "close_with charge refund (L, r) Release = refund L r"

text \<open>The entry a closing call leaves behind for the reservation.\<close>

fun closing_entry :: "string \<Rightarrow> closing \<Rightarrow> (string \<times> f64) list" where
  "closing_entry rid (Settle now c m i out) = [(rid, c)]"
| "closing_entry rid Release = []"

locale budget_ledger =
  fixes ok :: "'l \<Rightarrow> bool"
    and live :: "'l \<Rightarrow> string \<Rightarrow> (string \<times> f64) list"
    and hold :: "f64 \<Rightarrow> string \<Rightarrow> 'l \<Rightarrow> string \<Rightarrow> f64 \<Rightarrow> f64 \<Rightarrow> (exc, reservation) result \<times> 'l"
    and charge :: "f64 \<Rightarrow> 'l \<Rightarrow> reservation \<Rightarrow> f64 \<Rightarrow> string \<Rightarrow> int \<Rightarrow> int \<Rightarrow> 'l \<times> reservation"
    and refund :: "'l \<Rightarrow> reservation \<Rightarrow> 'l \<times> reservation"
  assumes ok_hold: "ok L \<Longrightarrow> rid \<notin> fst ` set (live L u) \<Longrightarrow> ok (snd (hold now rid L u a cap))"
    and ok_charge: "ok L \<Longrightarrow> ok (fst (charge now L r c m i out))"
    and ok_refund: "ok L \<Longrightarrow> ok (fst (refund L r))"
    and hold_granted: "hold now rid L u a cap = (Inr r, L') \<Longrightarrow>
      res_id r = rid \<and> res_user r = u \<and> \<not> res_closed r \<and>
      (\<exists>old. set old \<subseteq> set (live L u) \<and> live L' u = old @ [(rid, a)])"
    and hold_refused: "hold now rid L u a cap = (Inl e, L') \<Longrightarrow> set (live L' u) \<subseteq> set (live L u)"
    and hold_frame: "v \<noteq> u \<Longrightarrow> live (snd (hold now rid L u a cap)) v = live L v"
    and charge_open: "ok L \<Longrightarrow> \<not> res_closed r \<Longrightarrow>
      live (fst (charge now L r c m i out)) (res_user r) =
        filter (\<lambda>(rid, _). rid \<noteq> res_id r) (live L (res_user r)) @ [(res_id r, c)]"
    and charge_frame: "v \<noteq> res_user r \<Longrightarrow> live (fst (charge now L r c m i out)) v = live L v"
    and charge_closes: "res_closed (snd (charge now L r c m i out))"
    and charge_closed: "res_closed r \<Longrightarrow> charge now L r c m i out = (L, r)"
    and refund_open: "ok L \<Longrightarrow> \<not> res_closed r \<Longrightarrow>
      live (fst (refund L r)) (res_user r) =
        filter (\<lambda>(rid, _). rid \<noteq> res_id r) (live L (res_user r))"
    and refund_frame: "v \<noteq> res_user r \<Longrightarrow> live (fst (refund L r)) v = live L v"
    and refund_closes: "res_closed (snd (refund L r))"
    and refund_closed: "res_closed r \<Longrightarrow> refund L r = (L, r)"
begin

text \<open>Only the first of any number of closing calls does anything.\<close>

lemma closed_calls: "res_closed r \<Longrightarrow> foldl (close_with charge refund) (L, r) ks = (L, r)"
proof (induction ks)
  case Nil
  then show ?case by simp
next
  case (Cons k ks)
  then show ?case by (cases k) (simp_all add: charge_closed refund_closed)
qed

lemma close_closes: "res_closed (snd (close_with charge refund (L, r) k))"
  by (cases k) (simp_all add: charge_closes refund_closes)

lemma only_first_counts:
  "foldl (close_with charge refund) (L, r) (k # ks) = close_with charge refund (L, r) k"
proof -
  obtain L' r' where e: "close_with charge refund (L, r) k = (L', r')" by fastforce
  then have "res_closed r'" using close_closes [of L r k] by simp
  then show ?thesis by (simp add: e closed_calls)
qed

lemma close_open:
  "ok L \<Longrightarrow> \<not> res_closed r \<Longrightarrow>
   live (fst (close_with charge refund (L, r) k)) (res_user r) =
     filter (\<lambda>(rid, _). rid \<noteq> res_id r) (live L (res_user r)) @ closing_entry (res_id r) k"
  by (cases k) (simp_all add: charge_open refund_open)

lemma close_frame:
  "v \<noteq> res_user r \<Longrightarrow> live (fst (close_with charge refund (L, r) k)) v = live L v"
  by (cases k) (simp_all add: charge_frame refund_frame)

text \<open>
  A hold that was granted and then closed, by any number of calls, leaves the user's other entries
  and exactly the entry of the first closing call: the charge, or nothing.
\<close>

lemma hold_then_close:
  assumes "ok L" "rid \<notin> fst ` set (live L u)"
    and "hold now rid L u a cap = (Inr r, L1)"
    and "foldl (close_with charge refund) (L1, r) (k # ks) = (L2, r2)"
  shows "\<exists>old. set old \<subseteq> set (live L u) \<and> live L2 u = old @ closing_entry rid k"
    "res_closed r2" "v \<noteq> u \<Longrightarrow> live L2 v = live L v"
proof -
  have r: "res_id r = rid" "res_user r = u" "\<not> res_closed r"
    using hold_granted [OF assms(3)] by auto
  obtain old where old: "set old \<subseteq> set (live L u)" "live L1 u = old @ [(rid, a)]"
    using hold_granted [OF assms(3)] by auto
  have ok1: "ok L1" using ok_hold [OF assms(1,2), of now a cap] assms(3) by simp
  have L2: "L2 = fst (close_with charge refund (L1, r) k)" "r2 = snd (close_with charge refund (L1, r) k)"
    using assms(4) only_first_counts by simp_all
  have "filter (\<lambda>(rid', _). rid' \<noteq> rid) old = old"
    using old(1) assms(2) by (force simp: filter_id_conv)
  then have "live L2 u = old @ closing_entry rid k"
    using close_open [OF ok1 r(3), of k] by (simp add: L2 r old(2))
  with old(1) show "\<exists>old. set old \<subseteq> set (live L u) \<and> live L2 u = old @ closing_entry rid k"
    by blast
  show "res_closed r2" by (simp add: L2 close_closes)
  show "live L2 v = live L v" if "v \<noteq> u"
    using that close_frame [of v r L1 k] hold_frame [OF that, of now rid L a cap] assms(3)
    by (simp add: L2 r)
qed

end

section \<open>The in-memory ledger keeps the contract\<close>

definition live_entries :: "ledger \<Rightarrow> string \<Rightarrow> (string \<times> f64) list" where
  "live_entries L u = map (\<lambda>e. (entry_id e, entry_amount e)) (spend L u)"

lemma live_ids: "fst ` set (live_entries L u) = entry_ids L u"
  by (auto simp: live_entries_def entry_ids_def image_image)

lemma live_filter:
  "map (\<lambda>e. (entry_id e, entry_amount e)) (filter (\<lambda>e. entry_id e \<noteq> rid) es) =
   filter (\<lambda>(rid', _). rid' \<noteq> rid) (map (\<lambda>e. (entry_id e, entry_amount e)) es)"
  by (induction es) auto

lemma live_prune: "set (live_entries (prune now L u) u) \<subseteq> set (live_entries L u)"
  by (auto simp: live_entries_def spend_prune)

interpretation mem: budget_ledger wf_ledger live_entries reserve settle release
proof (unfold_locales, goal_cases)
  case (1 L rid u now a cap)
  then show ?case by (simp add: live_ids wf_reserve)
next
  case (2 L now r c m i out)
  then show ?case by (rule wf_settle)
next
  case (3 L r)
  then show ?case by (rule wf_release)
next
  case (4 now rid L u a cap r L')
  then show ?case
    using reserve_granted [OF 4] live_prune [of now L u]
    by (intro conjI exI [of _ "live_entries (prune now L u) u"]) (auto simp: live_entries_def)
next
  case (5 now rid L u a cap e L')
  then show ?case using reserve_refused [OF 5] live_prune [of now L u] by simp
next
  case (6 v u now rid L a cap)
  then show ?case by (simp add: reserve_def Let_def live_entries_def)
next
  case (7 L r now c m i out)
  then show ?case
    by (simp add: settle_open live_entries_def drop_entry_filter wf_ledger_def flip: live_filter)
next
  case (8 v r now L c m i out)
  then show ?case by (simp add: settle_def Let_def live_entries_def)
next
  case (11 L r)
  then show ?case
    by (simp add: release_open live_entries_def drop_entry_filter wf_ledger_def flip: live_filter)
next
  case (12 v r L)
  then show ?case by (simp add: release_def live_entries_def)
qed simp_all

section \<open>Properties\<close>

text \<open>
  Whatever sequence of \<open>settle\<close> and \<open>release\<close> calls follows a granted reservation, only the
  first one counts: the user is left with the entries that were live before (those the rolling
  window has not dropped) and the first call's charge, or with no entry of the reservation at all
  when that call was a release, and no other user is touched. Double settlement, a late release and
  a settlement after a release are all no-ops.
\<close>

theorem reservation_closes_exactly_once:
  assumes "wf_ledger L" and "rid \<notin> entry_ids L u"
    and "reserve now rid L u amount limit = (Inr r, L1)"
    and "foldl (close_with settle release) (L1, r) (k # ks) = (L2, r2)"
  shows "(\<exists>old. set old \<subseteq> set (live_entries L u) \<and> live_entries L2 u = old @ closing_entry rid k) \<and>
    res_closed r2 \<and> (v \<noteq> u \<longrightarrow> live_entries L2 v = live_entries L v)"
proof -
  have "rid \<notin> fst ` set (live_entries L u)" using assms(2) by (simp add: live_ids)
  from mem.hold_then_close [OF assms(1) this assms(3,4)] show ?thesis by blast
qed

lemma prune_new_ledger [simp]: "spend (prune now new_ledger u) v = []"
  by (simp add: prune_def new_ledger_def)

lemma reserve_new_ledger_example:
  "\<exists>r L1. reserve 5 ''a'' new_ledger ''u'' (1/2) 1 = (Inr r, L1)"
proof -
  have "\<not> fadd 1 (lit 1 9) < fadd 0 (1/2)" by code_simp
  then show ?thesis
    by (simp add: reserve_def Let_def)
qed

theorem reservation_closes_exactly_once_witness:
  "\<exists>r L1 L2 r2. reserve 5 ''a'' new_ledger ''u'' (1/2) 1 = (Inr r, L1) \<and>
     foldl (close_with settle release) (L1, r) [Settle 6 (1/4) ''small'' 1 1, Release] = (L2, r2) \<and>
     live_entries L2 ''u'' = [(''a'', 1/4)]"
proof -
  obtain r L1 where r: "reserve 5 ''a'' new_ledger ''u'' (1/2) 1 = (Inr r, L1)"
    using reserve_new_ledger_example by blast
  obtain L2 r2 where l: "foldl (close_with settle release) (L1, r)
      [Settle 6 (1/4) ''small'' 1 1, Release] = (L2, r2)"
    by fastforce
  have "''a'' \<notin> entry_ids new_ledger ''u''" "live_entries new_ledger ''u'' = []"
    by (simp_all add: entry_ids_def live_entries_def new_ledger_def)
  from reservation_closes_exactly_once [OF wf_new_ledger this(1) r l, of "''v''"] this(2) r l
  show ?thesis by auto
qed

text \<open>A history of one user's budget: holds, settlements, refunds and looks, at arbitrary clock readings.\<close>

datatype budget_event =
    Hold f64 string f64
  | Charge f64 reservation f64 string int int
  | Refund reservation
  | Look f64

fun budget_step :: "string \<Rightarrow> f64 \<Rightarrow> ledger \<Rightarrow> budget_event \<Rightarrow> ledger" where
  "budget_step u limit L (Hold now rid amount) = snd (reserve now rid L u amount limit)"
| "budget_step u limit L (Charge now r c m i out) = fst (settle now L r c m i out)"
| "budget_step u limit L (Refund r) = fst (release L r)"
| "budget_step u limit L (Look now) = snd (spent now L u)"

fun event_nonneg :: "budget_event \<Rightarrow> bool" where
  "event_nonneg (Hold _ _ amount) = (0 \<le> amount)"
| "event_nonneg (Charge _ _ c _ _ _) = (0 \<le> c)"
| "event_nonneg _ = True"

text \<open>What a settlement charges beyond the hold it finds: everything, when the window has dropped the hold.\<close>

definition held :: "string \<Rightarrow> entry list \<Rightarrow> f64" where
  "held rid es = (case List.find (\<lambda>e. entry_id e = rid) es of None \<Rightarrow> 0 | Some e \<Rightarrow> entry_amount e)"

fun overcharge :: "string \<Rightarrow> ledger \<Rightarrow> budget_event \<Rightarrow> rat" where
  "overcharge u L (Charge now r c m i out) =
     (if res_closed r \<or> res_user r \<noteq> u then 0 else max 0 (c - held (res_id r) (spend L u)))"
| "overcharge u L _ = 0"

fun overcharged :: "string \<Rightarrow> f64 \<Rightarrow> ledger \<Rightarrow> budget_event list \<Rightarrow> rat" where
  "overcharged u limit L [] = 0"
| "overcharged u limit L (ev # evs) = overcharge u L ev + overcharged u limit (budget_step u limit L ev) evs"

definition exact_total :: "entry list \<Rightarrow> rat" where
  "exact_total es = sum_list (map entry_amount es)"

abbreviation nonneg_entries :: "entry list \<Rightarrow> bool" where
  "nonneg_entries es \<equiv> \<forall>e \<in> set es. 0 \<le> entry_amount e"

lemma exact_total_simps [simp]:
  "exact_total [] = 0" "exact_total (es @ [e]) = exact_total es + entry_amount e"
  by (simp_all add: exact_total_def)

lemma exact_total_nonneg: "nonneg_entries es \<Longrightarrow> 0 \<le> exact_total es"
  unfolding exact_total_def by (intro sum_list_nonneg) auto

lemma exact_total_filter: "nonneg_entries es \<Longrightarrow> exact_total (filter P es) \<le> exact_total es"
  by (induction es) (auto simp: exact_total_def)

lemma exact_total_drop: "exact_total (drop_entry rid es) = exact_total es - held rid es"
  by (induction es) (auto simp: exact_total_def held_def)

lemma held_nonneg: "nonneg_entries es \<Longrightarrow> 0 \<le> held rid es"
  by (cases "List.find (\<lambda>e. entry_id e = rid) es") (simp_all add: held_def find_SomeD)

lemma drop_entry_subset: "set (drop_entry rid es) \<subseteq> set es" "length (drop_entry rid es) \<le> length es"
  by (induction es) auto

lemma subseq_drop_entry: "subseq (drop_entry rid es) es"
  by (induction es) auto

lemma overcharge_nonneg: "0 \<le> overcharge u L ev"
  by (cases ev) simp_all

text \<open>The invariant: after \<open>n\<close> events, of which settlements charged \<open>over\<close> beyond their holds.\<close>

definition within_budget :: "string \<Rightarrow> f64 \<Rightarrow> nat \<Rightarrow> rat \<Rightarrow> ledger \<Rightarrow> bool" where
  "within_budget u limit n over L \<longleftrightarrow> nonneg_entries (spend L u) \<and> length (spend L u) \<le> n \<and>
     exact_total (spend L u) * (1 - unit_roundoff) ^ (n + 1) \<le> fadd limit (lit 1 9) + over + of_nat (n + 1) * tiny"

lemma within_budget_change:
  assumes "within_budget u limit n over L" "nonneg_entries (spend L' u)" "length (spend L' u) \<le> Suc n"
    and "exact_total (spend L' u) \<le> exact_total (spend L u) + more_over" "0 \<le> more_over"
  shows "within_budget u limit (Suc n) (over + more_over) L'"
  using assms bound_step [OF exact_total_nonneg assms(4,5)] unfolding within_budget_def by blast

lemma within_budget_fewer:
  assumes "within_budget u limit n over L" "set (spend L' u) \<subseteq> set (spend L u)" "length (spend L' u) \<le> length (spend L u)"
    and "exact_total (spend L' u) \<le> exact_total (spend L u)"
  shows "within_budget u limit (Suc n) over L'"
  using within_budget_change [of u limit n over L L' 0] assms unfolding within_budget_def by auto

lemma within_budget_prune:
  assumes "within_budget u limit n over L"
  shows "within_budget u limit (Suc n) over (prune now L u)"
  using assms exact_total_filter
  by (intro within_budget_fewer [OF assms]) (auto simp: spend_prune within_budget_def intro: length_filter_le)

lemma within_budget_step:
  assumes w: "within_budget u limit n over L" and e: "event_nonneg ev" and o: "0 \<le> over"
  shows "within_budget u limit (Suc n) (over + overcharge u L ev) (budget_step u limit L ev)"
proof (cases ev)
  case (Hold now rid amount)
  let ?es = "spend (prune now L u) u"
  show ?thesis
  proof (cases "reserve now rid L u amount limit")
    case (Pair res L')
    show ?thesis
    proof (cases res)
      case (Inl x)
      with Pair Hold within_budget_prune [OF w] show ?thesis
        using reserve_refused [of now rid L u amount limit x L'] by simp
    next
      case (Inr r)
      with Pair have g: "reserve now rid L u amount limit = (Inr r, L')" by simp
      have es: "nonneg_entries ?es" "length ?es \<le> n"
        using w unfolding within_budget_def spend_prune by (auto intro: order_trans [OF length_filter_le])
      have a: "0 \<le> amount" using e Hold by simp
      have "(sum_list (map entry_amount ?es) + amount) * (1 - unit_roundoff) ^ (Suc n + 1)
          \<le> fadd limit (lit 1 9) + of_nat (Suc n + 1) * tiny"
        using es a reserve_granted(3) [OF g] by (intro sum_then_add) (auto simp: total_def)
      with es a o show ?thesis
        by (auto simp: Hold g reserve_granted(2) [OF g] within_budget_def exact_total_def)
    qed
  qed
next
  case (Charge now r c m i out)
  show ?thesis
  proof (cases "res_closed r \<or> res_user r \<noteq> u")
    case True
    then have "spend (budget_step u limit L ev) u = spend L u" by (auto simp: Charge settle_def Let_def)
    with True show ?thesis using within_budget_fewer [OF w, of "budget_step u limit L ev"] by (simp add: Charge)
  next
    case False
    let ?rest = "drop_entry (res_id r) (spend L u)"
    have s: "spend (budget_step u limit L ev) u = ?rest @ [(now, c, res_id r)]"
      using False by (simp add: Charge settle_open)
    show ?thesis
    proof (rule within_budget_change [OF w _ _ _ overcharge_nonneg])
      show "nonneg_entries (spend (budget_step u limit L ev) u)"
        using w e drop_entry_subset(1) [of "res_id r" "spend L u"] unfolding s within_budget_def by (auto simp: Charge)
      show "length (spend (budget_step u limit L ev) u) \<le> Suc n"
        using w drop_entry_subset(2) [of "res_id r" "spend L u"] unfolding s within_budget_def by simp
      show "exact_total (spend (budget_step u limit L ev) u) \<le> exact_total (spend L u) + overcharge u L ev"
        unfolding s using False by (simp add: exact_total_drop Charge)
    qed
  qed
next
  case (Refund r)
  have n: "nonneg_entries (spend L u)" using w by (simp add: within_budget_def)
  have "within_budget u limit (Suc n) over (fst (release L r))"
    by (rule within_budget_fewer [OF w])
      (use drop_entry_subset [of "res_id r" "spend L u"] held_nonneg [OF n, of "res_id r"]
        in \<open>auto simp: release_def exact_total_drop\<close>)
  then show ?thesis by (simp add: Refund)
next
  case (Look now)
  with within_budget_prune [OF w] show ?thesis by (simp add: spent_def Let_def)
qed

lemma overcharged_nonneg: "0 \<le> overcharged u limit L evs"
  by (induction evs arbitrary: L) (auto intro: add_nonneg_nonneg overcharge_nonneg)

lemma within_budget_run:
  "within_budget u limit n over L \<Longrightarrow> \<forall>ev \<in> set evs. event_nonneg ev \<Longrightarrow> 0 \<le> over \<Longrightarrow>
   within_budget u limit (n + length evs) (over + overcharged u limit L evs) (foldl (budget_step u limit) L evs)"
proof (induction evs arbitrary: n over L)
  case (Cons ev evs)
  have "within_budget u limit (Suc n) (over + overcharge u L ev) (budget_step u limit L ev)"
    using within_budget_step [OF Cons.prems(1)] Cons.prems(2,3) by simp
  from Cons.IH [OF this] Cons.prems(2,3) overcharge_nonneg [of u L ev] show ?case by (simp add: add.assoc)
qed simp

text \<open>
  C4. The budget is never over-committed: from an empty ledger, after any interleaving of reservations with the
  same limit, settlements, refunds and reads, at any clock readings, the exact sum of what the user holds and
  was charged is at most the limit with its one-nano-dollar tolerance, and what settlements charged beyond the
  holds they found (all of it, for a hold the window had dropped), up to one rounding of the sum per event. So
  settlements at no more than a hold that is still there never exceed the limit.
\<close>

theorem holds_never_exceed_limit:
  assumes "\<forall>ev \<in> set evs. event_nonneg ev" and "0 \<le> limit"
  shows "exact_total (spend (foldl (budget_step u limit) new_ledger evs) u) * (1 - unit_roundoff) ^ (length evs + 1)
    \<le> fadd limit (lit 1 9) + overcharged u limit new_ledger evs + of_nat (length evs + 1) * tiny"
proof -
  have "within_budget u limit 0 0 new_ledger"
    using assms(2) roundoff_bounds(3) by (simp add: within_budget_def new_ledger_def fadd_nonneg lit_nonneg)
  from within_budget_run [OF this assms(1)] show ?thesis by (simp add: within_budget_def)
qed

text \<open>A hold that is settled at half its amount, and a second one.\<close>

theorem holds_never_exceed_limit_witness:
  "let evs = [Hold 0 ''a'' (1/2), Charge 1 \<lparr>res_user = ''u'', res_amount = 1/2, res_created_at = 0, res_id = ''a'',
       res_closed = False\<rparr> (1/4) ''small'' 1 1, Hold 2 ''b'' (1/2)]
   in overcharged ''u'' 1 new_ledger evs = 0 \<and> exact_total (spend (foldl (budget_step ''u'' 1) new_ledger evs) ''u'') = 3/4 \<and>
     3/4 * (1 - unit_roundoff) ^ 4 \<le> fadd 1 (lit 1 9) + 4 * tiny"
proof -
  define evs where "evs = [Hold 0 ''a'' (1/2), Charge 1 \<lparr>res_user = ''u'', res_amount = 1/2, res_created_at = 0,
    res_id = ''a'', res_closed = False\<rparr> (1/4) ''small'' 1 1, Hold 2 ''b'' (1/2)]"
  have o: "overcharged ''u'' 1 new_ledger evs = 0" "exact_total (spend (foldl (budget_step ''u'' 1) new_ledger evs) ''u'') = 3/4"
    unfolding evs_def by code_simp+
  have n: "length evs + 1 = 4" "\<forall>ev \<in> set evs. event_nonneg ev" by (simp_all add: evs_def)
  from holds_never_exceed_limit [OF n(2) zero_le_one, of "''u''"]
  have "3/4 * (1 - unit_roundoff) ^ 4 \<le> fadd 1 (lit 1 9) + 4 * tiny" unfolding o n(1) by simp
  with o show ?thesis unfolding Let_def evs_def [symmetric] by blast
qed

text \<open>
  A refused reservation leaves no trace beyond the pruning of expired entries and is refused
  for a reason: what is live and the requested amount really add up to more than the limit and the
  tolerance; the error reports exactly these values.
\<close>

theorem refused_reservation_leaves_no_hold:
  assumes "reserve now rid L u amount limit = (Inl e, L')"
  shows "L' = prune now L u \<and>
    e = UserBudgetExceededError u (fst (spent now L u)) limit amount \<and>
    fadd limit (lit 1 9) < fadd (fst (spent now L u)) amount \<and>
    fst (spent now L' u) = fst (spent now L u)"
  using reserve_refused [OF assms] by (simp add: spent_def Let_def prune_idem)

theorem refused_reservation_leaves_no_hold_witness:
  "\<exists>e L'. reserve 5 ''a'' new_ledger ''u'' 2 1 = (Inl e, L') \<and> fst (spent 5 L' ''u'') = 0"
proof -
  have "fadd 1 (lit 1 9) < fadd 0 2" by code_simp
  then have r: "reserve 5 ''a'' new_ledger ''u'' 2 1 =
      (Inl (UserBudgetExceededError ''u'' 0 1 2), prune 5 new_ledger ''u'')"
    by (simp add: reserve_def Let_def prune_new_ledger)
  have "fst (spent 5 new_ledger ''u'') = 0" by (simp add: spent_def Let_def prune_new_ledger)
  with refused_reservation_leaves_no_hold [OF r] r show ?thesis by auto
qed

lemma summary_snoc:
  "map_of (foldl add_cost out (rs @ [r])) u =
     (if u = rec_user r
      then Some (fadd (case map_of (foldl add_cost out rs) u of None \<Rightarrow> 0 | Some c \<Rightarrow> c) (rec_cost r))
      else map_of (foldl add_cost out rs) u)"
  by (simp add: add_cost_def)

text \<open>
  The usage summary counts settlements and nothing else: settling an open reservation adds the
  actual cost to its user's figure, releasing, reserving and reading change no figure.
\<close>

theorem summary_counts_settlements:
  "map_of (summary (fst (settle now L r c m i out))) u =
     (if u = res_user r \<and> \<not> res_closed r
      then Some (fadd (case map_of (summary L) u of None \<Rightarrow> 0 | Some s \<Rightarrow> s) c)
      else map_of (summary L) u) \<and>
   summary (fst (release L r)) = summary L \<and>
   summary (snd (reserve now rid L v a cap)) = summary L \<and>
   summary (snd (spent now L v)) = summary L"
proof -
  have "map_of (summary (fst (settle now L r c m i out))) u =
     (if u = res_user r \<and> \<not> res_closed r
      then Some (fadd (case map_of (summary L) u of None \<Rightarrow> 0 | Some s \<Rightarrow> s) c)
      else map_of (summary L) u)"
    by (cases "res_closed r") (simp_all add: summary_def settle_open(2) summary_snoc del: foldl_append)
  then show ?thesis
    by (simp add: summary_def release_def reserve_def spent_def Let_def)
qed

end
