(* ===== verification/Breaker.thy ===== *)
theory Breaker
  imports Errors
begin

text \<open>
  \<open>app/breaker.py\<close>: the circuit breaker of one backend and the registry of breakers by name. A
  method that reads the clock takes the reading as an argument, one argument per reading, and a
  method that mutates the breaker returns it. The registry holds the breakers themselves, so a
  caller that has obtained a breaker and changed it is a write back into the registry
  (\<open>put_breaker\<close>).

  The relation \<open>diagram\<close> is the state diagram of the module's docstring and nothing else, over states of its own; the
  methods are compared with it, and the locale \<open>circuit\<close> is what a caller relies on.
\<close>

section \<open>State\<close>

datatype breaker_state = CLOSED | OPEN | HALF_OPEN

record breaker =
  breaker_name :: string
  failure_threshold :: int
  recovery_timeout_s :: f64
  breaker_state :: breaker_state
  consecutive_failures :: int
  opened_at :: f64
  probe_taken :: bool

definition new_breaker :: "string \<Rightarrow> int \<Rightarrow> f64 \<Rightarrow> breaker" where
  "new_breaker n threshold timeout =
     \<lparr>breaker_name = n, failure_threshold = threshold, recovery_timeout_s = timeout,
      breaker_state = CLOSED, consecutive_failures = 0, opened_at = 0, probe_taken = False\<rparr>"

section \<open>Methods\<close>

definition allows :: "f64 \<Rightarrow> breaker \<Rightarrow> bool \<times> breaker" where
  "allows now b =
     (case breaker_state b of
        CLOSED \<Rightarrow> (True, b)
      | OPEN \<Rightarrow>
          if recovery_timeout_s b \<le> fsub now (opened_at b)
          then (True, b\<lparr>breaker_state := HALF_OPEN, probe_taken := True\<rparr>)
          else (False, b)
      | HALF_OPEN \<Rightarrow>
          if \<not> probe_taken b then (True, b\<lparr>probe_taken := True\<rparr>) else (False, b))"

definition retry_after_s :: "f64 \<Rightarrow> breaker \<Rightarrow> f64" where
  "retry_after_s now b =
     (if breaker_state b = CLOSED then 0
      else max 0 (fsub (recovery_timeout_s b) (fsub now (opened_at b))))"

definition check :: "f64 \<Rightarrow> f64 \<Rightarrow> breaker \<Rightarrow> (exc, unit) result \<times> breaker" where
  "check now now' b =
     (case allows now b of
        (True, b') \<Rightarrow> (Inr (), b')
      | (False, b') \<Rightarrow> (Inl (CircuitOpenError (breaker_name b') (retry_after_s now' b')), b'))"

definition record_success :: "breaker \<Rightarrow> breaker" where
  "record_success b = b\<lparr>breaker_state := CLOSED, consecutive_failures := 0, probe_taken := False\<rparr>"

definition trip :: "f64 \<Rightarrow> breaker \<Rightarrow> breaker" where
  "trip now b = b\<lparr>breaker_state := OPEN, opened_at := now, probe_taken := False\<rparr>"

definition record_failure :: "f64 \<Rightarrow> breaker \<Rightarrow> breaker" where
  "record_failure now b =
     (let b = b\<lparr>consecutive_failures := consecutive_failures b + 1\<rparr> in
      if breaker_state b = HALF_OPEN then trip now b
      else if failure_threshold b \<le> consecutive_failures b then trip now b
      else b)"

section \<open>The registry\<close>

record breaker_registry =
  reg_failure_threshold :: int
  reg_recovery_timeout_s :: f64
  reg_breakers :: "(string \<times> breaker) list"

definition new_registry :: "int \<Rightarrow> f64 \<Rightarrow> breaker_registry" where
  "new_registry threshold timeout =
     \<lparr>reg_failure_threshold = threshold, reg_recovery_timeout_s = timeout, reg_breakers = []\<rparr>"

definition get_breaker :: "breaker_registry \<Rightarrow> string \<Rightarrow> breaker \<times> breaker_registry" where
  "get_breaker R n =
     (case map_of (reg_breakers R) n of
        Some b \<Rightarrow> (b, R)
      | None \<Rightarrow>
          let b = new_breaker n (reg_failure_threshold R) (reg_recovery_timeout_s R)
          in (b, R\<lparr>reg_breakers := dict_set n b (reg_breakers R)\<rparr>))"

definition put_breaker :: "breaker_registry \<Rightarrow> string \<Rightarrow> breaker \<Rightarrow> breaker_registry" where
  "put_breaker R n b = R\<lparr>reg_breakers := dict_set n b (reg_breakers R)\<rparr>"

definition states :: "breaker_registry \<Rightarrow> (string \<times> breaker_state) list" where
  "states R = map (\<lambda>(n, b). (n, breaker_state b)) (reg_breakers R)"

definition open_backends :: "breaker_registry \<Rightarrow> string list" where
  "open_backends R = map fst (filter (\<lambda>(_, b). breaker_state b = OPEN) (reg_breakers R))"

section \<open>The state diagram\<close>

lemmas breaker_defs [breaker_simps] =
  allows_def retry_after_s_def record_success_def record_failure_def trip_def Let_def

text \<open>
  The circuit as the docstring draws it: closed with the failures counted so far, open since a time, or half open with
  one call out as the probe. An event is a call that asks and is admitted or refused, or the outcome of a call. The
  diagram has the edges of the drawing only: it does not say what an outcome does to an open circuit, nor what the
  outcome of another call than the probe does to a half-open one.
\<close>

datatype circuit = Closed int | Open f64 | HalfOpen nat

datatype call_event = Ask nat f64 bool | Succeed nat | Fail nat f64

inductive diagram :: "int \<Rightarrow> f64 \<Rightarrow> circuit \<Rightarrow> call_event \<Rightarrow> circuit \<Rightarrow> bool" for k t where
  closed_admits: "diagram k t (Closed n) (Ask i now True) (Closed n)"
| closed_success: "diagram k t (Closed n) (Succeed i) (Closed 0)"
| closed_failure: "n + 1 < k \<Longrightarrow> diagram k t (Closed n) (Fail i now) (Closed (n + 1))"
| threshold_reached: "k \<le> n + 1 \<Longrightarrow> diagram k t (Closed n) (Fail i now) (Open now)"
| open_refuses: "fsub now since < t \<Longrightarrow> diagram k t (Open since) (Ask i now False) (Open since)"
| open_probes: "t \<le> fsub now since \<Longrightarrow> diagram k t (Open since) (Ask i now True) (HalfOpen i)"
| half_open_refuses: "diagram k t (HalfOpen p) (Ask i now False) (HalfOpen p)"
| probe_succeeds: "diagram k t (HalfOpen p) (Succeed p) (Closed 0)"
| probe_fails: "diagram k t (HalfOpen p) (Fail p now) (Open now)"

inductive_simps diagram_simps:
  "diagram k t c (Ask i now r) c'" "diagram k t c (Succeed i) c'" "diagram k t c (Fail i now) c'"

text \<open>
  What the methods do on an event, beside the call that was last let through an open circuit. The methods do not ask
  whose outcome they are given.
\<close>

fun on_call :: "breaker \<times> nat \<Rightarrow> call_event \<Rightarrow> breaker \<times> nat" where
  "on_call (b, p) (Ask i now r) = (snd (allows now b), if breaker_state b = OPEN \<and> fst (allows now b) then i else p)"
| "on_call (b, p) (Succeed i) = (record_success b, p)"
| "on_call (b, p) (Fail i now) = (record_failure now b, p)"

fun answered :: "breaker \<Rightarrow> call_event \<Rightarrow> bool" where
  "answered b (Ask i now r) = (fst (allows now b) = r)"
| "answered b _ = True"

definition circuit_of :: "breaker \<times> nat \<Rightarrow> circuit" where
  "circuit_of bp = (case breaker_state (fst bp) of CLOSED \<Rightarrow> Closed (consecutive_failures (fst bp))
     | OPEN \<Rightarrow> Open (opened_at (fst bp)) | HALF_OPEN \<Rightarrow> HalfOpen (snd bp))"

text \<open>A late outcome: of any call while the circuit is open, of another call than the probe while it is half open.\<close>

fun late :: "circuit \<Rightarrow> call_event \<Rightarrow> bool" where
  "late (Open t) (Succeed i) = True"
| "late (Open t) (Fail i now) = True"
| "late (HalfOpen p) (Succeed i) = (i \<noteq> p)"
| "late (HalfOpen p) (Fail i now) = (i \<noteq> p)"
| "late _ _ = False"

section \<open>Invariant\<close>

definition wf_breaker :: "breaker \<Rightarrow> bool" where
  "wf_breaker b \<longleftrightarrow>
     0 \<le> consecutive_failures b \<and> (probe_taken b \<longleftrightarrow> breaker_state b = HALF_OPEN) \<and>
     (breaker_state b = CLOSED \<longrightarrow> consecutive_failures b < max 1 (failure_threshold b)) \<and>
     (breaker_state b \<noteq> CLOSED \<longrightarrow> failure_threshold b \<le> consecutive_failures b)"

lemma wf_new_breaker: "wf_breaker (new_breaker n k t)"
  by (simp add: wf_breaker_def new_breaker_def)

lemma on_call_wf: "wf_breaker (fst bp) \<Longrightarrow> wf_breaker (fst (on_call bp ev))"
  by (cases bp; cases ev; cases "breaker_state (fst bp)") (auto simp: wf_breaker_def breaker_simps)

lemma on_call_frame:
  "failure_threshold (fst (on_call bp ev)) = failure_threshold (fst bp) \<and>
   recovery_timeout_s (fst (on_call bp ev)) = recovery_timeout_s (fst bp)"
  by (cases bp; cases ev; cases "breaker_state (fst bp)") (auto simp: breaker_simps)

lemma history_wf:
  "wf_breaker (fst (foldl on_call (new_breaker n k t, p) evs)) \<and>
   failure_threshold (fst (foldl on_call (new_breaker n k t, p) evs)) = k \<and>
   recovery_timeout_s (fst (foldl on_call (new_breaker n k t, p) evs)) = t"
  by (induction evs rule: rev_induct)
     (simp_all add: wf_new_breaker on_call_wf on_call_frame, simp_all add: new_breaker_def)

text \<open>A step that is no late outcome is an edge of the diagram, and a late outcome is none.\<close>

lemma diagram_step:
  assumes "wf_breaker (fst bp)" "\<not> late (circuit_of bp) ev"
  shows "diagram (failure_threshold (fst bp)) (recovery_timeout_s (fst bp)) (circuit_of bp) ev c' \<longleftrightarrow>
    answered (fst bp) ev \<and> c' = circuit_of (on_call bp ev)"
  using assms
  by (cases bp; cases ev; cases "breaker_state (fst bp)")
     (auto simp: diagram_simps circuit_of_def breaker_simps wf_breaker_def)

lemma late_step:
  assumes "wf_breaker (fst bp)" "late (circuit_of bp) ev"
  shows "\<not> diagram k t (circuit_of bp) ev c'"
    and "circuit_of (on_call bp ev) = (case ev of Fail i now \<Rightarrow> Open now | _ \<Rightarrow> Closed 0)"
  using assms
  by (cases bp; cases ev; cases "breaker_state (fst bp)";
      auto simp: diagram_simps circuit_of_def breaker_simps wf_breaker_def)+

section \<open>What a caller relies on\<close>

text \<open>A sequence of questions, at the given clock readings, with no report in between.\<close>

fun ask_all :: "(f64 \<Rightarrow> 'b \<Rightarrow> bool \<times> 'b) \<Rightarrow> f64 list \<Rightarrow> 'b \<Rightarrow> bool list \<times> 'b" where
  "ask_all ask [] b = ([], b)"
| "ask_all ask (now # nows) b =
     (case ask now b of (r, b1) \<Rightarrow> case ask_all ask nows b1 of (rs, b2) \<Rightarrow> (r # rs, b2))"

locale circuit =
  fixes ask :: "f64 \<Rightarrow> 'b \<Rightarrow> bool \<times> 'b"
    and good :: "'b \<Rightarrow> 'b"
    and bad :: "f64 \<Rightarrow> 'b \<Rightarrow> 'b"
    and probing :: "'b \<Rightarrow> bool"
    and tripped :: "'b \<Rightarrow> bool"
    and closed :: "'b \<Rightarrow> bool"
  assumes closed_ask: "closed b \<Longrightarrow> ask now b = (True, b)"
    and probing_ask: "probing b \<Longrightarrow> ask now b = (False, b)"
    and tripped_ask: "tripped b \<Longrightarrow> fst (ask now b) \<Longrightarrow> probing (snd (ask now b))"
    and tripped_refuse: "tripped b \<Longrightarrow> \<not> fst (ask now b) \<Longrightarrow> snd (ask now b) = b"
    and good_closes: "closed (good b)"
    and bad_probe: "probing b \<Longrightarrow> tripped (bad now b)"
begin

lemma probing_refuses_all: "probing b \<Longrightarrow> ask_all ask nows b = (replicate (length nows) False, b)"
  by (induction nows) (simp_all add: probing_ask)

lemma closed_admits_all: "closed b \<Longrightarrow> ask_all ask nows b = (replicate (length nows) True, b)"
  by (induction nows) (simp_all add: closed_ask)

text \<open>Between two reports a tripped circuit lets at most one caller through.\<close>

lemma at_most_one_probe:
  "tripped b \<Longrightarrow> length (filter (\<lambda>r. r) (fst (ask_all ask nows b))) \<le> 1"
proof (induction nows)
  case Nil
  then show ?case by simp
next
  case (Cons now nows)
  show ?case
  proof (cases "fst (ask now b)")
    case True
    with Cons.prems have "probing (snd (ask now b))" by (rule tripped_ask)
    with True show ?thesis
      by (simp add: case_prod_beta probing_refuses_all)
  next
    case False
    with Cons show ?thesis by (simp add: case_prod_beta tripped_refuse)
  qed
qed

end

definition probe_outstanding :: "breaker \<Rightarrow> bool" where
  "probe_outstanding b \<longleftrightarrow> breaker_state b = HALF_OPEN \<and> probe_taken b"

definition is_open :: "breaker \<Rightarrow> bool" where "is_open b \<longleftrightarrow> breaker_state b = OPEN"
definition is_closed :: "breaker \<Rightarrow> bool" where "is_closed b \<longleftrightarrow> breaker_state b = CLOSED"

interpretation cb: circuit allows record_success record_failure probe_outstanding is_open is_closed
  by unfold_locales
     (auto simp: breaker_simps probe_outstanding_def is_open_def is_closed_def
       split: breaker_state.splits if_splits)

lemma check_raises_iff:
  "(\<exists>e b'. check now now' b = (Inl e, b')) \<longleftrightarrow> \<not> fst (allows now b)"
  by (auto simp: check_def case_prod_beta split: bool.splits)

section \<open>Properties\<close>

text \<open>
  C28. The methods follow the documented state diagram except on late outcomes. After any history of a fresh breaker:
  on an event that is no late outcome the methods do exactly what the diagram says, with the answer it says, and
  nothing where it says nothing. A late outcome (of a call that was let through before the circuit opened, and is not the
  probe) has no edge in the diagram: the methods take a success as the proof that the circuit can close, even
  without a probe, and a failure as a reason to open it again from that time.
\<close>

theorem methods_refine_state_diagram:
  "let bp = foldl on_call (new_breaker n k t, 0) evs in
   if late (circuit_of bp) ev
   then (\<nexists>c'. diagram k t (circuit_of bp) ev c') \<and>
     circuit_of (on_call bp ev) = (case ev of Fail i now \<Rightarrow> Open now | _ \<Rightarrow> Closed 0)
   else \<forall>c'. diagram k t (circuit_of bp) ev c' \<longleftrightarrow> answered (fst bp) ev \<and> c' = circuit_of (on_call bp ev)"
proof -
  define bp where "bp = foldl on_call (new_breaker n k t, 0) evs"
  have wf: "wf_breaker (fst bp)" and k: "failure_threshold (fst bp) = k" "recovery_timeout_s (fst bp) = t"
    using history_wf [of n k t 0 evs] by (simp_all add: bp_def)
  then show ?thesis
    unfolding bp_def [symmetric] Let_def using diagram_step [OF wf, of ev] late_step(1) [OF wf, of ev k t] late_step(2) [OF wf, of ev] by simp
qed

text \<open>Two calls are out when the first one's failure opens the circuit; the success of the other closes it.\<close>

theorem methods_refine_state_diagram_witness:
  "circuit_of (foldl on_call (new_breaker ''small'' 1 30, 0) [Ask 0 0 True, Ask 1 1 True, Fail 0 2]) = Open 2 \<and>
   (\<nexists>c'. diagram 1 30 (Open 2) (Succeed 1) c') \<and>
   circuit_of (foldl on_call (new_breaker ''small'' 1 30, 0)
     [Ask 0 0 True, Ask 1 1 True, Fail 0 2, Succeed 1]) = Closed 0"
proof -
  let ?bp = "foldl on_call (new_breaker ''small'' 1 30, 0) [Ask 0 0 True, Ask 1 1 True, Fail 0 2]"
  have c: "circuit_of ?bp = Open 2" by (simp add: circuit_of_def breaker_simps new_breaker_def)
  have "late (circuit_of ?bp) (Succeed 1)" unfolding c by simp
  with methods_refine_state_diagram [of "''small''" 1 30 "[Ask 0 0 True, Ask 1 1 True, Fail 0 2]" "Succeed 1"]
  have "(\<nexists>c'. diagram 1 30 (circuit_of ?bp) (Succeed 1) c') \<and> circuit_of (on_call ?bp (Succeed 1)) = Closed 0"
    by (simp only: Let_def if_True call_event.case) blast
  moreover have "foldl on_call (new_breaker ''small'' 1 30, 0) [Ask 0 0 True, Ask 1 1 True, Fail 0 2, Succeed 1] =
      on_call ?bp (Succeed 1)" by simp
  ultimately show ?thesis unfolding c by metis
qed

text \<open>
  In every history of a fresh breaker the failure count is not negative and is below the
  threshold (at least one) exactly while the circuit is closed, and a probe is outstanding exactly in
  HALF_OPEN; the threshold and timeout never change.
\<close>

theorem breaker_invariant:
  "wf_breaker (fst (foldl on_call (new_breaker n k t, p) evs)) \<and>
   failure_threshold (fst (foldl on_call (new_breaker n k t, p) evs)) = k \<and>
   recovery_timeout_s (fst (foldl on_call (new_breaker n k t, p) evs)) = t"
  by (rule history_wf)

text \<open>
  Exactly one probe: once the recovery time of an open circuit has passed, the first caller to
  ask is let through and every later one is refused, whenever they ask, until the probe reports.
\<close>

theorem exactly_one_probe:
  assumes "breaker_state b = OPEN" and "recovery_timeout_s b \<le> fsub now (opened_at b)"
  shows "fst (ask_all allows (now # nows) b) = True # replicate (length nows) False"
proof -
  have "is_open b" "fst (allows now b)" using assms by (simp_all add: is_open_def allows_def)
  then have "probe_outstanding (snd (allows now b))" by (rule cb.tripped_ask)
  with \<open>fst (allows now b)\<close> show ?thesis
    by (simp add: case_prod_beta cb.probing_refuses_all)
qed

theorem exactly_one_probe_witness:
  "fst (ask_all allows [130, 130, 900]
     (trip 100 (new_breaker ''small'' 5 30))) = [True, False, False]"
proof -
  have "recovery_timeout_s (trip 100 (new_breaker ''small'' 5 30)) \<le>
      fsub 130 (opened_at (trip 100 (new_breaker ''small'' 5 30)))"
    by code_simp
  moreover have "breaker_state (trip 100 (new_breaker ''small'' 5 30)) = OPEN"
    by (simp add: trip_def)
  ultimately show ?thesis
    using exactly_one_probe [of "trip 100 (new_breaker ''small'' 5 30)" 130 "[130, 900]"]
    by (simp add: numeral_eq_Suc)
qed

lemma failures_from_fresh:
  fixes n k t ts
  defines "b \<equiv> foldl (\<lambda>b now. record_failure now b) (new_breaker n k t) ts"
  shows "consecutive_failures b = int (length ts) \<and> failure_threshold b = k \<and>
    breaker_state b = (if int (length ts) < max 1 k then CLOSED else OPEN) \<and>
    (max 1 k \<le> int (length ts) \<longrightarrow> opened_at b = last ts)"
  unfolding b_def
proof (induction ts rule: rev_induct)
  case Nil
  then show ?case by (simp add: new_breaker_def)
next
  case (snoc x xs)
  then show ?case by (auto simp: record_failure_def trip_def Let_def)
qed

text \<open>
  The circuit opens at the threshold and not before: after any number of consecutive failures a
  fresh breaker is closed while there are fewer failures than the threshold (or than one), and open
  from then on, with the time of the last failure.
\<close>

theorem opens_at_threshold:
  "breaker_state (foldl (\<lambda>b now. record_failure now b) (new_breaker n k t) ts) =
     (if int (length ts) < max 1 k then CLOSED else OPEN) \<and>
   (max 1 k \<le> int (length ts) \<longrightarrow>
      opened_at (foldl (\<lambda>b now. record_failure now b) (new_breaker n k t) ts) = last ts)"
  using failures_from_fresh [of n k t ts] by blast

theorem opens_at_threshold_witness:
  "breaker_state (foldl (\<lambda>b now. record_failure now b) (new_breaker ''m'' 2 30) [1, 2]) = OPEN \<and>
   opened_at (foldl (\<lambda>b now. record_failure now b) (new_breaker ''m'' 2 30) [1, 2]) = 2"
  using opens_at_threshold [of "''m''" 2 30 "[1, 2]"] by simp

text \<open>
  A probe that never reports blocks its backend for good: in HALF_OPEN with the probe taken,
  every later question is refused, however much time has passed, and the breaker does not change.
\<close>

theorem unreported_probe_blocks_forever:
  assumes "breaker_state b = HALF_OPEN" and "probe_taken b"
  shows "ask_all allows nows b = (replicate (length nows) False, b)"
proof -
  have "probe_outstanding b" using assms by (simp add: probe_outstanding_def)
  then show ?thesis by (rule cb.probing_refuses_all)
qed

theorem unreported_probe_blocks_forever_witness:
  "fst (ask_all allows [10 ^ 9, 10 ^ 12] (snd (allows 130 (trip 100 (new_breaker ''small'' 5 30))))) =
     [False, False]"
proof -
  have "recovery_timeout_s (trip 100 (new_breaker ''small'' 5 30)) \<le>
      fsub 130 (opened_at (trip 100 (new_breaker ''small'' 5 30)))"
    by code_simp
  then have "breaker_state (snd (allows 130 (trip 100 (new_breaker ''small'' 5 30)))) = HALF_OPEN"
    "probe_taken (snd (allows 130 (trip 100 (new_breaker ''small'' 5 30))))"
    by (simp_all add: allows_def trip_def)
  from unreported_probe_blocks_forever [OF this, of "[10 ^ 9, 10 ^ 12]"] show ?thesis
    by (simp add: numeral_eq_Suc)
qed

definition wf_registry :: "breaker_registry \<Rightarrow> bool" where
  "wf_registry R \<longleftrightarrow> distinct (map fst (reg_breakers R))"

lemma wf_registry_get: "wf_registry R \<Longrightarrow> wf_registry (snd (get_breaker R n))"
  by (auto simp: wf_registry_def get_breaker_def distinct_dict_set Let_def split: option.splits)

lemma wf_registry_put: "wf_registry R \<Longrightarrow> wf_registry (put_breaker R n b)"
  by (simp add: wf_registry_def put_breaker_def distinct_dict_set)

lemma get_put [simp]: "fst (get_breaker (put_breaker R n b) n) = b"
  by (simp add: get_breaker_def put_breaker_def)

lemma get_put_other: "m \<noteq> n \<Longrightarrow> fst (get_breaker (put_breaker R n b) m) = fst (get_breaker R m)"
  by (simp add: get_breaker_def put_breaker_def Let_def split: option.splits)

lemma get_get: "fst (get_breaker (snd (get_breaker R n)) m) = fst (get_breaker R m)"
  by (auto simp: get_breaker_def Let_def split: option.splits)

text \<open>
  Breakers of different backends are independent: writing one back changes what the registry
  holds under its own name and under no other, and looking one up changes none.
\<close>

theorem backends_are_isolated:
  "fst (get_breaker (put_breaker R n b) m) = (if m = n then b else fst (get_breaker R m)) \<and>
   fst (get_breaker (snd (get_breaker R n)) m) = fst (get_breaker R m)"
  by (simp add: get_put_other get_get)

theorem open_backends_exact:
  assumes "wf_registry R"
  shows "n \<in> set (open_backends R) \<longleftrightarrow>
    n \<in> fst ` set (reg_breakers R) \<and> breaker_state (fst (get_breaker R n)) = OPEN"
proof -
  have d: "distinct (map fst (reg_breakers R))" using assms by (simp add: wf_registry_def)
  have "n \<in> set (open_backends R) \<longleftrightarrow> (\<exists>b. (n, b) \<in> set (reg_breakers R) \<and> breaker_state b = OPEN)"
    by (force simp: open_backends_def)
  also have "\<dots> \<longleftrightarrow> (\<exists>b. map_of (reg_breakers R) n = Some b \<and> breaker_state b = OPEN)"
    using d by (simp add: map_of_eq_Some_iff)
  also have "\<dots> \<longleftrightarrow> n \<in> fst ` set (reg_breakers R) \<and> breaker_state (fst (get_breaker R n)) = OPEN"
    by (auto simp: get_breaker_def Let_def split: option.splits
        dest: map_of_SomeD weak_map_of_SomeI) (force dest: map_of_SomeD)+
  finally show ?thesis .
qed

end
