(* ===== verification/RateLimit.thy ===== *)
theory RateLimit
  imports Errors Roundoff
begin

text \<open>
  \<open>app/ratelimit.py\<close>, the in-process token bucket: one bucket per user, refilled lazily when it is
  read. All arithmetic is that of binary64. The locale \<open>leaky_account\<close> states what one call does to
  a level that refills over time, up to a rounding slack, and derives the bound on what any sequence
  of calls can take; it is interpreted on the bucket of a user.
\<close>

section \<open>State and methods\<close>

record limiter =
  capacity :: f64
  refill_per_second :: f64
  buckets :: "string \<Rightarrow> (f64 \<times> f64) option"

definition new_limiter :: "f64 \<Rightarrow> f64 \<Rightarrow> limiter" where
  "new_limiter cap rate = \<lparr>capacity = cap, refill_per_second = rate, buckets = Map.empty\<rparr>"

definition current :: "limiter \<Rightarrow> string \<Rightarrow> f64 \<Rightarrow> f64" where
  "current l u now =
     (case (case buckets l u of None \<Rightarrow> (capacity l, now) | Some b \<Rightarrow> b) of (tokens, last_at) \<Rightarrow>
        let elapsed = max 0 (fsub now last_at)
        in min (capacity l) (fadd tokens (fmul elapsed (refill_per_second l))))"

definition check :: "f64 \<Rightarrow> limiter \<Rightarrow> string \<Rightarrow> f64 \<Rightarrow> (exc, unit) result \<times> limiter" where
  "check now l u c =
     (let available = current l u now in
      if available < c then
        (Inl (RateLimitExceededError u
           (if 0 < refill_per_second l
            then Finite (fdiv (fsub c available) (refill_per_second l)) else Infinite)),
         l\<lparr>buckets := (buckets l)(u \<mapsto> (available, now))\<rparr>)
      else (Inr (), l\<lparr>buckets := (buckets l)(u \<mapsto> (fsub available c, now))\<rparr>))"

definition tokens_remaining :: "f64 \<Rightarrow> limiter \<Rightarrow> string \<Rightarrow> f64" where
  "tokens_remaining now l u = current l u now"

definition reset :: "limiter \<Rightarrow> string \<Rightarrow> limiter" where
  "reset l u = l\<lparr>buckets := (buckets l)(u := None)\<rparr>"

definition granted :: "(exc, unit) result \<times> limiter \<Rightarrow> bool" where
  "granted r = (case fst r of Inl _ \<Rightarrow> False | Inr _ \<Rightarrow> True)"

section \<open>A level that refills\<close>

text \<open>The answers to a sequence of requests, each at its clock reading.\<close>

fun take_all :: "(f64 \<Rightarrow> 's \<Rightarrow> bool \<times> 's) \<Rightarrow> f64 list \<Rightarrow> 's \<Rightarrow> bool list \<times> 's" where
  "take_all take_one [] s = ([], s)"
| "take_all take_one (now # nows) s =
     (case take_one now s of (g, s1) \<Rightarrow> case take_all take_one nows s1 of (gs, s2) \<Rightarrow> (g # gs, s2))"

definition grants :: "bool list \<Rightarrow> rat" where
  "grants gs = of_nat (length (filter (\<lambda>g. g) gs))"

lemma grants_simps [simp]: "grants [] = 0" "grants (g # gs) = (if g then 1 else 0) + grants gs"
  by (simp_all add: grants_def)

locale leaky_account =
  fixes take_one :: "f64 \<Rightarrow> 's \<Rightarrow> bool \<times> 's"
    and ok :: "'s \<Rightarrow> bool"
    and level :: "'s \<Rightarrow> rat"
    and since :: "'s \<Rightarrow> rat"
    and price :: rat
    and rate :: rat
    and slack :: rat
  assumes take_ok: "ok s \<Longrightarrow> ok (snd (take_one now s))"
    and since_take: "ok s \<Longrightarrow> since (snd (take_one now s)) = now"
    and level_nonneg: "ok s \<Longrightarrow> 0 \<le> level s"
    and level_take: "ok s \<Longrightarrow> since s \<le> now \<Longrightarrow>
      level (snd (take_one now s)) + (if fst (take_one now s) then price else 0) \<le>
      level s + rate * (now - since s) + slack"
begin

lemma taken_bound:
  "ok s \<Longrightarrow> sorted (since s # nows) \<Longrightarrow>
   level (snd (take_all take_one nows s)) + price * grants (fst (take_all take_one nows s)) \<le>
   level s + rate * (last (since s # nows) - since s) + of_nat (length nows) * slack"
proof (induction nows arbitrary: s)
  case Nil
  then show ?case by simp
next
  case (Cons now nows)
  obtain g s1 where t: "take_one now s = (g, s1)" by fastforce
  have ok1: "ok s1" and since1: "since s1 = now"
    using take_ok [OF Cons.prems(1), of now] since_take [OF Cons.prems(1), of now] by (simp_all add: t)
  have step: "level s1 + (if g then price else 0) \<le> level s + rate * (now - since s) + slack"
    using level_take [OF Cons.prems(1), of now] Cons.prems(2) by (simp add: t)
  have rest: "level (snd (take_all take_one nows s1)) + price * grants (fst (take_all take_one nows s1)) \<le>
      level s1 + rate * (last (now # nows) - now) + of_nat (length nows) * slack"
    using Cons.IH [OF ok1] Cons.prems(2) by (simp add: since1)
  have tm: "rate * (last (now # nows) - now) + rate * (now - since s) =
      rate * (last (since s # now # nows) - since s)"
    by (simp add: algebra_simps)
  show ?case
    using step rest tm by (simp add: t case_prod_beta algebra_simps split: if_splits)
qed

lemma grants_bound:
  assumes "ok s" "sorted (since s # nows)"
  shows "price * grants (fst (take_all take_one nows s)) \<le>
    level s + rate * (last (since s # nows) - since s) + of_nat (length nows) * slack"
proof -
  have "ok (snd (take_all take_one nows s))"
    using assms(1) take_ok by (induction nows arbitrary: s) (auto simp: case_prod_beta)
  from level_nonneg [OF this] taken_bound [OF assms] show ?thesis by linarith
qed

end

section \<open>Rounding errors of one refill\<close>

lemma unit_roundoff_pos [simp]: "0 < unit_roundoff" "0 \<le> unit_roundoff" "0 \<le> 1 + unit_roundoff"
  by (simp_all add: unit_roundoff_def)

lemma tiny_pos [simp]: "0 < tiny" "0 \<le> tiny"
  by (simp_all add: tiny_def)

lemma fl64_upper: "0 \<le> x \<Longrightarrow> fl64 x \<le> x + unit_roundoff * x + tiny"
  using fl64_error [of x] by (simp add: unit_roundoff_def tiny_def abs_le_iff algebra_simps)

text \<open>The refill, as an upper bound on the level it leaves.\<close>

lemma refill_upper:
  assumes "0 \<le> tokens" "0 \<le> rate" "0 \<le> dt"
  shows "fadd tokens (fmul (fl64 dt) rate) \<le>
    tokens + rate * dt * (1 + 4 * unit_roundoff) + 2 * unit_roundoff * tokens + (2 * rate + 4) * tiny"
proof -
  let ?e = unit_roundoff
  define d where "d = fl64 dt"
  define x where "x = fl64 (d * rate)"
  have d: "d \<le> dt * (1 + ?e) + tiny" "0 \<le> d"
    using fl64_upper [OF assms(3)] fl64_nonneg [OF assms(3)] by (simp_all add: d_def algebra_simps)
  have dr: "0 \<le> d * rate" using d(2) assms(2) by simp
  have x: "x \<le> d * rate * (1 + ?e) + tiny" "0 \<le> x"
    using fl64_upper [OF dr] fl64_nonneg [OF dr] by (simp_all add: x_def algebra_simps)
  have "d * rate \<le> (dt * (1 + ?e) + tiny) * rate"
    using d(1) assms(2) by (rule mult_right_mono)
  then have "d * rate * (1 + ?e) \<le> (dt * (1 + ?e) + tiny) * rate * (1 + ?e)"
    by (rule mult_right_mono) simp
  with x(1) have x2: "x \<le> (dt * (1 + ?e) + tiny) * rate * (1 + ?e) + tiny" by linarith
  have "fadd tokens x \<le> (tokens + x) * (1 + ?e) + tiny"
    using fl64_upper [of "tokens + x"] assms(1) x(2) by (simp add: fadd_def algebra_simps)
  also have "\<dots> \<le> (tokens + ((dt * (1 + ?e) + tiny) * rate * (1 + ?e) + tiny)) * (1 + ?e) + tiny"
    using x2 by (intro add_right_mono mult_right_mono add_left_mono) auto
  also have "\<dots> = tokens * (1 + ?e) + dt * rate * (1 + ?e) ^ 3 + tiny * rate * (1 + ?e) ^ 2
      + tiny * (1 + ?e) + tiny"
    by (simp add: algebra_simps power2_eq_square power3_eq_cube)
  also have "\<dots> \<le> tokens * (1 + 2 * ?e) + dt * rate * (1 + 4 * ?e) + tiny * rate * 2 + tiny * 2 + tiny * 2"
  proof -
    have c3: "(1 + ?e) ^ 3 \<le> 1 + 4 * ?e" and c2: "(1 + ?e) ^ 2 \<le> 2" and c1: "1 + ?e \<le> 2"
      by (simp_all add: unit_roundoff_def power2_eq_square power3_eq_cube)
    have "tokens * (1 + ?e) \<le> tokens * (1 + 2 * ?e)"
      using assms(1) by (intro mult_left_mono) auto
    moreover have "dt * rate * (1 + ?e) ^ 3 \<le> dt * rate * (1 + 4 * ?e)"
      using assms(2,3) c3 by (intro mult_left_mono) auto
    moreover have "tiny * rate * (1 + ?e) ^ 2 \<le> tiny * rate * 2"
      using assms(2) c2 by (intro mult_left_mono) auto
    moreover have "tiny * (1 + ?e) \<le> tiny * 2"
      using c1 by (intro mult_left_mono) auto
    ultimately show ?thesis by (intro add_mono) auto
  qed
  also have "\<dots> = tokens + rate * dt * (1 + 4 * ?e) + 2 * ?e * tokens + (2 * rate + 4) * tiny"
    by (simp add: algebra_simps)
  finally show ?thesis by (simp add: x_def d_def fmul_def)
qed

section \<open>The bucket of a user\<close>

definition take_token :: "string \<Rightarrow> f64 \<Rightarrow> f64 \<Rightarrow> limiter \<Rightarrow> bool \<times> limiter" where
  "take_token u c now l = (granted (check now l u c), snd (check now l u c))"

definition bucket_level :: "string \<Rightarrow> limiter \<Rightarrow> rat" where
  "bucket_level u l = (case buckets l u of None \<Rightarrow> 0 | Some (t, _) \<Rightarrow> t)"

definition bucket_since :: "string \<Rightarrow> limiter \<Rightarrow> rat" where
  "bucket_since u l = (case buckets l u of None \<Rightarrow> 0 | Some (_, s) \<Rightarrow> s)"

definition bucket_ok :: "string \<Rightarrow> f64 \<Rightarrow> f64 \<Rightarrow> f64 \<Rightarrow> limiter \<Rightarrow> bool" where
  "bucket_ok u c cap rate l \<longleftrightarrow>
     0 \<le> c \<and> 0 \<le> cap \<and> fl64 cap = cap \<and> 0 \<le> rate \<and> capacity l = cap \<and> refill_per_second l = rate \<and>
     (\<exists>t s. buckets l u = Some (t, s) \<and> 0 \<le> t \<and> t \<le> cap)"

definition bucket_slack :: "f64 \<Rightarrow> f64 \<Rightarrow> rat" where
  "bucket_slack cap rate = 3 * unit_roundoff * cap + (2 * rate + 5) * tiny"

lemma bucket_slack_pos: "0 \<le> cap \<Longrightarrow> 0 \<le> rate \<Longrightarrow> 0 \<le> bucket_slack cap rate"
  by (simp add: bucket_slack_def)

lemma current_bounds:
  assumes "0 \<le> capacity l" "0 \<le> refill_per_second l"
    and "\<And>t s. buckets l u = Some (t, s) \<Longrightarrow> 0 \<le> t"
  shows "0 \<le> current l u now" "current l u now \<le> capacity l"
  using assms
  by (auto simp: current_def Let_def intro!: fadd_nonneg fmul_nonneg split: option.splits)

lemma check_frame:
  "capacity (snd (check now l u c)) = capacity l"
  "refill_per_second (snd (check now l u c)) = refill_per_second l"
  "v \<noteq> u \<Longrightarrow> buckets (snd (check now l u c)) v = buckets l v"
  by (simp_all add: check_def Let_def)

lemma check_granted [simp]: "granted (check now l u c) \<longleftrightarrow> c \<le> current l u now"
  by (auto simp: granted_def check_def Let_def)

lemma check_bucket:
  "buckets (snd (check now l u c)) u =
     Some (if c \<le> current l u now then fsub (current l u now) c else current l u now, now)"
  by (auto simp: check_def Let_def)

text \<open>What one call leaves and takes, against what was there.\<close>

lemma taken_level:
  assumes "0 \<le> a" "a \<le> cap" "0 \<le> c"
  shows "(if c \<le> a then fsub a c else a) + (if c \<le> a then c else 0) \<le> a + unit_roundoff * cap + tiny"
proof (cases "c \<le> a")
  case True
  have "fsub a c \<le> (a - c) + unit_roundoff * (a - c) + tiny"
    using fl64_upper [of "a - c"] True by (simp add: fsub_def)
  moreover have "unit_roundoff * (a - c) \<le> unit_roundoff * cap"
    using assms by (intro mult_left_mono) auto
  ultimately have "fsub a c + c \<le> a + unit_roundoff * cap + tiny" by linarith
  then show ?thesis using True by simp
next
  case False
  moreover have "0 \<le> unit_roundoff * cap" using assms by simp
  ultimately show ?thesis by (simp add: add_nonneg_nonneg)
qed

lemma refill_level:
  assumes "bucket_ok u c cap rate l" "bucket_since u l \<le> now"
  shows "current l u now \<le> bucket_level u l + rate * (1 + 4 * unit_roundoff) * (now - bucket_since u l)
    + (2 * unit_roundoff * cap + (2 * rate + 4) * tiny)"
proof -
  obtain t s where b: "buckets l u = Some (t, s)" "0 \<le> t" "t \<le> cap"
    and l: "0 \<le> rate" "0 \<le> cap" "refill_per_second l = rate"
    using assms(1) by (auto simp: bucket_ok_def)
  have s: "s \<le> now" using assms(2) by (simp add: bucket_since_def b)
  then have e: "max 0 (fsub now s) = fl64 (now - s)"
    using fsub_nonneg [OF s] by (simp add: fsub_def)
  have "current l u now \<le> fadd t (fmul (fl64 (now - s)) rate)"
    by (simp add: current_def b Let_def e l)
  also have "\<dots> \<le> t + rate * (now - s) * (1 + 4 * unit_roundoff) + 2 * unit_roundoff * t + (2 * rate + 4) * tiny"
    using s b(2) l(1) by (intro refill_upper) auto
  also have "2 * unit_roundoff * t \<le> 2 * unit_roundoff * cap"
    using b(3) by (intro mult_left_mono) auto
  finally show ?thesis by (simp add: bucket_level_def bucket_since_def b algebra_simps)
qed

interpretation bucket: leaky_account "take_token u c" "bucket_ok u c cap rate" "bucket_level u"
    "bucket_since u" c "rate * (1 + 4 * unit_roundoff)" "bucket_slack cap rate"
  for u c cap rate
proof (unfold_locales, goal_cases)
  case (1 s now)
  then have a: "0 \<le> current s u now" "current s u now \<le> cap" "0 \<le> c"
    using current_bounds [of s u now] by (auto simp: bucket_ok_def)
  have "fsub (current s u now) c \<le> fl64 cap"
    unfolding fsub_def using a by (intro fl64_mono) simp
  moreover have "0 \<le> fsub (current s u now) c" if "c \<le> current s u now"
    using that by (rule fsub_nonneg)
  ultimately show ?case
    using 1 a by (auto simp: bucket_ok_def take_token_def check_frame check_bucket)
next
  case (2 s now)
  then show ?case by (simp add: take_token_def bucket_since_def check_bucket)
next
  case (3 s)
  then show ?case by (auto simp: bucket_ok_def bucket_level_def)
next
  case (4 s now)
  then have a: "0 \<le> current s u now" "current s u now \<le> cap" "0 \<le> c"
    using current_bounds [of s u now] by (auto simp: bucket_ok_def)
  from taken_level [OF a] refill_level [OF 4] show ?case
    by (simp add: take_token_def bucket_level_def check_bucket bucket_slack_def algebra_simps
        split: if_splits)
qed


section \<open>Traffic of several users\<close>

fun serve_all :: "f64 \<Rightarrow> (string \<times> f64) list \<Rightarrow> limiter \<Rightarrow> (string \<times> bool) list \<times> limiter" where
  "serve_all c [] l = ([], l)"
| "serve_all c ((v, now) # reqs) l =
     (case serve_all c reqs (snd (check now l v c)) of (gs, l2) \<Rightarrow> ((v, granted (check now l v c)) # gs, l2))"

definition same_for :: "string \<Rightarrow> limiter \<Rightarrow> limiter \<Rightarrow> bool" where
  "same_for u l k \<longleftrightarrow> capacity l = capacity k \<and> refill_per_second l = refill_per_second k \<and>
     buckets l u = buckets k u"

lemma same_for_current: "same_for u l k \<Longrightarrow> current l u now = current k u now"
  by (simp add: same_for_def current_def split: option.split)

lemma same_for_check: "same_for u l k \<Longrightarrow> same_for u (snd (check now l u c)) (snd (check now k u c))"
  using same_for_current [of u l k now] by (simp add: same_for_def check_frame check_bucket)

lemma same_for_other: "same_for u l k \<Longrightarrow> v \<noteq> u \<Longrightarrow> same_for u (snd (check now l v c)) k"
  by (simp add: same_for_def check_frame)

lemma serve_all_same_for:
  "same_for u l k \<Longrightarrow>
   filter (\<lambda>r. fst r = u) (fst (serve_all c reqs l)) =
   fst (serve_all c (filter (\<lambda>r. fst r = u) reqs) k)"
proof (induction reqs arbitrary: l k)
  case Nil
  then show ?case by simp
next
  case (Cons r reqs)
  obtain v now where r: "r = (v, now)" by fastforce
  show ?case
  proof (cases "v = u")
    case True
    with Cons.IH [OF same_for_check [OF Cons.prems, of now c]] show ?thesis
      by (simp add: r case_prod_beta same_for_current [OF Cons.prems])
  next
    case False
    with Cons.IH [OF same_for_other [OF Cons.prems False, of now c]] show ?thesis
      by (simp add: r case_prod_beta)
  qed
qed

lemma serve_all_one_user:
  "map snd (fst (serve_all c (map (\<lambda>t. (u, t)) nows) l)) = fst (take_all (take_token u c) nows l)"
  by (induction nows arbitrary: l) (auto simp: case_prod_beta take_token_def)

text \<open>The first request of a user opens a full bucket.\<close>

lemma current_new:
  "fl64 cap = cap \<Longrightarrow> current (new_limiter cap rate) u now = cap"
  by (simp add: current_def new_limiter_def fadd_zero_right)

text \<open>A limiter that has served any traffic: its settings are kept and no bucket is below zero.\<close>

definition used_limiter :: "f64 \<Rightarrow> f64 \<Rightarrow> limiter \<Rightarrow> bool" where
  "used_limiter cap rate l \<longleftrightarrow> 0 \<le> cap \<and> 0 \<le> rate \<and> capacity l = cap \<and> refill_per_second l = rate \<and>
     (\<forall>u t s. buckets l u = Some (t, s) \<longrightarrow> 0 \<le> t)"

lemma used_new: "0 \<le> cap \<Longrightarrow> 0 \<le> rate \<Longrightarrow> used_limiter cap rate (new_limiter cap rate)"
  by (simp add: used_limiter_def new_limiter_def)

lemma used_current: "used_limiter cap rate l \<Longrightarrow> 0 \<le> current l u now \<and> current l u now \<le> cap"
  using current_bounds [of l u now] by (auto simp: used_limiter_def)

lemma used_check:
  assumes "used_limiter cap rate l"
  shows "used_limiter cap rate (snd (check now l u c))"
proof -
  have "0 \<le> t" if "buckets (snd (check now l u c)) v = Some (t, s)" for v t s
    using that used_current [OF assms, of u now] fsub_nonneg [of c "current l u now"] assms
    by (cases "v = u") (auto simp: check_bucket check_frame used_limiter_def)
  with assms show ?thesis unfolding used_limiter_def check_frame by blast
qed

lemma used_serve: "used_limiter cap rate l \<Longrightarrow> used_limiter cap rate (snd (serve_all c reqs l))"
  by (induction reqs arbitrary: l) (auto simp: case_prod_beta used_check)

text \<open>The first request of a window, whatever was served before: it finds at most a full bucket.\<close>

lemma first_take:
  fixes u t0
  assumes "used_limiter cap rate l" "fl64 cap = cap" "0 \<le> c"
  defines "r \<equiv> take_token u c t0 l"
  shows "bucket_ok u c cap rate (snd r)"
    and "bucket_since u (snd r) = t0"
    and "bucket_level u (snd r) + (if fst r then c else 0) \<le> cap + bucket_slack cap rate"
proof -
  have l: "0 \<le> cap" "0 \<le> rate" "capacity l = cap" "refill_per_second l = rate"
    using assms(1) by (simp_all add: used_limiter_def)
  have a: "0 \<le> current l u t0" "current l u t0 \<le> cap" using used_current [OF assms(1)] by auto
  have "fsub (current l u t0) c \<le> fl64 cap"
    unfolding fsub_def using a assms(3) by (intro fl64_mono) simp
  then show "bucket_ok u c cap rate (snd r)"
    using assms(2,3) l a fsub_nonneg [of c "current l u t0"]
    by (auto simp: r_def take_token_def bucket_ok_def check_frame check_bucket)
  show "bucket_since u (snd r) = t0"
    by (simp add: r_def take_token_def bucket_since_def check_bucket)
  have "0 \<le> 2 * unit_roundoff * cap + (2 * rate + 4) * tiny" using l by simp
  then have "unit_roundoff * cap + tiny \<le> bucket_slack cap rate"
    by (simp add: bucket_slack_def algebra_simps)
  then show "bucket_level u (snd r) + (if fst r then c else 0) \<le> cap + bucket_slack cap rate"
    using taken_level [OF a assms(3)] a(2)
    by (simp add: r_def take_token_def bucket_level_def check_bucket split: if_splits)
qed

lemma rate_bound_one_user:
  assumes "used_limiter cap rate l" "fl64 cap = cap" "0 \<le> c" "sorted (t0 # nows)"
  shows "c * grants (fst (take_all (take_token u c) (t0 # nows) l)) \<le>
    cap + rate * (1 + 4 * unit_roundoff) * (last (t0 # nows) - t0)
    + of_nat (Suc (length nows)) * bucket_slack cap rate"
proof -
  define r where "r = take_token u c t0 l"
  note f = first_take [OF assms(1-3), of u t0, folded r_def]
  have "c * grants (fst (take_all (take_token u c) nows (snd r))) \<le>
      bucket_level u (snd r) + rate * (1 + 4 * unit_roundoff) * (last (t0 # nows) - t0)
      + of_nat (length nows) * bucket_slack cap rate"
    using bucket.grants_bound [OF f(1), of nows] assms(4) by (simp only: f(2))
  moreover have "grants (fst (take_all (take_token u c) (t0 # nows) l)) =
      (if fst r then 1 else 0) + grants (fst (take_all (take_token u c) nows (snd r)))"
    by (simp add: r_def case_prod_beta)
  ultimately show ?thesis using f(3) by (simp add: algebra_simps split: if_splits)
qed

text \<open>Requests at one instant against a bucket that holds a whole number of tokens.\<close>

lemma fl64_of_nat: "k \<le> 2 ^ 53 \<Longrightarrow> fl64 (of_nat k) = of_nat k"
  using fl64_int [of "int k"] by simp

lemma current_whole:
  assumes "m \<le> k" "k \<le> 2 ^ 53" "capacity l = of_nat k" "buckets l u = Some (of_nat m, t)"
  shows "current l u t = of_nat m"
  using assms fl64_of_nat [of m] by (simp add: current_def fadd_zero_right)

lemma burst_from:
  "m \<le> k \<Longrightarrow> k \<le> 2 ^ 53 \<Longrightarrow> capacity l = of_nat k \<Longrightarrow> current l u t = of_nat m \<Longrightarrow>
   fst (take_all (take_token u 1) (replicate n t) l) = replicate (min m n) True @ replicate (n - m) False"
proof (induction n arbitrary: m l)
  case 0
  then show ?case by simp
next
  case (Suc n)
  let ?l = "snd (check t l u 1)"
  have cap: "capacity ?l = of_nat k" by (simp add: check_frame Suc.prems(3))
  have head: "fst (take_all (take_token u 1) (replicate (Suc n) t) l) =
      (1 \<le> m) # fst (take_all (take_token u 1) (replicate n t) ?l)"
    by (simp add: case_prod_beta take_token_def Suc.prems(4))
  show ?case
  proof (cases m)
    case 0
    then have "buckets ?l u = Some (of_nat m, t)" by (simp add: check_bucket Suc.prems(4))
    then have "current ?l u t = of_nat m"
      using Suc.prems(1,2) cap by (intro current_whole [where k = k])
    from Suc.IH [OF Suc.prems(1,2) cap this] 0 head show ?thesis by simp
  next
    case (Suc j)
    have "buckets ?l u = Some (of_nat j, t)"
      using Suc Suc.prems(1,2) fl64_of_nat [of j] by (simp add: check_bucket Suc.prems(4) fsub_def)
    then have "current ?l u t = of_nat j"
      using Suc Suc.prems(1,2) cap by (intro current_whole [where k = k]) auto
    from Suc.IH [of j ?l, OF _ Suc.prems(2) cap this] Suc Suc.prems(1) head show ?thesis by simp
  qed
qed

section \<open>Properties\<close>

text \<open>C21. The rate limit holds for each user in every window, whatever was served before it and whatever the other
  users do: of a stretch of traffic that follows any earlier traffic of a limiter, with the clock readings of user \<open>u\<close> in
  order within the stretch, the tokens granted to \<open>u\<close> are at most the burst capacity plus the refill rate times the
  time between that user's first and last request of the stretch. However long the user was idle before, no more than
  the capacity was saved up. Rounding errors of binary64 add a relative error of \<open>2 ^ -51\<close> on the rate and a slack of
  three units of rounding of the capacity per request.\<close>

theorem rate_limit_holds:
  fixes cap rate c c0 :: f64 and earlier reqs :: "(string \<times> f64) list"
  defines "l \<equiv> snd (serve_all c0 earlier (new_limiter cap rate))"
  assumes "fl64 cap = cap" "0 \<le> cap" "0 \<le> c" "0 \<le> rate"
    and "map snd (filter (\<lambda>r. fst r = u) reqs) = t0 # nows" "sorted (t0 # nows)"
  shows "c * grants (map snd (filter (\<lambda>r. fst r = u) (fst (serve_all c reqs l)))) \<le>
    cap + rate * (1 + 4 * unit_roundoff) * (last (t0 # nows) - t0)
    + of_nat (Suc (length nows)) * bucket_slack cap rate"
proof -
  have "filter (\<lambda>r. fst r = u) reqs = map (\<lambda>t. (u, t)) (map snd (filter (\<lambda>r. fst r = u) reqs))"
    by (induction reqs) auto
  then have "filter (\<lambda>r. fst r = u) reqs = map (\<lambda>t. (u, t)) (t0 # nows)"
    by (simp only: assms(6))
  then have "map snd (filter (\<lambda>r. fst r = u) (fst (serve_all c reqs l))) =
      fst (take_all (take_token u c) (t0 # nows) l)"
    using serve_all_same_for [of u l l c reqs]
    by (simp only: same_for_def serve_all_one_user simp_thms)
  moreover have "used_limiter cap rate l"
    unfolding l_def by (rule used_serve [OF used_new [OF assms(3,5)]])
  ultimately show ?thesis using rate_bound_one_user [OF _ assms(2,4,7), of rate l u] by simp
qed

text \<open>A window after an hour in which the user was idle.\<close>

theorem rate_limit_holds_witness:
  "1 * grants (map snd (filter (\<lambda>r. fst r = ''u'')
     (fst (serve_all 1 [(''u'', 3600), (''v'', 3600), (''u'', 3600), (''u'', 3601)]
       (snd (serve_all 1 [(''u'', 0), (''v'', 0)] (new_limiter 1 1))))))) \<le>
   1 + 1 * (1 + 4 * unit_roundoff) * (last [3600, 3600, 3601] - 3600)
     + of_nat (Suc (length [3600, 3601 :: rat])) * bucket_slack 1 1"
  by (rule rate_limit_holds) simp_all

text \<open>Bursts up to the capacity pass, and no further: a new user of a limiter with integral capacity
  \<open>k\<close> who sends \<open>n\<close> requests at one instant has exactly the first \<open>k\<close> of them granted.\<close>

theorem burst_is_exactly_capacity:
  assumes "k \<le> 2 ^ 53"
  shows "fst (take_all (take_token u 1) (replicate n t) (new_limiter (of_nat k) rate)) =
    replicate (min k n) True @ replicate (n - k) False"
  using assms by (intro burst_from [where k = k])
    (simp_all add: current_new fl64_of_nat, simp add: new_limiter_def)

theorem burst_is_exactly_capacity_witness:
  "fst (take_all (take_token ''u'' 1) (replicate 5 7) (new_limiter (of_nat 3) 5)) =
   [True, True, True, False, False]"
proof -
  have "[True, True, True, False, False] = replicate (min 3 5) True @ replicate (5 - 3) False"
    by (simp add: numeral_3_eq_3 numeral_2_eq_2)
  also have "\<dots> = fst (take_all (take_token ''u'' 1) (replicate 5 7) (new_limiter (of_nat 3) 5))"
    by (rule burst_is_exactly_capacity [symmetric]) simp
  finally show ?thesis ..
qed

text \<open>A rejected request takes nothing and says how long to wait: the bucket keeps the tokens it
  had when it was read, they are fewer than the cost, the level never exceeds the capacity, and the delay is
  the missing tokens over the refill rate (infinite when nothing refills).\<close>

theorem rejection_consumes_nothing:
  assumes "fst (check now l u c) = Inl e"
  shows "snd (check now l u c) = l\<lparr>buckets := (buckets l)(u \<mapsto> (current l u now, now))\<rparr> \<and>
    current l u now < c \<and> current l u now \<le> capacity l \<and>
    e = RateLimitExceededError u (if 0 < refill_per_second l
        then Finite (fdiv (fsub c (current l u now)) (refill_per_second l)) else Infinite)"
  using assms by (auto simp: check_def current_def Let_def split: if_splits option.splits)

theorem rejection_consumes_nothing_witness:
  "current (new_limiter 0 5) ''u'' 3 < 1"
  using rejection_consumes_nothing
    [of 3 "new_limiter 0 5" "''u''" 1 "RateLimitExceededError ''u'' (Finite (fdiv (fsub 1 0) 5))"]
  by (simp add: check_def current_def new_limiter_def)

end
