(* ===== verification/Autoscaler.thy ===== *)
theory Autoscaler
  imports Errors Roundoff
begin

text \<open>
  \<open>app/autoscaler.py\<close>: the controller that turns a load sample into a replica count. A clock
  reading is an argument of the operation that makes it: \<open>decide\<close> reads the clock once, \<open>apply\<close> only
  when the decision changes something. \<open>scale_run\<close> is a sequence of ticks; the lemmas about it are
  the bounds on the replica count and the spacing of scale-downs and scale-ups.
\<close>

section \<open>State and operations\<close>

record load_sample =
  in_flight :: int
  queue_depth :: int

definition load_total :: "load_sample \<Rightarrow> int" where
  "load_total load = in_flight load + queue_depth load"

datatype scale_reason =
    ScaleUp int int
  | ScaleUpSuppressed
  | ScaleDown int int
  | ScaleDownSuppressed
  | NoChange

record scale_decision =
  current_replicas :: int
  desired_replicas :: int
  scale_note :: scale_reason

definition changed :: "scale_decision \<Rightarrow> bool" where
  "changed d \<longleftrightarrow> desired_replicas d \<noteq> current_replicas d"

record autoscaler =
  replicas :: int
  last_scale_up :: f64
  last_scale_down :: f64

definition new_autoscaler :: "settings \<Rightarrow> autoscaler" where
  "new_autoscaler s = \<lparr>replicas = min_replicas s, last_scale_up = 0, last_scale_down = 0\<rparr>"

definition raw_desired :: "settings \<Rightarrow> load_sample \<Rightarrow> (exc, int) result" where
  "raw_desired s load =
     (let target = target_concurrency_per_replica s in
      if 0 < load_total load \<and> target = 0 then Inl ZeroDivisionError
      else (let needed = (if 0 < load_total load then \<lceil>fdiv (fint (load_total load)) target\<rceil> else 0)
            in Inr (max (min_replicas s) (min needed (max_replicas s)))))"

definition decide :: "settings \<Rightarrow> f64 \<Rightarrow> autoscaler \<Rightarrow> load_sample \<Rightarrow> (exc, scale_decision) result" where
  "decide s now a load =
     bind_result (raw_desired s load) (\<lambda>desired.
       let current = replicas a in
       Inr (if current < desired then
              (if scale_up_cooldown_s s \<le> fsub now (last_scale_up a)
               then \<lparr>current_replicas = current, desired_replicas = desired,
                     scale_note = ScaleUp (load_total load) desired\<rparr>
               else \<lparr>current_replicas = current, desired_replicas = current,
                     scale_note = ScaleUpSuppressed\<rparr>)
            else if desired < current then
              (if scale_down_cooldown_s s \<le> fsub now (last_scale_down a)
               then \<lparr>current_replicas = current, desired_replicas = desired,
                     scale_note = ScaleDown (load_total load) desired\<rparr>
               else \<lparr>current_replicas = current, desired_replicas = current,
                     scale_note = ScaleDownSuppressed\<rparr>)
            else \<lparr>current_replicas = current, desired_replicas = current, scale_note = NoChange\<rparr>))"

definition apply_decision :: "f64 \<Rightarrow> autoscaler \<Rightarrow> scale_decision \<Rightarrow> autoscaler" where
  "apply_decision now a d =
     (if \<not> changed d then a
      else (let stamped = (if replicas a < desired_replicas d then a\<lparr>last_scale_up := now\<rparr>
                           else a\<lparr>last_scale_down := now\<rparr>)
            in stamped\<lparr>replicas := desired_replicas d\<rparr>))"

text \<open>\<open>step\<close>: the clock is read at \<open>now\<close> by \<open>decide\<close> and at \<open>later\<close> by \<open>apply\<close>.\<close>

definition scale_step ::
  "settings \<Rightarrow> f64 \<Rightarrow> f64 \<Rightarrow> autoscaler \<Rightarrow> load_sample \<Rightarrow> (exc, scale_decision) result \<times> autoscaler" where
  "scale_step s now later a load =
     (case decide s now a load of
        Inl e \<Rightarrow> (Inl e, a)
      | Inr d \<Rightarrow> (Inr d, apply_decision later a d))"

section \<open>Runs\<close>

type_synonym tick = "f64 \<times> f64 \<times> load_sample"

text \<open>The controller loop goes on after a tick that raises.\<close>

fun scale_run :: "settings \<Rightarrow> tick list \<Rightarrow> autoscaler \<Rightarrow> autoscaler" where
  "scale_run s [] a = a"
| "scale_run s ((now, later, load) # ticks) a = scale_run s ticks (snd (scale_step s now later a load))"

text \<open>The clock readings of the ticks that lowered, and of those that raised, the count.\<close>

fun moves :: "(int \<Rightarrow> int \<Rightarrow> bool) \<Rightarrow> settings \<Rightarrow> tick list \<Rightarrow> autoscaler \<Rightarrow> (f64 \<times> f64) list" where
  "moves P s [] a = []"
| "moves P s ((now, later, load) # ticks) a =
     (let a' = snd (scale_step s now later a load) in
      (if P (replicas a) (replicas a') then [(now, later)] else []) @ moves P s ticks a')"

definition downs :: "settings \<Rightarrow> tick list \<Rightarrow> autoscaler \<Rightarrow> (f64 \<times> f64) list" where
  "downs = moves (\<lambda>before after. after < before)"

definition ups :: "settings \<Rightarrow> tick list \<Rightarrow> autoscaler \<Rightarrow> (f64 \<times> f64) list" where
  "ups = moves (\<lambda>before after. before < after)"

section \<open>One tick\<close>

lemma raw_desired_bounds:
  "raw_desired s load = Inr n \<Longrightarrow> min_replicas s \<le> n \<and> n \<le> max (min_replicas s) (max_replicas s)"
  by (auto simp: raw_desired_def Let_def split: if_splits)

lemma scale_step_cases:
  fixes s :: settings and now later :: f64 and a :: autoscaler and load :: load_sample
  obtains (same) "snd (scale_step s now later a load) = a"
    | (up) n where "raw_desired s load = Inr n" "replicas a < n"
        "scale_up_cooldown_s s \<le> fsub now (last_scale_up a)"
        "snd (scale_step s now later a load) = a\<lparr>last_scale_up := later, replicas := n\<rparr>"
    | (down) n where "raw_desired s load = Inr n" "n < replicas a"
        "scale_down_cooldown_s s \<le> fsub now (last_scale_down a)"
        "snd (scale_step s now later a load) = a\<lparr>last_scale_down := later, replicas := n\<rparr>"
proof (cases "raw_desired s load")
  case (Inl e)
  then have "snd (scale_step s now later a load) = a" by (simp add: scale_step_def decide_def)
  then show thesis by (rule same)
next
  case (Inr n)
  then have "snd (scale_step s now later a load) = a \<or>
      replicas a < n \<and> scale_up_cooldown_s s \<le> fsub now (last_scale_up a) \<and>
        snd (scale_step s now later a load) = a\<lparr>last_scale_up := later, replicas := n\<rparr> \<or>
      n < replicas a \<and> scale_down_cooldown_s s \<le> fsub now (last_scale_down a) \<and>
        snd (scale_step s now later a load) = a\<lparr>last_scale_down := later, replicas := n\<rparr>"
    by (auto simp: scale_step_def decide_def apply_decision_def changed_def Let_def)
  with Inr same up down show thesis by blast
qed

definition replicas_ok :: "settings \<Rightarrow> autoscaler \<Rightarrow> bool" where
  "replicas_ok s a \<longleftrightarrow> min_replicas s \<le> replicas a \<and> replicas a \<le> max (min_replicas s) (max_replicas s)"

lemma scale_step_ok: "replicas_ok s a \<Longrightarrow> replicas_ok s (snd (scale_step s now later a load))"
  by (cases rule: scale_step_cases [where s = s and now = now and later = later and a = a and load = load])
    (auto simp: replicas_ok_def dest: raw_desired_bounds)

lemma scale_run_ok: "replicas_ok s a \<Longrightarrow> replicas_ok s (scale_run s ticks a)"
  by (induction s ticks a rule: scale_run.induct) (simp_all add: scale_step_ok)

lemma new_autoscaler_ok: "replicas_ok s (new_autoscaler s)"
  by (simp add: replicas_ok_def new_autoscaler_def)

section \<open>Spacing of the moves\<close>

abbreviation spaced :: "f64 \<Rightarrow> (f64 \<times> f64) list \<Rightarrow> bool" where
  "spaced cooldown \<equiv> successively (\<lambda>m m'. cooldown \<le> fsub (fst m') (snd m))"

text \<open>Each direction has its own stamp, which only moves in that direction touch.\<close>

lemma moves_spaced:
  assumes touch: "\<And>now later a load. P (replicas a) (replicas (snd (scale_step s now later a load))) \<Longrightarrow>
      cooldown \<le> fsub now (stamp a) \<and> stamp (snd (scale_step s now later a load)) = later"
    and keep: "\<And>now later a load. \<not> P (replicas a) (replicas (snd (scale_step s now later a load))) \<Longrightarrow>
      stamp (snd (scale_step s now later a load)) = stamp a"
  shows "spaced cooldown ((t, stamp a) # moves P s ticks a)"
proof (induction ticks arbitrary: a t)
  case Nil
  then show ?case by simp
next
  case (Cons tick ticks)
  obtain now later load where tick: "tick = (now, later, load)" by (cases tick) auto
  define a' where "a' = snd (scale_step s now later a load)"
  show ?case
  proof (cases "P (replicas a) (replicas a')")
    case True
    with touch [of a now later load] have "cooldown \<le> fsub now (stamp a)" "stamp a' = later"
      by (simp_all add: a'_def)
    with Cons.IH [of now a'] True show ?thesis
      by (simp add: tick a'_def [symmetric] Let_def)
  next
    case False
    with keep [of a now later load] have "stamp a' = stamp a" by (simp add: a'_def)
    with Cons.IH [of t a'] False show ?thesis
      by (simp add: tick a'_def [symmetric] Let_def)
  qed
qed

lemma downs_spaced: "spaced (scale_down_cooldown_s s) ((t, last_scale_down a) # downs s ticks a)"
  unfolding downs_def
proof (rule moves_spaced)
  fix now later a load
  show "replicas (snd (scale_step s now later a load)) < replicas a \<Longrightarrow>
      scale_down_cooldown_s s \<le> fsub now (last_scale_down a) \<and>
      last_scale_down (snd (scale_step s now later a load)) = later"
    by (cases rule: scale_step_cases [where s = s and now = now and later = later and a = a and load = load]) auto
  show "\<not> replicas (snd (scale_step s now later a load)) < replicas a \<Longrightarrow>
      last_scale_down (snd (scale_step s now later a load)) = last_scale_down a"
    by (cases rule: scale_step_cases [where s = s and now = now and later = later and a = a and load = load]) auto
qed

lemma ups_spaced: "spaced (scale_up_cooldown_s s) ((t, last_scale_up a) # ups s ticks a)"
  unfolding ups_def
proof (rule moves_spaced)
  fix now later a load
  show "replicas a < replicas (snd (scale_step s now later a load)) \<Longrightarrow>
      scale_up_cooldown_s s \<le> fsub now (last_scale_up a) \<and>
      last_scale_up (snd (scale_step s now later a load)) = later"
    by (cases rule: scale_step_cases [where s = s and now = now and later = later and a = a and load = load]) auto
  show "\<not> replicas a < replicas (snd (scale_step s now later a load)) \<Longrightarrow>
      last_scale_up (snd (scale_step s now later a load)) = last_scale_up a"
    by (cases rule: scale_step_cases [where s = s and now = now and later = later and a = a and load = load]) auto
qed

section \<open>The replica count against the exact formula\<close>

text \<open>A quotient of integers that are not too large keeps its ceiling when it is rounded.\<close>

lemma ceiling_fdiv:
  assumes "0 < k" "k \<le> 2 ^ 53" "0 \<le> n" "n \<le> 2 ^ 52"
  shows "\<lceil>fdiv (fint n) (of_int k)\<rceil> = \<lceil>of_int n / of_int k :: rat\<rceil>"
proof -
  define x :: rat where "x = of_int n / of_int k"
  define c where "c = \<lceil>x\<rceil>"
  have n: "fint n = of_int n" using assms by (simp add: fint_def fl64_int)
  have k: "(0::rat) < of_int k" "(1::rat) \<le> of_int k" "(of_int k :: rat) \<le> 2 ^ 53"
    using assms by (simp, simp, metis of_int_le_iff of_int_numeral of_int_power)
  have x0: "0 \<le> x" using assms k by (simp add: x_def)
  have "(of_int n :: rat) * 1 \<le> of_int n * of_int k"
    using assms(3) k(2) by (intro mult_left_mono) auto
  then have "x \<le> of_int n" using k(1) by (simp add: x_def field_simps)
  then have "c \<le> n" by (simp add: c_def ceiling_le_iff)
  moreover have c0: "0 \<le> c" using x0 by (simp add: c_def)
  ultimately have c: "\<bar>c\<bar> \<le> 2 ^ 53" using assms(4) by simp
  have up: "fl64 x \<le> of_int c"
    using fl64_mono [of x "of_int c"] fl64_int [OF c] by (simp add: c_def)
  have low: "of_int c - 1 < fl64 x"
  proof -
    have "of_int c - 1 < x" by (simp add: c_def ceiling_less_iff) linarith
    then have "of_int ((c - 1) * k) < (of_int n :: rat)"
      using k by (simp add: x_def field_simps)
    then have "(c - 1) * k + 1 \<le> n" by (simp only: of_int_less_iff)
    then have "of_int ((c - 1) * k + 1) \<le> (of_int n :: rat)" by (simp only: of_int_le_iff)
    then have gap: "of_int c - 1 + 1 / of_int k \<le> x"
      using k divide_right_mono [of "of_int ((c - 1) * k + 1)" "of_int n" "of_int k :: rat"]
      by (simp add: x_def add_divide_distrib)
    have "(of_int n :: rat) \<le> 2 ^ 52"
      using assms(4) by (metis of_int_le_iff of_int_numeral of_int_power)
    then have "x / 2 ^ 53 \<le> 1 / of_int k / 2"
      using k by (simp add: x_def field_simps)
    moreover have "(2::rat) powi (- 1075) < 1 / of_int k / 2"
    proof -
      have "(2::rat) powi (- 1075) < 2 powi (- 54)" by (simp add: pow2_less_iff)
      also have "(2::rat) powi (- 54) = 1 / 2 ^ 53 / 2" unfolding power_int_def by (simp add: power_divide)
      also have "\<dots> \<le> 1 / of_int k / 2" using k by (intro divide_right_mono divide_left_mono) auto
      finally show ?thesis .
    qed
    ultimately show ?thesis
      using fl64_error [of x] gap x0 by (simp add: abs_le_iff)
  qed
  have "\<lceil>fl64 x\<rceil> = c" using up low by (intro ceiling_unique) auto
  then show ?thesis by (simp add: fdiv_def n x_def c_def)
qed

section \<open>Properties\<close>

text \<open>The quotient of the controller for any target: rounding never adds a replica, and what is left uncovered
  is the rounding error of one division.\<close>

lemma ceiling_fdiv_any:
  assumes "0 < c" "0 \<le> n" "n \<le> 2 ^ 53" "of_int n \<le> 2 ^ 53 * c"
  shows "\<lceil>fdiv (fint n) c\<rceil> \<le> \<lceil>of_int n / c\<rceil>"
    and "of_int n * (1 - unit_roundoff) - tiny * c \<le> of_int \<lceil>fdiv (fint n) c\<rceil> * c"
proof -
  let ?x = "of_int n / c"
  have n: "fint n = of_int n" using assms by (simp add: fint_def fl64_int)
  have x: "0 \<le> ?x" "?x \<le> of_int (2 ^ 53)" using assms by (simp_all add: field_simps)
  have "\<bar>\<lceil>?x\<rceil>\<bar> \<le> 2 ^ 53" using x by (simp add: ceiling_le_iff)
  then have "fl64 ?x \<le> of_int \<lceil>?x\<rceil>" using fl64_mono [of ?x "of_int \<lceil>?x\<rceil>"] fl64_int by simp
  then show "\<lceil>fdiv (fint n) c\<rceil> \<le> \<lceil>?x\<rceil>" by (simp add: fdiv_def n ceiling_le_iff)
  have "?x * (1 - unit_roundoff) - tiny \<le> of_int \<lceil>fl64 ?x\<rceil>"
    using fl64_above [OF x(1)] by (rule order_trans) simp
  then have "(?x * (1 - unit_roundoff) - tiny) * c \<le> of_int \<lceil>fl64 ?x\<rceil> * c"
    using assms(1) by (intro mult_right_mono) auto
  then show "of_int n * (1 - unit_roundoff) - tiny * c \<le> of_int \<lceil>fdiv (fint n) c\<rceil> * c"
  proof -
    have "?x * c = of_int n" using assms(1) by simp
    then have "(?x * (1 - unit_roundoff) - tiny) * c = of_int n * (1 - unit_roundoff) - tiny * c"
      by (metis left_diff_distrib mult.assoc mult.commute)
    with \<open>(?x * (1 - unit_roundoff) - tiny) * c \<le> of_int \<lceil>fl64 ?x\<rceil> * c\<close> show ?thesis
      by (simp only: fdiv_def n)
  qed
qed

lemma ceiling_div:
  assumes "0 < k" "0 \<le> n"
  shows "\<lceil>of_int n / of_int k :: rat\<rceil> = (n + k - 1) div k"
proof -
  have "n \<le> (n + k - 1) div k * k" "(n + k - 1) div k * k \<le> n + k - 1"
    using assms(1) div_mult_mod_eq [of "n + k - 1" k] pos_mod_bound [of k "n + k - 1"]
      pos_mod_sign [of k "n + k - 1"] by linarith+
  then have "(of_int n :: rat) \<le> of_int ((n + k - 1) div k * k)"
    and "of_int ((n + k - 1) div k * k) < (of_int (n + k) :: rat)"
    unfolding of_int_le_iff of_int_less_iff by linarith+
  then show ?thesis
    using assms(1) by (intro ceiling_unique) (auto simp: field_simps)
qed

text \<open>C31. The count computed from a load of at most \<open>2 ^ 53\<close> requests is the documented formula, clamped to the
  configured range. For a target that is a whole number of at most \<open>2 ^ 53\<close> and a load of at most \<open>2 ^ 52\<close> it is
  exact: the least number of replicas whose combined target covers the load. For any other positive target
  (whose quotient is at most \<open>2 ^ 53\<close>) the division is rounded: the count is never more than the least one that
  covers the load, and it covers the load up to the rounding error of the one division, so with a target of 0.3 a
  load of 3 gets 10 replicas, not the 11 that the binary64 number below 0.3 would need.\<close>

theorem desired_is_exact_ceiling:
  assumes "0 < target_concurrency_per_replica s" "0 \<le> load_total load" "load_total load \<le> 2 ^ 53"
    and "of_int (load_total load) \<le> 2 ^ 53 * target_concurrency_per_replica s"
  shows "\<exists>needed. raw_desired s load = Inr (max (min_replicas s) (min needed (max_replicas s))) \<and>
    needed \<le> \<lceil>of_int (load_total load) / target_concurrency_per_replica s\<rceil> \<and>
    of_int (load_total load) * (1 - unit_roundoff) - tiny * target_concurrency_per_replica s \<le>
      of_int needed * target_concurrency_per_replica s \<and>
    (\<forall>k. target_concurrency_per_replica s = of_int k \<and> k \<le> 2 ^ 53 \<and> load_total load \<le> 2 ^ 52 \<longrightarrow>
      needed = (load_total load + k - 1) div k)"
proof -
  let ?t = "target_concurrency_per_replica s" and ?n = "load_total load"
  let ?needed = "\<lceil>fdiv (fint ?n) ?t\<rceil>"
  have "fdiv (fint 0) ?t = 0" by (simp add: fdiv_def fint_def)
  then have "raw_desired s load = Inr (max (min_replicas s) (min ?needed (max_replicas s)))"
    using assms(1,2) by (cases "?n = 0") (auto simp: raw_desired_def Let_def)
  moreover have "?needed = (?n + k - 1) div k" if "?t = of_int k" "k \<le> 2 ^ 53" "?n \<le> 2 ^ 52" for k
  proof -
    have "0 < k" using assms(1) that(1) by simp
    with ceiling_fdiv [of k ?n] ceiling_div [of k ?n] assms(2) that show ?thesis by simp
  qed
  ultimately show ?thesis using ceiling_fdiv_any [OF assms] by blast
qed

theorem desired_is_exact_ceiling_witness:
  "raw_desired default_settings \<lparr>in_flight = 8, queue_depth = 9\<rparr> = Inr 5"
proof -
  let ?load = "\<lparr>in_flight = 8, queue_depth = 9\<rparr>"
  have t: "target_concurrency_per_replica default_settings = of_int 4" by (simp add: default_settings_def)
  have n: "load_total ?load = 17" by (simp add: load_total_def)
  have "\<exists>needed. raw_desired default_settings ?load = Inr (max 1 (min needed 20)) \<and> needed = (17 + 4 - 1) div 4"
    using desired_is_exact_ceiling [of default_settings ?load] unfolding t n by (auto simp: default_settings_def)
  then show ?thesis by auto
qed

text \<open>Whatever the loads, the clock readings and the failures, a controller started from the settings
  never leaves the configured range: the replica count is at least the minimum and at most the maximum (at
  most the minimum when the two are configured the wrong way round).\<close>

theorem replicas_stay_in_range:
  "min_replicas s \<le> replicas (scale_run s ticks (new_autoscaler s)) \<and>
   replicas (scale_run s ticks (new_autoscaler s)) \<le> max (min_replicas s) (max_replicas s)"
  using scale_run_ok [OF new_autoscaler_ok, of s ticks] by (simp add: replicas_ok_def)

text \<open>C30. No thrashing within one direction: in every run, between a scale-down and the next one (and
  between a scale-up and the next one) at least the cooldown of that direction has passed, on the clock as the
  controller computes it.\<close>

theorem moves_respect_cooldown:
  "spaced (scale_down_cooldown_s s) (downs s ticks a) \<and> spaced (scale_up_cooldown_s s) (ups s ticks a)"
  using downs_spaced [of s 0 a ticks] ups_spaced [of s 0 a ticks]
  by (auto simp: successively_Cons)

text \<open>The two cooldowns are independent: raising the count does not delay lowering it. A controller whose
  last scale-down is old enough can raise the count in one tick and lower it in the very next one, at the
  same clock reading, so a spike is followed by an immediate scale-down.\<close>

theorem scale_down_right_after_scale_up:
  assumes "raw_desired s high = Inr m" "raw_desired s low = Inr n" "replicas a < m" "n < m"
    and "scale_up_cooldown_s s \<le> fsub t (last_scale_up a)"
    and "scale_down_cooldown_s s \<le> fsub t (last_scale_down a)"
  shows "replicas (scale_run s [(t, t, high)] a) = m \<and>
    replicas (scale_run s [(t, t, high), (t, t, low)] a) = n"
  using assms by (simp add: scale_step_def decide_def apply_decision_def changed_def)

theorem scale_down_right_after_scale_up_witness:
  "replicas (scale_run default_settings
     [(100, 100, \<lparr>in_flight = 4, queue_depth = 36\<rparr>), (100, 100, \<lparr>in_flight = 0, queue_depth = 0\<rparr>)]
     (new_autoscaler default_settings)) = 1"
proof -
  have "raw_desired default_settings \<lparr>in_flight = 4, queue_depth = 36\<rparr> = Inr 10" by code_simp
  moreover have "raw_desired default_settings \<lparr>in_flight = 0, queue_depth = 0\<rparr> = Inr 1" by code_simp
  moreover have "scale_up_cooldown_s default_settings \<le> fsub 100 0"
    "scale_down_cooldown_s default_settings \<le> fsub 100 0" by code_simp+
  moreover have "replicas (new_autoscaler default_settings) = 1" by code_simp
  ultimately show ?thesis
    using scale_down_right_after_scale_up
      [where s = default_settings and m = 10 and n = 1 and t = 100 and a = "new_autoscaler default_settings"]
    by (simp add: new_autoscaler_def)
qed

text \<open>Once the cooldowns have passed, one tick reaches the count the load asks for,
  upwards or downwards.\<close>

theorem step_reaches_target:
  assumes "raw_desired s load = Inr n"
    and "scale_up_cooldown_s s \<le> fsub now (last_scale_up a)"
    and "scale_down_cooldown_s s \<le> fsub now (last_scale_down a)"
  shows "replicas (snd (scale_step s now later a load)) = n"
  using assms by (simp add: scale_step_def decide_def apply_decision_def changed_def Let_def)

theorem step_reaches_target_witness:
  "replicas (snd (scale_step default_settings 100 100 (new_autoscaler default_settings)
     \<lparr>in_flight = 4, queue_depth = 36\<rparr>)) = 10"
proof (rule step_reaches_target)
  show "raw_desired default_settings \<lparr>in_flight = 4, queue_depth = 36\<rparr> = Inr 10" by code_simp
  show "scale_up_cooldown_s default_settings \<le> fsub 100 (last_scale_up (new_autoscaler default_settings))"
    by code_simp
  show "scale_down_cooldown_s default_settings \<le> fsub 100 (last_scale_down (new_autoscaler default_settings))"
    by code_simp
qed

end
