(* ===== verification/Gate.thy ===== *)
theory Gate
  imports Prelude
begin

text \<open>
  \<open>app/gate.py\<close>: the capacity gate, with the part of \<open>asyncio.Condition\<close> it uses (CPython 3.11, the
  version of the deployed image). The lock of the condition is only ever held by code that does not
  suspend, so every critical section is one atomic step: the call of \<open>acquire\<close>, the resumption of a
  waiter whose future is done, \<open>release\<close> and \<open>resize\<close>. \<open>waiters\<close> is the condition's queue of futures:
  a future is \<open>Pending\<close>, \<open>Notified\<close> (its result is set, the task is scheduled but has not run yet) or
  \<open>Cancelling\<close> (the task will resume with \<open>CancelledError\<close>, as \<open>asyncio.wait_for\<close> makes it do on a
  timeout). \<open>gate_step\<close> interleaves these steps over the tasks of a service; the tasks that hold a slot
  are recorded beside the gate.
\<close>

section \<open>State and operations\<close>

datatype wait_state = Pending | Notified | Cancelling

type_synonym task = nat

record gate =
  capacity :: int
  active :: int
  waiting :: int
  waiters :: "(task \<times> wait_state) list"

definition new_gate :: "int \<Rightarrow> gate" where
  "new_gate cap = \<lparr>capacity = max 1 cap, active = 0, waiting = 0, waiters = []\<rparr>"

text \<open>\<open>Condition.notify(n)\<close>: the first \<open>n\<close> futures that are not done.\<close>

fun notify :: "nat \<Rightarrow> (task \<times> wait_state) list \<Rightarrow> (task \<times> wait_state) list" where
  "notify n [] = []"
| "notify n ((t, w) # ws) =
     (case n of 0 \<Rightarrow> (t, w) # ws
      | Suc m \<Rightarrow> if w = Pending then (t, Notified) # notify m ws else (t, w) # notify n ws)"

text \<open>\<open>acquire\<close>, up to its return or its first suspension. The first component tells whether the slot was
  taken.\<close>

definition acquire :: "task \<Rightarrow> gate \<Rightarrow> bool \<times> gate" where
  "acquire t g =
     (if active g < capacity g then (True, g\<lparr>active := active g + 1\<rparr>)
      else (False, g\<lparr>waiting := waiting g + 1, waiters := waiters g @ [(t, Pending)]\<rparr>))"

text \<open>The resumption of a notified waiter: \<open>wait\<close> takes its future off the queue and \<open>wait_for\<close> tests the
  predicate again, waiting anew (at the end of the queue) when it fails.\<close>

definition wake :: "task \<Rightarrow> gate \<Rightarrow> bool \<times> gate" where
  "wake t g =
     (let ws = remove1 (t, Notified) (waiters g) in
      if active g < capacity g
      then (True, g\<lparr>active := active g + 1, waiting := waiting g - 1, waiters := ws\<rparr>)
      else (False, g\<lparr>waiters := ws @ [(t, Pending)]\<rparr>))"

text \<open>A cancellation reaches a waiter at once, and its cleanup runs when the task resumes. A future that
  was already notified stays done: the task is cancelled all the same.\<close>

definition cancel :: "task \<Rightarrow> gate \<Rightarrow> gate" where
  "cancel t g = g\<lparr>waiters := map (\<lambda>(u, w). (u, if u = t then Cancelling else w)) (waiters g)\<rparr>"

definition unwind :: "task \<Rightarrow> gate \<Rightarrow> gate" where
  "unwind t g = g\<lparr>waiting := waiting g - 1, waiters := remove1 (t, Cancelling) (waiters g)\<rparr>"

definition release :: "gate \<Rightarrow> gate" where
  "release g = g\<lparr>active := max 0 (active g - 1), waiters := notify 1 (waiters g)\<rparr>"

definition resize :: "int \<Rightarrow> gate \<Rightarrow> gate" where
  "resize n g =
     (let n' = max 1 n; grew = capacity g < n'; g' = g\<lparr>capacity := n'\<rparr> in
      if grew then g'\<lparr>waiters := notify (nat n') (waiters g')\<rparr> else g')"

section \<open>Interleavings\<close>

record gate_world =
  the_gate :: gate
  holders :: "task list"

definition new_world :: "int \<Rightarrow> gate_world" where
  "new_world cap = \<lparr>the_gate = new_gate cap, holders = []\<rparr>"

datatype gate_event =
    Acquire task | Wake task | Cancel task | Unwind task | Release task | Resize int

definition known :: "task \<Rightarrow> gate_world \<Rightarrow> bool" where
  "known t w \<longleftrightarrow> t \<in> set (holders w) \<or> t \<in> fst ` set (waiters (the_gate w))"

definition admit :: "task \<Rightarrow> bool \<times> gate \<Rightarrow> gate_world \<Rightarrow> gate_world" where
  "admit t r w = \<lparr>the_gate = snd r, holders = (if fst r then t # holders w else holders w)\<rparr>"

inductive gate_step :: "gate_world \<Rightarrow> gate_event \<Rightarrow> gate_world \<Rightarrow> bool" where
  step_acquire: "\<not> known t w \<Longrightarrow> gate_step w (Acquire t) (admit t (acquire t (the_gate w)) w)"
| step_wake: "(t, Notified) \<in> set (waiters (the_gate w)) \<Longrightarrow>
    gate_step w (Wake t) (admit t (wake t (the_gate w)) w)"
| step_cancel: "t \<in> fst ` set (waiters (the_gate w)) \<Longrightarrow>
    gate_step w (Cancel t) (w\<lparr>the_gate := cancel t (the_gate w)\<rparr>)"
| step_unwind: "(t, Cancelling) \<in> set (waiters (the_gate w)) \<Longrightarrow>
    gate_step w (Unwind t) (w\<lparr>the_gate := unwind t (the_gate w)\<rparr>)"
| step_release: "t \<in> set (holders w) \<Longrightarrow>
    gate_step w (Release t) \<lparr>the_gate = release (the_gate w), holders = remove1 t (holders w)\<rparr>"
| step_resize: "gate_step w (Resize n) (w\<lparr>the_gate := resize n (the_gate w)\<rparr>)"

inductive_cases gate_stepE: "gate_step w e w'"

text \<open>The worlds that a sequence of events can lead to.\<close>

inductive gate_run :: "gate_world \<Rightarrow> gate_event list \<Rightarrow> gate_world \<Rightarrow> bool" where
  run_nil: "gate_run w [] w"
| run_snoc: "gate_run w es v \<Longrightarrow> gate_step v e u \<Longrightarrow> gate_run w (es @ [e]) u"

text \<open>The same step as a function, for evaluation.\<close>

fun gate_do :: "gate_event \<Rightarrow> gate_world \<Rightarrow> gate_world option" where
  "gate_do (Acquire t) w = (if known t w then None else Some (admit t (acquire t (the_gate w)) w))"
| "gate_do (Wake t) w = (if (t, Notified) \<in> set (waiters (the_gate w))
     then Some (admit t (wake t (the_gate w)) w) else None)"
| "gate_do (Cancel t) w = (if t \<in> fst ` set (waiters (the_gate w))
     then Some (w\<lparr>the_gate := cancel t (the_gate w)\<rparr>) else None)"
| "gate_do (Unwind t) w = (if (t, Cancelling) \<in> set (waiters (the_gate w))
     then Some (w\<lparr>the_gate := unwind t (the_gate w)\<rparr>) else None)"
| "gate_do (Release t) w = (if t \<in> set (holders w)
     then Some \<lparr>the_gate = release (the_gate w), holders = remove1 t (holders w)\<rparr> else None)"
| "gate_do (Resize n) w = Some (w\<lparr>the_gate := resize n (the_gate w)\<rparr>)"

fun gate_exec :: "gate_event list \<Rightarrow> gate_world \<Rightarrow> gate_world option" where
  "gate_exec [] w = Some w"
| "gate_exec (e # es) w = (case gate_do e w of None \<Rightarrow> None | Some v \<Rightarrow> gate_exec es v)"

lemma gate_do_iff: "gate_do e w = Some w' \<longleftrightarrow> gate_step w e w'"
  by (cases e) (auto intro: gate_step.intros elim: gate_stepE split: if_splits)

lemma gate_run_cons: "gate_step w e v \<Longrightarrow> gate_run v es u \<Longrightarrow> gate_run w (e # es) u"
proof (rotate_tac 1, induction rule: gate_run.induct)
  case (run_nil v)
  then show ?case using run_snoc [of w "[]" w e v] gate_run.run_nil by simp
next
  case (run_snoc v es v' e' u)
  then show ?case using gate_run.run_snoc [of w "e # es" v' e' u] by simp
qed

lemma gate_exec_run: "gate_exec es w = Some w' \<Longrightarrow> gate_run w es w'"
proof (induction es arbitrary: w)
  case Nil
  then show ?case by (simp add: run_nil)
next
  case (Cons e es)
  then show ?case
    by (auto simp: gate_do_iff intro: gate_run_cons split: option.splits)
qed

section \<open>The queue\<close>

definition count_state :: "wait_state \<Rightarrow> (task \<times> wait_state) list \<Rightarrow> nat" where
  "count_state s ws = length (filter (\<lambda>p. snd p = s) ws)"

lemma count_state_simps [gate_simps]:
  "count_state s [] = 0"
  "count_state s (p # ws) = (if snd p = s then 1 else 0) + count_state s ws"
  "count_state s (ws @ vs) = count_state s ws + count_state s vs"
  by (simp_all add: count_state_def)

lemma count_state_pos: "(t, s) \<in> set ws \<Longrightarrow> 0 < count_state s ws"
  by (induction ws) (auto simp: gate_simps)

lemma count_state_remove1:
  "(t, s) \<in> set ws \<Longrightarrow>
   count_state r ws = count_state r (remove1 (t, s) ws) + (if r = s then 1 else 0)"
  by (induction ws) (auto simp: gate_simps)

lemma notify_fst [simp]: "map fst (notify n ws) = map fst ws"
  by (induction n ws rule: notify.induct) (auto split: nat.splits)

lemma notify_length [simp]: "length (notify n ws) = length ws"
  by (metis length_map notify_fst)

lemma notify_fst_set [simp]: "fst ` set (notify n ws) = fst ` set ws"
  by (metis list.set_map notify_fst)

lemma notify_counts:
  "count_state Notified (notify n ws) = count_state Notified ws + min n (count_state Pending ws)"
  "count_state Pending (notify n ws) = count_state Pending ws - n"
  "count_state Cancelling (notify n ws) = count_state Cancelling ws"
  by (induction n ws rule: notify.induct) (auto simp: gate_simps split: nat.splits)

lemma notify_0 [simp]: "notify 0 ws = ws"
  by (cases ws) auto

lemma count_partition:
  "length ws = count_state Pending ws + count_state Notified ws + count_state Cancelling ws"
proof (induction ws)
  case Nil
  then show ?case by (simp add: gate_simps)
next
  case (Cons p ws)
  then show ?case by (cases "snd p") (auto simp: gate_simps)
qed


text \<open>Taking a future off the queue.\<close>

lemma remove1_future:
  assumes "distinct (map fst ws)" "(t, s) \<in> set ws"
  shows "distinct (map fst (remove1 (t, s) ws))" "fst ` set (remove1 (t, s) ws) = fst ` set ws - {t}"
proof -
  have "map fst (remove1 (t, s) ws) = remove1 t (map fst ws)"
    using assms by (induction ws) force+
  then show "distinct (map fst (remove1 (t, s) ws))" "fst ` set (remove1 (t, s) ws) = fst ` set ws - {t}"
    using assms(1) by (metis distinct_remove1, metis set_remove1_eq list.set_map)
qed

lemma length_remove1_Suc: "x \<in> set xs \<Longrightarrow> length xs = Suc (length (remove1 x xs))"
  by (induction xs) auto

lemma cancel_simps [simp]:
  "capacity (cancel t g) = capacity g" "active (cancel t g) = active g" "waiting (cancel t g) = waiting g"
  "length (waiters (cancel t g)) = length (waiters g)"
  "map fst (waiters (cancel t g)) = map fst (waiters g)"
  by (simp_all add: cancel_def comp_def case_prod_beta)

lemma cancel_tasks [simp]: "fst ` set (waiters (cancel t g)) = fst ` set (waiters g)"
  by (metis cancel_simps(5) list.set_map)

section \<open>Accounting\<close>

text \<open>The counters are what they count: \<open>active\<close> the tasks that hold a slot, \<open>waiting\<close> the tasks in the queue,
  and no task is in both or twice in one.\<close>

definition gate_ok :: "gate_world \<Rightarrow> bool" where
  "gate_ok w \<longleftrightarrow> 1 \<le> capacity (the_gate w) \<and>
     active (the_gate w) = int (length (holders w)) \<and>
     waiting (the_gate w) = int (length (waiters (the_gate w))) \<and>
     distinct (holders w @ map fst (waiters (the_gate w)))"

lemma gate_ok_new: "gate_ok (new_world cap)"
  by (simp add: gate_ok_def new_world_def new_gate_def)

lemma gate_ok_acquire: "gate_ok w \<Longrightarrow> \<not> known t w \<Longrightarrow> gate_ok (admit t (acquire t (the_gate w)) w)"
  by (auto simp: gate_ok_def admit_def acquire_def known_def)

lemma gate_ok_wake:
  assumes "gate_ok w" "(t, Notified) \<in> set (waiters (the_gate w))"
  shows "gate_ok (admit t (wake t (the_gate w)) w)"
proof -
  have d: "distinct (map fst (waiters (the_gate w)))" and t: "t \<in> fst ` set (waiters (the_gate w))"
    using assms by (auto simp: gate_ok_def intro: rev_image_eqI)
  note r = remove1_future [OF d assms(2)] length_remove1_Suc [OF assms(2)]
  have "t \<notin> set (holders w)" using assms(1) t by (auto simp: gate_ok_def)
  with assms(1) t show ?thesis
    by (simp add: gate_ok_def admit_def wake_def Let_def r(1,2)) (use r(3) in auto)
qed

lemma gate_ok_cancel: "gate_ok w \<Longrightarrow> gate_ok (w\<lparr>the_gate := cancel t (the_gate w)\<rparr>)"
  by (simp add: gate_ok_def)

lemma gate_ok_unwind:
  assumes "gate_ok w" "(t, Cancelling) \<in> set (waiters (the_gate w))"
  shows "gate_ok (w\<lparr>the_gate := unwind t (the_gate w)\<rparr>)"
proof -
  have d: "distinct (map fst (waiters (the_gate w)))"
    using assms by (auto simp: gate_ok_def)
  note r = remove1_future [OF d assms(2)] length_remove1_Suc [OF assms(2)]
  with assms(1) show ?thesis
    by (simp add: gate_ok_def unwind_def r(1,2)) auto
qed

lemma gate_ok_release:
  assumes "gate_ok w" "t \<in> set (holders w)"
  shows "gate_ok \<lparr>the_gate = release (the_gate w), holders = remove1 t (holders w)\<rparr>"
proof -
  have "length (holders w) = Suc (length (remove1 t (holders w)))"
    using assms(2) by (rule length_remove1_Suc)
  then show ?thesis
    using assms by (auto simp: gate_ok_def release_def dest: notin_set_remove1)
qed

lemma gate_ok_resize: "gate_ok w \<Longrightarrow> gate_ok (w\<lparr>the_gate := resize n (the_gate w)\<rparr>)"
  by (auto simp: gate_ok_def resize_def Let_def)

lemma gate_ok_step: "gate_step w e w' \<Longrightarrow> gate_ok w \<Longrightarrow> gate_ok w'"
  by (induction rule: gate_step.induct)
    (simp_all add: gate_ok_acquire gate_ok_wake gate_ok_cancel gate_ok_unwind gate_ok_release gate_ok_resize)

lemma gate_ok_run: "gate_run w es w' \<Longrightarrow> gate_ok w \<Longrightarrow> gate_ok w'"
  by (induction rule: gate_run.induct) (simp_all add: gate_ok_step)

section \<open>Admission\<close>

text \<open>A step that hands out a slot leaves at most \<open>capacity\<close> of them out.\<close>

lemma admit_within_capacity:
  assumes "gate_step w e w'" "gate_ok w" "length (holders w) < length (holders w')"
  shows "active (the_gate w') \<le> capacity (the_gate w') \<and> capacity (the_gate w') = capacity (the_gate w)"
  using assms
proof (cases rule: gate_step.cases)
  case (step_release t)
  with assms(3) length_remove1_Suc [of t "holders w"] show ?thesis by simp
qed (auto simp: admit_def acquire_def wake_def Let_def)

lemma active_step_bound:
  assumes "gate_step w e w'" "gate_ok w" "active (the_gate w) \<le> m" "capacity (the_gate w) \<le> m"
  shows "active (the_gate w') \<le> m"
  using assms
  by (cases rule: gate_step.cases)
    (auto simp: admit_def acquire_def wake_def unwind_def release_def resize_def Let_def gate_ok_def)

text \<open>The capacities an event list configures.\<close>

fun capacities_within :: "int \<Rightarrow> gate_event list \<Rightarrow> bool" where
  "capacities_within m [] = True"
| "capacities_within m (Resize n # es) = (n \<le> m \<and> capacities_within m es)"
| "capacities_within m (e # es) = capacities_within m es"

fun is_resize :: "gate_event \<Rightarrow> bool" where
  "is_resize (Resize n) = True"
| "is_resize e = False"

fun is_cancel :: "gate_event \<Rightarrow> bool" where
  "is_cancel (Cancel t) = True"
| "is_cancel e = False"

lemma capacities_within_Cons:
  "capacities_within m (e # es) \<longleftrightarrow> (\<forall>n. e = Resize n \<longrightarrow> n \<le> m) \<and> capacities_within m es"
  by (cases e) auto

lemma capacities_within_append [simp]:
  "capacities_within m (es @ fs) \<longleftrightarrow> capacities_within m es \<and> capacities_within m fs"
  by (induction es) (auto simp: capacities_within_Cons)

lemma capacity_step:
  "gate_step w e w' \<Longrightarrow> capacity (the_gate w') = (case e of Resize n \<Rightarrow> max 1 n | _ \<Rightarrow> capacity (the_gate w))"
  by (cases rule: gate_step.cases)
    (auto simp: admit_def acquire_def wake_def unwind_def release_def resize_def Let_def)

lemma run_within:
  "gate_run w es w' \<Longrightarrow> gate_ok w \<Longrightarrow> 1 \<le> m \<Longrightarrow> active (the_gate w) \<le> m \<Longrightarrow> capacity (the_gate w) \<le> m \<Longrightarrow>
   capacities_within m es \<Longrightarrow> active (the_gate w') \<le> m \<and> capacity (the_gate w') \<le> m"
proof (induction rule: gate_run.induct)
  case (run_nil w)
  then show ?case by simp
next
  case (run_snoc w es v e u)
  then have v: "gate_ok v" "active (the_gate v) \<le> m" "capacity (the_gate v) \<le> m"
    using gate_ok_run by auto
  have "capacity (the_gate u) \<le> m"
    using capacity_step [OF run_snoc.hyps(2)] v run_snoc.prems
    by (auto simp: capacities_within_Cons split: gate_event.splits)
  with active_step_bound [OF run_snoc.hyps(2) v] show ?case by simp
qed

lemma holders_step:
  "gate_step w e w' \<Longrightarrow> t \<in> set (holders w) \<Longrightarrow> e \<noteq> Release t \<Longrightarrow> t \<in> set (holders w')"
  by (cases rule: gate_step.cases) (auto simp: admit_def intro: notin_set_remove1 dest: in_set_remove1 [THEN iffD2, rotated])

lemma holders_run:
  "gate_run w es w' \<Longrightarrow> t \<in> set (holders w) \<Longrightarrow> Release t \<notin> set es \<Longrightarrow> t \<in> set (holders w')"
  by (induction rule: gate_run.induct) (auto simp: holders_step)

section \<open>No idle slot\<close>

text \<open>Every free slot that a waiter could use has a notified waiter on its way to it.\<close>

definition no_idle_slot :: "gate_world \<Rightarrow> bool" where
  "no_idle_slot w \<longleftrightarrow>
     count_state Cancelling (waiters (the_gate w)) = 0 \<and>
     min (capacity (the_gate w) - active (the_gate w)) (int (length (waiters (the_gate w))))
       \<le> int (count_state Notified (waiters (the_gate w)))"

lemma no_idle_slot_wake:
  assumes "no_idle_slot w" "(t, Notified) \<in> set (waiters (the_gate w))"
  shows "no_idle_slot (admit t (wake t (the_gate w)) w)"
  using assms count_state_remove1 [OF assms(2), of Notified]
    count_state_remove1 [OF assms(2), of Cancelling] length_remove1_Suc [OF assms(2)]
  by (auto simp: no_idle_slot_def admit_def wake_def Let_def gate_simps)

lemma slots_after_release:
  "min (c - a) (int (p + n)) \<le> int n \<Longrightarrow> min (c - max 0 (a - 1)) (int (p + n)) \<le> int (n + min 1 p)"
  for c a :: int by (cases p) (auto simp: min_def max_def split: if_splits)

lemma slots_after_growth:
  "0 \<le> a \<Longrightarrow> min (c - a) (int (p - nat c + (n + min (nat c) p))) \<le> int (n + min (nat c) p)"
  for c a :: int by (auto simp: min_def)

lemma no_idle_slot_iff:
  "no_idle_slot w \<longleftrightarrow> count_state Cancelling (waiters (the_gate w)) = 0 \<and>
     min (capacity (the_gate w) - active (the_gate w))
       (int (count_state Pending (waiters (the_gate w)) + count_state Notified (waiters (the_gate w))))
     \<le> int (count_state Notified (waiters (the_gate w)))"
  using count_partition [of "waiters (the_gate w)"] by (auto simp: no_idle_slot_def)

lemma no_idle_slot_release:
  assumes "no_idle_slot w"
  shows "no_idle_slot \<lparr>the_gate = release (the_gate w), holders = hs\<rparr>"
  using assms slots_after_release
    [of "capacity (the_gate w)" "active (the_gate w)" "count_state Pending (waiters (the_gate w))"
      "count_state Notified (waiters (the_gate w))"]
  by (cases "count_state Pending (waiters (the_gate w))")
    (auto simp: no_idle_slot_iff release_def notify_counts)

lemma no_idle_slot_resize:
  assumes "no_idle_slot w" "gate_ok w"
  shows "no_idle_slot (w\<lparr>the_gate := resize n (the_gate w)\<rparr>)"
proof (cases "capacity (the_gate w) < max 1 n")
  case True
  let ?ws = "waiters (the_gate w)"
  have "0 \<le> active (the_gate w)" using assms(2) by (simp add: gate_ok_def)
  then show ?thesis
    using assms(1) True
      slots_after_growth [of "active (the_gate w)" "max 1 n" "count_state Pending ?ws" "count_state Notified ?ws"]
    by (simp add: no_idle_slot_iff resize_def Let_def notify_counts del: of_nat_add)
next
  case False
  with assms(1) show ?thesis
    by (auto simp: no_idle_slot_def resize_def Let_def)
qed

lemma no_idle_slot_step:
  assumes "gate_step w e w'" "\<not> is_cancel e" "gate_ok w" "no_idle_slot w"
  shows "no_idle_slot w'"
  using assms
proof (cases rule: gate_step.cases)
  case (step_acquire t)
  with assms show ?thesis by (auto simp: no_idle_slot_def admit_def acquire_def gate_simps)
next
  case (step_unwind t)
  with assms(4) show ?thesis by (auto simp: no_idle_slot_def dest: count_state_pos)
next
  case (step_release t)
  with no_idle_slot_release [OF assms(4), of "remove1 t (holders w)"] show ?thesis by simp
qed (simp_all add: no_idle_slot_wake no_idle_slot_resize)

lemma no_idle_slot_run:
  "gate_run w es w' \<Longrightarrow> list_all (\<lambda>e. \<not> is_cancel e) es \<Longrightarrow> gate_ok w \<Longrightarrow> no_idle_slot w \<Longrightarrow> no_idle_slot w'"
proof (induction rule: gate_run.induct)
  case (run_snoc w es v e u)
  then show ?case using gate_ok_run no_idle_slot_step by simp
qed

lemma no_idle_slot_new: "no_idle_slot (new_world cap)"
  by (simp add: no_idle_slot_def new_world_def new_gate_def gate_simps)

section \<open>Properties\<close>

text \<open>The counters that the autoscaler reads are exact in every reachable world, cancellations included:
  \<open>active\<close> is the number of tasks that hold a slot, \<open>waiting\<close> the number of tasks in the queue, no task is
  counted twice, and the capacity is at least 1.\<close>

theorem gate_counters_are_exact:
  assumes "gate_run (new_world cap) es w"
  shows "active (the_gate w) = int (length (holders w)) \<and>
    waiting (the_gate w) = int (length (waiters (the_gate w))) \<and>
    distinct (holders w @ map fst (waiters (the_gate w))) \<and> 1 \<le> capacity (the_gate w)"
  using gate_ok_run [OF assms gate_ok_new] by (simp add: gate_ok_def)

theorem gate_counters_are_exact_witness:
  "\<exists>w. gate_exec [Acquire 0, Acquire 1, Acquire 2, Release 0, Cancel 2, Wake 1] (new_world 1) = Some w \<and>
     active (the_gate w) = 1 \<and> waiting (the_gate w) = 1 \<and> waiting (the_gate w) = int (length (waiters (the_gate w)))"
proof -
  have e: "gate_exec [Acquire 0, Acquire 1, Acquire 2, Release 0, Cancel 2, Wake 1] (new_world 1) =
      Some \<lparr>the_gate = \<lparr>capacity = 1, active = 1, waiting = 1, waiters = [(2, Cancelling)]\<rparr>, holders = [1]\<rparr>"
    by code_simp
  from gate_counters_are_exact [OF gate_exec_run [OF e]] e show ?thesis by simp
qed

text \<open>Concurrency is bounded by the configuration: whatever the interleaving, no more tasks hold a slot than
  the largest capacity the gate was ever given, and a task gets a slot only when, with it, at most the current
  capacity is in use.\<close>

theorem gate_never_over_admits:
  assumes "gate_run (new_world cap) es w" "1 \<le> m" "cap \<le> m" "capacities_within m es"
  shows "int (length (holders w)) \<le> m \<and>
    (\<forall>e w'. gate_step w e w' \<and> length (holders w) < length (holders w') \<longrightarrow>
       int (length (holders w')) \<le> capacity (the_gate w))"
proof -
  have ok: "gate_ok w" by (rule gate_ok_run [OF assms(1) gate_ok_new])
  have "active (the_gate w) \<le> m"
    using run_within [OF assms(1) gate_ok_new assms(2)] assms(3,4) assms(2)
    by (simp add: new_world_def new_gate_def)
  moreover have "int (length (holders w')) \<le> capacity (the_gate w)"
    if "gate_step w e w'" "length (holders w) < length (holders w')" for e w'
    using admit_within_capacity [OF that(1) ok that(2)] gate_ok_step [OF that(1) ok]
    by (simp add: gate_ok_def)
  ultimately show ?thesis using ok by (auto simp: gate_ok_def)
qed

theorem gate_never_over_admits_witness:
  "\<exists>w. gate_exec [Acquire 0, Resize 2, Acquire 1, Resize 1] (new_world 1) = Some w \<and>
     int (length (holders w)) \<le> 2"
proof -
  have e: "gate_exec [Acquire 0, Resize 2, Acquire 1, Resize 1] (new_world 1) =
      Some \<lparr>the_gate = \<lparr>capacity = 1, active = 2, waiting = 0, waiters = []\<rparr>, holders = [1, 0]\<rparr>"
    by code_simp
  from gate_never_over_admits [OF gate_exec_run [OF e], of 2] e show ?thesis by simp
qed

text \<open>Shrinking is graceful: a task that holds a slot keeps it until its own release, whatever resizes
  happen, and without a further resize the number of tasks in flight never grows past the larger of what it
  was and the new capacity.\<close>

theorem gate_shrinks_gracefully:
  assumes "gate_run (new_world cap) es w" "gate_run w fs w'"
  shows "(t \<in> set (holders w) \<and> Release t \<notin> set fs \<longrightarrow> t \<in> set (holders w')) \<and>
    (list_all (\<lambda>e. \<not> is_resize e) fs \<longrightarrow>
       length (holders w') \<le> max (length (holders w)) (nat (capacity (the_gate w))))"
proof -
  have ok: "gate_ok w" and ok': "gate_ok w'"
    using gate_ok_run [OF assms(1) gate_ok_new] gate_ok_run [OF assms(2)] by auto
  let ?m = "max (active (the_gate w)) (capacity (the_gate w))"
  have "int (length (holders w')) \<le> ?m" if "list_all (\<lambda>e. \<not> is_resize e) fs"
  proof -
    have "capacities_within ?m fs" using that by (induction fs) (auto simp: capacities_within_Cons)
    moreover have "1 \<le> ?m" using ok by (simp add: gate_ok_def le_max_iff_disj)
    ultimately show ?thesis
      using run_within [OF assms(2) ok, of ?m] ok' by (simp add: gate_ok_def)
  qed
  moreover have "length (holders w') \<le> max (length (holders w)) (nat (capacity (the_gate w)))"
    if "int (length (holders w')) \<le> ?m"
    using that ok by (simp add: gate_ok_def)
  ultimately show ?thesis using holders_run [OF assms(2)] by blast
qed

theorem gate_shrinks_gracefully_witness:
  "\<exists>w w'. gate_exec [Acquire 0, Acquire 1] (new_world 2) = Some w \<and>
     gate_exec [Resize 1, Acquire 2] w = Some w' \<and> 0 \<in> set (holders w')"
proof -
  have e: "gate_exec [Acquire 0, Acquire 1] (new_world 2) =
      Some \<lparr>the_gate = \<lparr>capacity = 2, active = 2, waiting = 0, waiters = []\<rparr>, holders = [1, 0]\<rparr>"
    by code_simp
  have f: "gate_exec [Resize 1, Acquire 2]
      \<lparr>the_gate = \<lparr>capacity = 2, active = 2, waiting = 0, waiters = []\<rparr>, holders = [1, 0]\<rparr> =
      Some \<lparr>the_gate = \<lparr>capacity = 1, active = 2, waiting = 1, waiters = [(2, Pending)]\<rparr>, holders = [1, 0]\<rparr>"
    by code_simp
  from gate_shrinks_gracefully [OF gate_exec_run [OF e] gate_exec_run [OF f], of 0] e f show ?thesis
    by auto
qed

text \<open>C19. No request waits in front of a free slot: as long as no waiter was cancelled, in every reachable world
  with a free slot and a waiter some waiter has been notified and is about to run. (So when no task is
  runnable, either nobody waits or all slots are in use.)\<close>

theorem gate_no_idle_slot:
  assumes "gate_run (new_world cap) es w" "list_all (\<lambda>e. \<not> is_cancel e) es"
    and "active (the_gate w) < capacity (the_gate w)" "waiters (the_gate w) \<noteq> []"
  shows "\<exists>t w'. (t, Notified) \<in> set (waiters (the_gate w)) \<and> gate_step w (Wake t) w' \<and> t \<in> set (holders w')"
proof -
  have "no_idle_slot w"
    by (rule no_idle_slot_run [OF assms(1,2) gate_ok_new no_idle_slot_new])
  moreover have "0 < min (capacity (the_gate w) - active (the_gate w)) (int (length (waiters (the_gate w))))"
    using assms(3,4) by simp
  ultimately have "0 < count_state Notified (waiters (the_gate w))"
    unfolding no_idle_slot_def by linarith
  then obtain t where t: "(t, Notified) \<in> set (waiters (the_gate w))"
    by (auto simp: count_state_def filter_empty_conv)
  from step_wake [OF t] assms(3) have "gate_step w (Wake t) (admit t (wake t (the_gate w)) w)"
    "t \<in> set (holders (admit t (wake t (the_gate w)) w))"
    by (simp_all add: admit_def wake_def Let_def)
  with t show ?thesis by blast
qed

theorem gate_no_idle_slot_witness:
  "\<exists>w w'. gate_exec [Acquire 0, Acquire 1, Release 0] (new_world 1) = Some w \<and> gate_step w (Wake 1) w'"
proof -
  have e: "gate_exec [Acquire 0, Acquire 1, Release 0] (new_world 1) =
      Some \<lparr>the_gate = \<lparr>capacity = 1, active = 0, waiting = 1, waiters = [(1, Notified)]\<rparr>, holders = []\<rparr>"
    by code_simp
  from gate_no_idle_slot [OF gate_exec_run [OF e]] e show ?thesis by auto
qed

definition stranded :: gate_world where
  "stranded = \<lparr>the_gate = \<lparr>capacity = 1, active = 0, waiting = 1, waiters = [(2, Pending)]\<rparr>, holders = []\<rparr>"

text \<open>A timeout can lose a wakeup: the slot freed by a release is announced to one waiter, and when that
  waiter is cancelled before it runs, nobody else is told. With capacity 1, one request in service and two
  waiting, this leaves the gate empty with a request still waiting in front of the free slot, and nothing in
  that world moves it: only a new request, a resize or its own timeout can happen.\<close>

theorem gate_timeout_loses_wakeup:
  "gate_exec [Acquire 0, Acquire 1, Acquire 2, Release 0, Cancel 1, Unwind 1] (new_world 1) = Some stranded \<and>
   {e. \<exists>w'. gate_step stranded e w'} \<subseteq> range Acquire \<union> range Resize \<union> {Cancel 2}"
proof (rule conjI)
  show "gate_exec [Acquire 0, Acquire 1, Acquire 2, Release 0, Cancel 1, Unwind 1] (new_world 1) = Some stranded"
    by code_simp
  show "{e. \<exists>w'. gate_step stranded e w'} \<subseteq> range Acquire \<union> range Resize \<union> {Cancel 2}"
    by (auto simp: stranded_def elim!: gate_stepE)
qed

end
