(* ===== verification/Cache.thy ===== *)
theory Cache
  imports PyString Binary64
begin

text \<open>
  \<open>app/cache.py\<close>: the cache key, the in-process LRU cache with expiry, and \<open>SingleFlight\<close>. The hash
  function of the key (\<open>hashlib.sha256(...).hexdigest()\<close> of the UTF-8 encoding) is a parameter; the
  JSON text that is hashed is modelled in full, so that \<open>cache_payload_inj\<close> shows that it determines
  everything that went into it. The locale \<open>response_cache\<close> is what the service relies on (a hit is
  the entry last stored under that key); it is interpreted on the in-process cache.
\<close>

section \<open>JSON text\<close>

text \<open>\<open>json.dumps(s, ensure_ascii=False)\<close> of a string.\<close>

definition hex_digit :: "nat \<Rightarrow> char" where "hex_digit n = ''0123456789abcdef'' ! n"

definition json_char :: "char \<Rightarrow> string" where
  "json_char c = (let n = code_point c in
     if n = 34 then [CHR 0x5C, CHR 0x22]
     else if n = 92 then [CHR 0x5C, CHR 0x5C]
     else if n = 8 then [CHR 0x5C, CHR ''b'']
     else if n = 9 then [CHR 0x5C, CHR ''t'']
     else if n = 10 then [CHR 0x5C, CHR ''n'']
     else if n = 12 then [CHR 0x5C, CHR ''f'']
     else if n = 13 then [CHR 0x5C, CHR ''r'']
     else if n < 32 then [CHR 0x5C, CHR ''u'', CHR ''0'', CHR ''0'', hex_digit (n div 16), hex_digit (n mod 16)]
     else [c])"

definition quote :: char where "quote = CHR 0x22"

definition json_string :: "string \<Rightarrow> string" where
  "json_string s = quote # concat (map json_char s) @ [quote]"

text \<open>\<open>str(n)\<close> of an integer.\<close>

definition digit :: "nat \<Rightarrow> char" where "digit n = ''0123456789'' ! n"

fun show_nat :: "nat \<Rightarrow> string" where
  "show_nat n = (if n < 10 then [digit n] else show_nat (n div 10) @ [digit (n mod 10)])"

declare show_nat.simps [simp del]

definition show_int :: "int \<Rightarrow> string" where
  "show_int n = (if n < 0 then CHR ''-'' # show_nat (nat (- n)) else show_nat (nat n))"

section \<open>The cache key\<close>

text \<open>The payload of \<open>make_cache_key\<close>, with its keys sorted.\<close>

definition cache_payload :: "string \<Rightarrow> string \<Rightarrow> int \<Rightarrow> string \<Rightarrow> string" where
  "cache_payload model prompt max_output_tokens namespace =
     ''{'' @ json_string ''max_output_tokens'' @ '': '' @ show_int max_output_tokens @
     '', '' @ json_string ''model'' @ '': '' @ json_string model @
     '', '' @ json_string ''prompt'' @ '': '' @ json_string prompt @
     '', '' @ json_string ''v'' @ '': '' @ json_string namespace @ ''}''"

definition CACHE_KEY_VERSION :: string where "CACHE_KEY_VERSION = ''v1''"

definition make_cache_key :: "(string \<Rightarrow> string) \<Rightarrow> string \<Rightarrow> string \<Rightarrow> int \<Rightarrow> string \<Rightarrow> string" where
  "make_cache_key digest model prompt max_output_tokens namespace =
     namespace @ '':'' @ digest (cache_payload model prompt max_output_tokens namespace)"

section \<open>The in-process cache\<close>

record cache_entry =
  entry_text :: string
  input_tokens :: int
  output_tokens :: int
  model :: string

record memory_cache =
  max_entries :: int
  data :: "(string \<times> cache_entry \<times> f64) list"
  hits :: int
  misses :: int

definition new_cache :: "int \<Rightarrow> memory_cache" where
  "new_cache n = \<lparr>max_entries = max 1 n, data = [], hits = 0, misses = 0\<rparr>"

text \<open>\<open>OrderedDict.move_to_end\<close> for a key that is present.\<close>

definition move_to_end :: "'k \<Rightarrow> ('k \<times> 'v) list \<Rightarrow> ('k \<times> 'v) list" where
  "move_to_end k kvs = dict_del k kvs @ filter (\<lambda>(k', _). k' = k) kvs"

definition cache_get :: "f64 \<Rightarrow> memory_cache \<Rightarrow> string \<Rightarrow> cache_entry option \<times> memory_cache" where
  "cache_get now c key =
     (case map_of (data c) key of
        None \<Rightarrow> (None, c\<lparr>misses := misses c + 1\<rparr>)
      | Some (entry, expires_at) \<Rightarrow>
          if expires_at \<le> now then (None, c\<lparr>data := dict_del key (data c), misses := misses c + 1\<rparr>)
          else (Some entry, c\<lparr>data := move_to_end key (data c), hits := hits c + 1\<rparr>))"

text \<open>\<open>while len(self._data) > self.max_entries: popitem(last=False)\<close>\<close>

fun evict :: "int \<Rightarrow> ('k \<times> 'v) list \<Rightarrow> ('k \<times> 'v) list" where
  "evict n [] = []"
| "evict n (kv # kvs) = (if n < int (length (kv # kvs)) then evict n kvs else kv # kvs)"

definition cache_set :: "f64 \<Rightarrow> memory_cache \<Rightarrow> string \<Rightarrow> cache_entry \<Rightarrow> f64 \<Rightarrow> memory_cache" where
  "cache_set now c key entry ttl_s =
     (if ttl_s \<le> 0 then c
      else c\<lparr>data := evict (max_entries c)
               (move_to_end key (dict_set key (entry, fadd now ttl_s) (data c)))\<rparr>)"

section \<open>The payload determines its fields\<close>

text \<open>A reader of one character of a JSON string, for the round trip.\<close>

definition hex_value :: "char \<Rightarrow> nat" where
  "hex_value c = (if 97 \<le> code_point c then code_point c - 87 else code_point c - 48)"

fun json_read :: "string \<Rightarrow> char \<times> string" where
  "json_read [] = (CHR 0x00, [])"
| "json_read (c # r) =
     (if c \<noteq> CHR 0x5C then (c, r)
      else (case r of
          [] \<Rightarrow> (c, r)
        | e # r1 \<Rightarrow>
            if e = CHR ''b'' then (CHR 0x08, r1) else if e = CHR ''t'' then (CHR 0x09, r1)
            else if e = CHR ''n'' then (CHR 0x0A, r1) else if e = CHR ''f'' then (CHR 0x0C, r1)
            else if e = CHR ''r'' then (CHR 0x0D, r1)
            else if e = CHR ''u''
            then (char_of (16 * hex_value (r1 ! 2) + hex_value (r1 ! 3)), drop 4 r1)
            else (e, r1)))"

lemma hex_value_digit: "n < 16 \<Longrightarrow> hex_value (hex_digit n) = n"
  by (auto simp: hex_value_def hex_digit_def code_point_def less_Suc_eq numeral_eq_Suc)

lemma code_point_eq_char:
  "code_point c = 34 \<longleftrightarrow> c = CHR 0x22" "code_point c = 92 \<longleftrightarrow> c = CHR 0x5C"
  "code_point c = 8 \<longleftrightarrow> c = CHR 0x08" "code_point c = 9 \<longleftrightarrow> c = CHR 0x09"
  "code_point c = 10 \<longleftrightarrow> c = CHR 0x0A" "code_point c = 12 \<longleftrightarrow> c = CHR 0x0C"
  "code_point c = 13 \<longleftrightarrow> c = CHR 0x0D"
proof -
  have eq: "code_point c = code_point d \<longleftrightarrow> c = d" for d by (simp add: code_point_def)
  show "code_point c = 34 \<longleftrightarrow> c = CHR 0x22" "code_point c = 92 \<longleftrightarrow> c = CHR 0x5C"
    "code_point c = 8 \<longleftrightarrow> c = CHR 0x08" "code_point c = 9 \<longleftrightarrow> c = CHR 0x09"
    "code_point c = 10 \<longleftrightarrow> c = CHR 0x0A" "code_point c = 12 \<longleftrightarrow> c = CHR 0x0C"
    "code_point c = 13 \<longleftrightarrow> c = CHR 0x0D"
    by (simp_all flip: eq, simp_all add: code_point_def)
qed

lemma char_of_code_point [simp]: "char_of (code_point c) = c"
  by (simp add: code_point_def)

lemma json_read_char: "json_read (json_char c @ r) = (c, r)"
proof (cases "code_point c < 32 \<and> code_point c \<notin> {8, 9, 10, 12, 13}")
  case True
  then have j: "json_char c = [CHR 0x5C, CHR ''u'', CHR ''0'', CHR ''0'',
      hex_digit (code_point c div 16), hex_digit (code_point c mod 16)]"
    by (simp add: json_char_def Let_def)
  have "code_point c div 16 < 16" "code_point c mod 16 < 16" using True by auto
  then have "16 * hex_value (hex_digit (code_point c div 16)) + hex_value (hex_digit (code_point c mod 16))
      = code_point c"
    by (simp add: hex_value_digit)
  then show ?thesis by (simp add: j)
next
  case no: False
  show ?thesis
  proof (cases "c \<in> {CHR 0x22, CHR 0x5C, CHR 0x08, CHR 0x09, CHR 0x0A, CHR 0x0C, CHR 0x0D}")
    case True
    then show ?thesis by (elim insertE) (simp_all add: json_char_def code_point_def)
  next
    case False
    then have "code_point c \<notin> {34, 92, 8, 9, 10, 12, 13}"
      by (auto simp: code_point_eq_char)
    with no have "json_char c = [c]" by (auto simp: json_char_def Let_def)
    with False show ?thesis by simp
  qed
qed

lemma json_char_prefix_free: "json_char c @ r = json_char d @ r' \<Longrightarrow> c = d \<and> r = r'"
  by (metis json_read_char prod.inject)

lemma json_char_hd: "json_char c @ r \<noteq> quote # r'"
  by (auto simp: json_char_def Let_def quote_def code_point_eq_char split: if_splits)

lemma json_body_prefix_free:
  "concat (map json_char s) @ quote # r = concat (map json_char t) @ quote # r' \<Longrightarrow> s = t \<and> r = r'"
proof (induction s arbitrary: t)
  case Nil
  then show ?case
  proof (cases t)
    case (Cons d t)
    with Nil json_char_hd [of d "concat (map json_char t) @ quote # r'" r] show ?thesis by simp
  qed simp
next
  case (Cons c s)
  show ?case
  proof (cases t)
    case Nil
    with Cons.prems json_char_hd [of c "concat (map json_char s) @ quote # r" r'] show ?thesis by simp
  next
    case t: (Cons d t')
    from json_char_prefix_free [of c "concat (map json_char s) @ quote # r" d] Cons.prems
    have "c = d \<and> concat (map json_char s) @ quote # r = concat (map json_char t') @ quote # r'"
      by (simp add: t)
    with Cons.IH [of t'] t show ?thesis by simp
  qed
qed

lemma json_string_prefix_free: "json_string s @ r = json_string t @ r' \<longleftrightarrow> s = t \<and> r = r'"
  using json_body_prefix_free [of s r t r'] by (auto simp: json_string_def)

lemma digit_in: "digit (n mod 10) \<in> set ''0123456789''"
  unfolding digit_def by (rule nth_mem) simp

lemma show_nat_digits: "set (show_nat n) \<subseteq> set ''0123456789''"
proof (induction n rule: show_nat.induct)
  case (1 n)
  then show ?case
    using digit_in [of n] by (subst show_nat.simps) auto
qed

fun read_nat :: "string \<Rightarrow> nat" where
  "read_nat s = foldl (\<lambda>n c. 10 * n + (code_point c - 48)) 0 s"

lemma digit_value: "n < 10 \<Longrightarrow> code_point (digit n) - 48 = n"
  by (auto simp: digit_def code_point_def less_Suc_eq numeral_eq_Suc)

lemma read_nat_zeros: "read_nat (replicate n CHR ''0'' @ ds) = read_nat ds"
  by (induction n) (simp_all add: code_point_def)

lemma read_show_nat: "read_nat (show_nat n) = n"
proof (induction n rule: show_nat.induct)
  case (1 n)
  then show ?case
    by (subst show_nat.simps) (auto simp: digit_value)
qed

lemma show_int_inj: "show_int m = show_int n \<Longrightarrow> m = n"
proof -
  assume eq: "show_int m = show_int n"
  have "CHR ''-'' \<notin> set (show_nat k)" for k
    using show_nat_digits [of k] by auto
  then have minus: "CHR ''-'' # s \<noteq> show_nat k" "show_nat k \<noteq> CHR ''-'' # s" for s k
    by (metis list.set_intros(1))+
  have nat: "show_nat i = show_nat j \<Longrightarrow> i = j" for i j
    using read_show_nat [of i] read_show_nat [of j] by simp
  from eq minus nat [of "nat (- m)" "nat (- n)"] nat [of "nat m" "nat n"]
  show "m = n" by (auto simp: show_int_def split: if_splits)
qed

lemma show_int_prefix_free:
  assumes "show_int m @ CHR '','' # r = show_int n @ CHR '','' # r'"
  shows "m = n \<and> r = r'"
proof -
  have "CHR '','' \<notin> set (show_int k)" for k
    using show_nat_digits [of "nat k"] show_nat_digits [of "nat (- k)"] by (auto simp: show_int_def)
  then have tw: "takeWhile (\<lambda>c. c \<noteq> CHR '','') (show_int k @ CHR '','' # x) = show_int k"
      "dropWhile (\<lambda>c. c \<noteq> CHR '','') (show_int k @ CHR '','' # x) = CHR '','' # x" for k x
    by (subst takeWhile_append2, auto, subst dropWhile_append2, auto)
  have "show_int m = show_int n" "CHR '','' # r = CHR '','' # r'"
    using tw [of m r] tw [of n r'] assms by simp_all
  then show ?thesis using show_int_inj by simp
qed

lemma cache_payload_inj:
  assumes "cache_payload m p n v = cache_payload m' p' n' v'"
  shows "m = m' \<and> p = p' \<and> n = n' \<and> v = v'"
proof -
  from assms have "n = n' \<and> CHR '' '' # json_string ''model'' @ '': '' @ json_string m @
      '', '' @ json_string ''prompt'' @ '': '' @ json_string p @ '', '' @ json_string ''v'' @ '': '' @
      json_string v @ ''}'' = CHR '' '' # json_string ''model'' @ '': '' @ json_string m' @
      '', '' @ json_string ''prompt'' @ '': '' @ json_string p' @ '', '' @ json_string ''v'' @ '': '' @
      json_string v' @ ''}''"
    by (intro show_int_prefix_free) (simp add: cache_payload_def)
  then show ?thesis
    using json_string_prefix_free [of v "[]" v' "[]"] by (simp add: json_string_prefix_free)
qed

section \<open>What the service relies on\<close>

datatype cache_op =
    Get f64 string
  | Put f64 string cache_entry f64

text \<open>The entry, with its expiry, that the last effective store put under a key.\<close>

fun last_put :: "cache_op list \<Rightarrow> string \<Rightarrow> (cache_entry \<times> f64) option" where
  "last_put [] k = None"
| "last_put (Get t j # ops) k = last_put ops k"
| "last_put (Put t j e ttl # ops) k =
     (case last_put ops k of
        Some r \<Rightarrow> Some r
      | None \<Rightarrow> if j = k \<and> 0 < ttl then Some (e, fadd t ttl) else None)"

locale response_cache =
  fixes get :: "f64 \<Rightarrow> 's \<Rightarrow> string \<Rightarrow> cache_entry option \<times> 's"
    and put :: "f64 \<Rightarrow> 's \<Rightarrow> string \<Rightarrow> cache_entry \<Rightarrow> f64 \<Rightarrow> 's"
    and contents :: "'s \<Rightarrow> string \<Rightarrow> (cache_entry \<times> f64) option"
    and ok :: "'s \<Rightarrow> bool"
  assumes get_ok: "ok s \<Longrightarrow> ok (snd (get t s k))"
    and put_ok: "ok s \<Longrightarrow> ok (put t s k e ttl)"
    and get_hit: "ok s \<Longrightarrow> fst (get t s k) = Some e \<Longrightarrow> \<exists>x. contents s k = Some (e, x) \<and> t < x"
    and get_contents: "ok s \<Longrightarrow> contents (snd (get t s k)) j = Some r \<Longrightarrow> contents s j = Some r"
    and put_contents: "ok s \<Longrightarrow> contents (put t s k e ttl) j = Some r \<Longrightarrow>
      (if j = k \<and> 0 < ttl then r = (e, fadd t ttl) else contents s j = Some r)"
begin

fun run_op :: "cache_op \<Rightarrow> 's \<Rightarrow> 's" where
  "run_op (Get t k) s = snd (get t s k)"
| "run_op (Put t k e ttl) s = put t s k e ttl"

lemma run_ok: "ok s \<Longrightarrow> ok (fold run_op ops s)"
proof (induction ops arbitrary: s)
  case (Cons op ops)
  then show ?case by (cases op) (simp_all add: get_ok put_ok)
qed simp

lemma run_contents:
  "ok s \<Longrightarrow> contents (fold run_op ops s) k = Some r \<Longrightarrow>
   last_put ops k = Some r \<or> last_put ops k = None \<and> contents s k = Some r"
proof (induction ops arbitrary: s)
  case Nil
  then show ?case by simp
next
  case (Cons op ops)
  from Cons.prems(2) have run: "contents (fold run_op ops (run_op op s)) k = Some r" by simp
  have "ok (run_op op s)" using run_ok [OF Cons.prems(1), of "[op]"] by simp
  note ih = Cons.IH [OF this run]
  show ?case
  proof (cases op)
    case (Get t j)
    with ih get_contents [OF Cons.prems(1), of t j k r] show ?thesis by auto
  next
    case (Put t j e ttl)
    show ?thesis
    proof (cases "last_put ops k")
      case None
      then have "contents (put t s j e ttl) k = Some r" using ih Put by simp
      from put_contents [OF Cons.prems(1) this] None Put show ?thesis by (auto split: if_splits)
    next
      case (Some r')
      with ih Put show ?thesis by simp
    qed
  qed
qed

lemma hit_is_last_put:
  assumes "ok s" "\<And>j. contents s j = None" "fst (get t (fold run_op ops s) k) = Some e"
  shows "\<exists>x. last_put ops k = Some (e, x) \<and> t < x"
proof -
  obtain x where "contents (fold run_op ops s) k = Some (e, x)" "t < x"
    using get_hit [OF run_ok [OF assms(1)] assms(3)] by blast
  with run_contents [OF assms(1), of ops k "(e, x)"] assms(2) show ?thesis by auto
qed

end

section \<open>The in-process cache keeps its promises\<close>

fun cache_do :: "cache_op \<Rightarrow> memory_cache \<Rightarrow> memory_cache" where
  "cache_do (Get t k) c = snd (cache_get t c k)"
| "cache_do (Put t k e ttl) c = cache_set t c k e ttl"

definition cache_contents :: "memory_cache \<Rightarrow> string \<Rightarrow> (cache_entry \<times> f64) option" where
  "cache_contents c = map_of (data c)"

lemma map_of_filter_key: "map_of (filter (\<lambda>(k', _). k' = k) kvs) j = (if j = k then map_of kvs k else None)"
  by (induction kvs) auto

lemma map_of_move_to_end [simp]: "map_of (move_to_end k kvs) = map_of kvs"
  by (rule ext) (auto simp: move_to_end_def map_add_def map_of_filter_key split: option.splits)

lemma distinct_move_to_end: "distinct (map fst kvs) \<Longrightarrow> distinct (map fst (move_to_end k kvs))"
  unfolding move_to_end_def dict_del_def by (auto simp: distinct_map_filter)

lemma move_to_end_keys: "fst ` set (move_to_end k kvs) = fst ` set kvs"
  unfolding move_to_end_def dict_del_def by auto

lemma length_move_to_end: "length (move_to_end k kvs) = length kvs"
  unfolding move_to_end_def dict_del_def by (induction kvs) auto

lemma evict_suffix: "\<exists>xs. kvs = xs @ evict n kvs"
proof (induction n kvs rule: evict.induct)
  case (1 n)
  then show ?case by simp
next
  case (2 n kv kvs)
  show ?case
  proof (cases "n < int (length (kv # kvs))")
    case True
    then obtain xs where "kvs = xs @ evict n kvs" using 2 by blast
    then have "kv # kvs = (kv # xs) @ evict n kvs" by simp
    with True show ?thesis by (metis evict.simps(2))
  qed auto
qed

lemma map_of_evict: "distinct (map fst kvs) \<Longrightarrow> map_of (evict n kvs) k = Some v \<Longrightarrow> map_of kvs k = Some v"
proof -
  assume d: "distinct (map fst kvs)" and v: "map_of (evict n kvs) k = Some v"
  obtain xs where "kvs = xs @ evict n kvs" using evict_suffix by blast
  then have "(k, v) \<in> set kvs" using map_of_SomeD [OF v] by (metis UnCI set_append)
  with d show "map_of kvs k = Some v" by simp
qed

lemma length_evict: "0 \<le> n \<Longrightarrow> int (length (evict n kvs)) \<le> n"
  by (induction n kvs rule: evict.induct) auto

lemma distinct_evict: "distinct (map fst kvs) \<Longrightarrow> distinct (map fst (evict n kvs))"
  using evict_suffix [of kvs n] by (metis distinct_append map_append)

definition wf_cache :: "memory_cache \<Rightarrow> bool" where
  "wf_cache c \<longleftrightarrow> 1 \<le> max_entries c \<and> distinct (map fst (data c)) \<and> int (length (data c)) \<le> max_entries c"

lemma wf_new: "wf_cache (new_cache n)"
  by (simp add: wf_cache_def new_cache_def)

lemma wf_get: "wf_cache c \<Longrightarrow> wf_cache (snd (cache_get t c k))"
  using length_dict_del [of k "data c"]
  by (auto simp: wf_cache_def cache_get_def distinct_dict_del distinct_move_to_end length_move_to_end
      split: option.splits)

lemma wf_set: "wf_cache c \<Longrightarrow> wf_cache (cache_set t c k e ttl)"
  by (auto simp: wf_cache_def cache_set_def intro!: distinct_evict distinct_move_to_end distinct_dict_set
      length_evict)

lemma wf_run: "wf_cache c \<Longrightarrow> wf_cache (fold cache_do ops c)"
proof (induction ops arbitrary: c)
  case (Cons op ops)
  then show ?case by (cases op) (simp_all add: wf_get wf_set)
qed simp

interpretation mem: response_cache cache_get cache_set cache_contents wf_cache
proof (unfold_locales, goal_cases)
  case (1 s t k)
  then show ?case by (rule wf_get)
next
  case (2 s t k e ttl)
  then show ?case by (rule wf_set)
next
  case (3 s t k e)
  then show ?case by (auto simp: cache_get_def cache_contents_def split: option.splits if_splits)
next
  case (4 s t k j r)
  then show ?case
    by (auto simp: cache_get_def cache_contents_def split: option.splits if_splits)
next
  case (5 s t k e ttl j r)
  let ?kvs = "move_to_end k (dict_set k (e, fadd t ttl) (data s))"
  have d: "distinct (map fst ?kvs)"
    using 5(1) by (auto simp: wf_cache_def intro!: distinct_move_to_end distinct_dict_set)
  show ?case
  proof (cases "ttl \<le> 0")
    case True
    with 5(2) show ?thesis by (simp add: cache_set_def cache_contents_def)
  next
    case False
    with 5(2) have "map_of (evict (max_entries s) ?kvs) j = Some r"
      by (simp add: cache_set_def cache_contents_def)
    from map_of_evict [OF d this] False show ?thesis
      by (auto simp: cache_contents_def split: if_splits)
  qed
qed

lemma run_op_cache_do: "mem.run_op = cache_do"
proof (intro ext)
  fix op c
  show "mem.run_op op c = cache_do op c" by (cases op) simp_all
qed

section \<open>Least recently used\<close>

lemma dict_del_around: "k' \<noteq> k \<Longrightarrow> dict_del k' (older @ (k, v) # newer) = dict_del k' older @ (k, v) # dict_del k' newer"
  by (simp add: dict_del_def)

lemma evict_keeps:
  "int (Suc (length newer)) \<le> n \<Longrightarrow> \<exists>older'. evict n (older @ kv # newer) = older' @ kv # newer"
proof (induction older)
  case Nil
  then show ?case by (intro exI [of _ "[]"]) simp
next
  case (Cons x older)
  then show ?case
    by (cases "n < int (length ((x # older) @ kv # newer))") (auto intro: exI [of _ "x # older"])
qed

lemma move_to_end_present:
  "distinct (map fst kvs) \<Longrightarrow> map_of kvs k = Some v \<Longrightarrow> move_to_end k kvs = dict_del k kvs @ [(k, v)]"
proof -
  assume "distinct (map fst kvs)" "map_of kvs k = Some v"
  then have "filter (\<lambda>(k', _). k' = k) kvs = [(k, v)]"
    by (induction kvs) (auto simp: filter_empty_conv intro: rev_image_eqI split: if_splits)
  then show ?thesis by (simp add: move_to_end_def)
qed

text \<open>The entry of \<open>k\<close> is in place and everything more recent is among the keys \<open>K\<close>.\<close>

definition recent :: "string \<Rightarrow> cache_entry \<times> f64 \<Rightarrow> string set \<Rightarrow> memory_cache \<Rightarrow> bool" where
  "recent k v K c \<longleftrightarrow> wf_cache c \<and> (\<exists>older newer. data c = older @ (k, v) # newer \<and> fst ` set newer \<subseteq> K)"

lemma recentI: "wf_cache c \<Longrightarrow> data c = older @ (k, v) # newer \<Longrightarrow> fst ` set newer \<subseteq> K \<Longrightarrow> recent k v K c"
  unfolding recent_def by blast

lemma recent_mono: "recent k v K c \<Longrightarrow> K \<subseteq> L \<Longrightarrow> recent k v L c"
  unfolding recent_def by blast

lemma recent_lookup: "recent k v K c \<Longrightarrow> map_of (data c) k = Some v"
  by (auto simp: recent_def wf_cache_def)

lemma recent_hit:
  assumes "recent k (e, x) K c" "t < x"
  shows "fst (cache_get t c k) = Some e" "recent k (e, x) {} (snd (cache_get t c k))"
proof -
  have m: "map_of (data c) k = Some (e, x)" by (rule recent_lookup) (rule assms)
  then show "fst (cache_get t c k) = Some e" using assms(2) by (simp add: cache_get_def)
  have wf: "wf_cache c" using assms(1) by (simp add: recent_def)
  then have "move_to_end k (data c) = dict_del k (data c) @ [(k, (e, x))]"
    using m by (intro move_to_end_present) (simp_all add: wf_cache_def)
  with m assms(2) wf_get [OF wf, of t k] show "recent k (e, x) {} (snd (cache_get t c k))"
    by (auto simp: recent_def cache_get_def)
qed

lemma recent_get_other:
  assumes "recent k v K c" "j \<noteq> k"
  shows "recent k v (insert j K) (snd (cache_get t c j))"
proof -
  obtain older newer where d: "data c = older @ (k, v) # newer" "fst ` set newer \<subseteq> K" and wf: "wf_cache c"
    using assms(1) by (auto simp: recent_def)
  have del: "fst ` set (dict_del j newer) \<subseteq> K" using d(2) by (auto simp: dict_del_keys)
  have "data (snd (cache_get t c j)) \<in> {data c, dict_del j (data c), move_to_end j (data c)}"
    by (auto simp: cache_get_def split: option.splits)
  then show ?thesis
  proof (elim insertE)
    assume "data (snd (cache_get t c j)) = data c"
    with d show ?thesis by (intro recentI [where older = older and newer = newer, OF wf_get [OF wf]]) auto
  next
    assume "data (snd (cache_get t c j)) = dict_del j (data c)"
    then have "data (snd (cache_get t c j)) = dict_del j older @ (k, v) # dict_del j newer"
      by (simp add: d(1) dict_del_around [OF assms(2)])
    with del show ?thesis by (intro recentI [OF wf_get [OF wf]]) auto
  next
    assume "data (snd (cache_get t c j)) = move_to_end j (data c)"
    then have "data (snd (cache_get t c j)) =
        dict_del j older @ (k, v) # (dict_del j newer @ filter (\<lambda>(k', _). k' = j) (data c))"
      by (simp add: d(1) move_to_end_def dict_del_around [OF assms(2)])
    moreover have "fst ` set (dict_del j newer @ filter (\<lambda>(k', _). k' = j) (data c)) \<subseteq> insert j K"
      using del by auto
    ultimately show ?thesis by (intro recentI [OF wf_get [OF wf]])
  qed simp
qed

lemma dict_set_around:
  "k' \<noteq> k \<Longrightarrow> \<exists>older' newer'. dict_set k' w (older @ (k, v) # newer) = older' @ (k, v) # newer' \<and>
     fst ` set newer' \<subseteq> insert k' (fst ` set newer)"
proof (induction older)
  case Nil
  then show ?case
    by (intro exI [of _ "[]"] exI [of _ "dict_set k' w newer"]) (simp add: dict_set_keys)
next
  case (Cons kv older)
  obtain j u where kv: "kv = (j, u)" by fastforce
  show ?case
  proof (cases "k' = j")
    case True
    then show ?thesis by (intro exI [of _ "(j, w) # older"] exI [of _ newer]) (auto simp: kv)
  next
    case False
    with Cons obtain older' newer' where "dict_set k' w (older @ (k, v) # newer) = older' @ (k, v) # newer'"
      "fst ` set newer' \<subseteq> insert k' (fst ` set newer)" by blast
    with False show ?thesis by (intro exI [of _ "(j, u) # older'"] exI [of _ newer']) (simp add: kv)
  qed
qed

lemma recent_set_other:
  assumes "recent k v K c" "j \<noteq> k" "finite K" "int (card (insert j K)) < max_entries c"
  shows "recent k v (insert j K) (cache_set t c j e ttl)"
proof (cases "ttl \<le> 0")
  case True
  with recent_mono [OF assms(1)] show ?thesis by (auto simp: cache_set_def)
next
  case False
  obtain older newer where d: "data c = older @ (k, v) # newer" "fst ` set newer \<subseteq> K" and wf: "wf_cache c"
    using assms(1) by (auto simp: recent_def)
  let ?kvs = "move_to_end j (dict_set j (e, fadd t ttl) (data c))"
  obtain older' newer' where s: "dict_set j (e, fadd t ttl) (data c) = older' @ (k, v) # newer'"
    "fst ` set newer' \<subseteq> insert j (fst ` set newer)"
    using dict_set_around [OF assms(2), of "(e, fadd t ttl)" older v newer] d(1) by auto
  define newest where "newest = dict_del j newer' @ filter (\<lambda>(k', _). k' = j) (older' @ (k, v) # newer')"
  have kvs: "?kvs = dict_del j older' @ (k, v) # newest"
    by (simp add: s(1) move_to_end_def dict_del_around [OF assms(2)] newest_def)
  have keys: "fst ` set newest \<subseteq> insert j K"
  proof -
    have "fst ` set newest \<subseteq> insert j (fst ` set newer')" by (auto simp: newest_def dict_del_def)
    also have "\<dots> \<subseteq> insert j K" using order_trans [OF s(2) insert_mono [OF d(2)]] by simp
    finally show ?thesis .
  qed
  have "distinct (map fst ?kvs)"
    using wf by (auto simp: wf_cache_def intro!: distinct_move_to_end distinct_dict_set)
  then have "distinct (map fst newest)" unfolding kvs by simp
  then have "length newest = card (fst ` set newest)"
    using distinct_card [of "map fst newest"] by simp
  also have "\<dots> \<le> card (insert j K)" using keys assms(3) by (intro card_mono) auto
  finally have "int (Suc (length newest)) \<le> max_entries c" using assms(4) by simp
  then obtain oldest where "evict (max_entries c) ?kvs = oldest @ (k, v) # newest"
    unfolding kvs using evict_keeps [of newest "max_entries c" "dict_del j older'" "(k, v)"] by metis
  with False have "data (cache_set t c j e ttl) = oldest @ (k, v) # newest" by (simp add: cache_set_def)
  from recentI [OF wf_set [OF wf] this keys] show ?thesis .
qed

text \<open>The operations that leave the entry of \<open>k\<close> alone: stores under other keys, and reads.\<close>

fun op_key :: "cache_op \<Rightarrow> string" where
  "op_key (Get t k) = k"
| "op_key (Put t k e ttl) = k"

fun keeps_entry :: "string \<Rightarrow> f64 \<Rightarrow> cache_op \<Rightarrow> bool" where
  "keeps_entry k x (Get t j) = (j = k \<longrightarrow> t < x)"
| "keeps_entry k x (Put t j e ttl) = (j \<noteq> k)"

lemma max_entries_do [simp]: "max_entries (cache_do op c) = max_entries c"
  by (cases op) (auto simp: cache_get_def cache_set_def split: option.splits)

lemma max_entries_run [simp]: "max_entries (fold cache_do ops c) = max_entries c"
  by (induction ops arbitrary: c) auto

lemma recent_do:
  assumes "recent k (e, x) K c" "keeps_entry k x op" "finite K"
    and "int (card (insert (op_key op) K - {k})) < max_entries c" "k \<notin> K"
  shows "recent k (e, x) (insert (op_key op) K - {k}) (cache_do op c)"
proof (cases "op_key op = k")
  case True
  then obtain t where op: "op = Get t k" using assms(2) by (cases op) auto
  have "recent k (e, x) {} (cache_do op c)"
    using recent_hit(2) [OF assms(1)] assms(2) by (simp add: op)
  then show ?thesis by (rule recent_mono) simp
next
  case False
  then have eq: "insert (op_key op) K - {k} = insert (op_key op) K" using assms(5) by auto
  show ?thesis
  proof (cases op)
    case (Get t j)
    with False recent_get_other [OF assms(1)] show ?thesis unfolding eq by simp
  next
    case (Put t j e' ttl)
    with False recent_set_other [OF assms(1) _ assms(3)] assms(4) show ?thesis unfolding eq by simp
  qed
qed

lemma recent_run:
  "recent k (e, x) K c \<Longrightarrow> list_all (keeps_entry k x) ops \<Longrightarrow> finite K \<Longrightarrow> k \<notin> K \<Longrightarrow>
   int (card (K \<union> (op_key ` set ops - {k}))) < max_entries c \<Longrightarrow>
   recent k (e, x) (K \<union> (op_key ` set ops - {k})) (fold cache_do ops c)"
proof (induction ops arbitrary: K c)
  case Nil
  then show ?case by simp
next
  case (Cons op ops)
  let ?K = "insert (op_key op) K - {k}"
  have eq: "?K \<union> (op_key ` set ops - {k}) = K \<union> (op_key ` set (op # ops) - {k})"
    using Cons.prems(4) by auto
  have "card ?K \<le> card (K \<union> (op_key ` set (op # ops) - {k}))"
    using Cons.prems(3,4) by (intro card_mono) auto
  then have "recent k (e, x) ?K (cache_do op c)"
    using Cons.prems by (intro recent_do) auto
  from Cons.IH [OF this] Cons.prems(2,3,5) show ?case unfolding eq by simp
qed

lemma recent_after_set:
  assumes "wf_cache c" "0 < ttl"
  shows "recent k (e, fadd t ttl) {} (cache_set t c k e ttl)"
proof -
  let ?set = "dict_set k (e, fadd t ttl) (data c)"
  have d: "distinct (map fst ?set)" using assms(1) by (simp add: wf_cache_def distinct_dict_set)
  then have m: "move_to_end k ?set = dict_del k ?set @ [(k, (e, fadd t ttl))]"
    by (intro move_to_end_present) simp_all
  have "\<exists>older. evict (max_entries c) (dict_del k ?set @ [(k, (e, fadd t ttl))]) =
      older @ [(k, (e, fadd t ttl))]"
    using assms(1) by (intro evict_keeps) (simp add: wf_cache_def)
  with wf_set [OF assms(1), of t k e ttl] assms(2) show ?thesis
    by (auto simp: recent_def cache_set_def m)
qed

section \<open>Properties\<close>

text \<open>Within one key version, two cache keys are equal only when model, prompt and output ceiling all are,
  up to a collision of the hash function: the JSON text that is hashed determines every field, whatever
  characters the prompt holds.\<close>

theorem cache_key_covers_every_field:
  assumes "make_cache_key digest m p n v = make_cache_key digest m' p' n' v"
  shows "m = m' \<and> p = p' \<and> n = n' \<or>
    cache_payload m p n v \<noteq> cache_payload m' p' n' v \<and>
    digest (cache_payload m p n v) = digest (cache_payload m' p' n' v)"
  using assms cache_payload_inj [of m p n v m' p' n' v] by (auto simp: make_cache_key_def)

theorem cache_key_covers_every_field_witness:
  "make_cache_key id ''small'' ''hi'' 5 CACHE_KEY_VERSION = make_cache_key id ''small'' ''hi'' 5 CACHE_KEY_VERSION \<and>
   ''hi'' = (''hi'' :: string)"
  using cache_key_covers_every_field [of id "''small''" "''hi''" 5 CACHE_KEY_VERSION "''small''" "''hi''" 5]
  by simp

text \<open>C23. A hit is never stale and never wrong: after any sequence of reads and stores on a fresh cache, what a
  read returns is the entry of the last effective store under that key, and its time to live has not passed.\<close>

theorem cache_hit_is_last_store:
  assumes "fst (cache_get t (fold cache_do ops (new_cache n)) k) = Some e"
  shows "\<exists>x. last_put ops k = Some (e, x) \<and> t < x"
proof (rule mem.hit_is_last_put)
  show "wf_cache (new_cache n)" by (rule wf_new)
  show "cache_contents (new_cache n) j = None" for j by (simp add: cache_contents_def new_cache_def)
  show "fst (cache_get t (fold mem.run_op ops (new_cache n)) k) = Some e"
    using assms by (simp only: run_op_cache_do)
qed

theorem cache_hit_is_last_store_witness:
  "\<exists>x. last_put [Put 0 ''a'' \<lparr>entry_text = ''x'', input_tokens = 1, output_tokens = 1, model = ''m''\<rparr> 10] ''a'' =
     Some (\<lparr>entry_text = ''x'', input_tokens = 1, output_tokens = 1, model = ''m''\<rparr>, x) \<and> 5 < x"
proof (rule cache_hit_is_last_store)
  show "fst (cache_get 5 (fold cache_do
      [Put 0 ''a'' \<lparr>entry_text = ''x'', input_tokens = 1, output_tokens = 1, model = ''m''\<rparr> 10] (new_cache 1)) ''a'') =
      Some \<lparr>entry_text = ''x'', input_tokens = 1, output_tokens = 1, model = ''m''\<rparr>"
    by code_simp
qed

text \<open>C37. The cache is bounded and evicts the least recently used entry only: it never holds more than
  \<open>max_entries\<close> entries, and a stored entry is still served before it expires as long as fewer than
  \<open>max_entries\<close> other keys have been used since, whatever was done with them.\<close>

theorem cache_is_bounded_lru:
  assumes "0 < ttl" "list_all (keeps_entry k (fadd t ttl)) later" "t' < fadd t ttl"
    and "int (card (op_key ` set later - {k})) < max 1 n"
  shows "fst (cache_get t' (fold cache_do (before @ Put t k e ttl # later) (new_cache n)) k) = Some e \<and>
    int (length (data (fold cache_do (before @ Put t k e ttl # later) (new_cache n)))) \<le> max 1 n"
proof -
  let ?c = "fold cache_do before (new_cache n)"
  have wf: "wf_cache ?c" by (rule wf_run) (rule wf_new)
  have max': "max_entries (cache_set t ?c k e ttl) = max 1 n"
    by (simp add: cache_set_def new_cache_def)
  have r: "recent k (e, fadd t ttl) ({} \<union> (op_key ` set later - {k}))
      (fold cache_do later (cache_set t ?c k e ttl))"
    using assms(1,2,4) recent_after_set [OF wf assms(1)] max' by (intro recent_run) simp_all
  then have "wf_cache (fold cache_do later (cache_set t ?c k e ttl))"
    by (simp add: recent_def)
  then have "int (length (data (fold cache_do later (cache_set t ?c k e ttl)))) \<le> max 1 n"
    by (simp add: wf_cache_def max')
  with recent_hit(1) [OF r assms(3)] show ?thesis by simp
qed

theorem cache_is_bounded_lru_witness:
  "fst (cache_get 5 (fold cache_do
     ([] @ Put 0 ''a'' \<lparr>entry_text = ''x'', input_tokens = 1, output_tokens = 1, model = ''m''\<rparr> 10 #
      [Get 1 ''b'', Put 2 ''b'' \<lparr>entry_text = ''y'', input_tokens = 1, output_tokens = 1, model = ''m''\<rparr> 10])
     (new_cache 2)) ''a'') =
   Some \<lparr>entry_text = ''x'', input_tokens = 1, output_tokens = 1, model = ''m''\<rparr>"
proof (rule cache_is_bounded_lru [THEN conjunct1])
  show "list_all (keeps_entry ''a'' (fadd 0 10))
    [Get 1 ''b'', Put 2 ''b'' \<lparr>entry_text = ''y'', input_tokens = 1, output_tokens = 1, model = ''m''\<rparr> 10]"
    by simp
  show "5 < fadd 0 10" by code_simp
qed simp_all

end
