(* ===== verification/Metrics.thy ===== *)
theory Metrics
  imports Binary64
begin

text \<open>
  \<open>app/metrics.py\<close>: the counters. Every method takes the lock for its whole body and does not block
  while it holds it, so each is one atomic update. \<open>prometheus\<close>, which formats \<open>snapshot\<close> as text, is
  not modelled (it needs Python's shortest decimal representation of a float).
\<close>

section \<open>State and methods\<close>

record metrics =
  in_flight :: int
  queue_depth :: int
  total_requests :: int
  total_rejected :: int
  total_downgraded :: int
  total_input_tokens :: int
  total_output_tokens :: int
  total_cost_usd :: f64
  total_cache_hits :: int
  total_cache_misses :: int
  total_rate_limited :: int
  total_shed :: int
  total_circuit_rejected :: int
  total_failovers :: int

definition new_metrics :: metrics where
  "new_metrics = \<lparr>in_flight = 0, queue_depth = 0, total_requests = 0, total_rejected = 0,
     total_downgraded = 0, total_input_tokens = 0, total_output_tokens = 0, total_cost_usd = 0,
     total_cache_hits = 0, total_cache_misses = 0, total_rate_limited = 0, total_shed = 0,
     total_circuit_rejected = 0, total_failovers = 0\<rparr>"

definition request_started :: "metrics \<Rightarrow> metrics" where
  "request_started m = m\<lparr>in_flight := in_flight m + 1, total_requests := total_requests m + 1\<rparr>"

definition request_finished :: "metrics \<Rightarrow> int \<Rightarrow> int \<Rightarrow> f64 \<Rightarrow> bool \<Rightarrow> metrics" where
  "request_finished m input_tokens output_tokens cost downgraded =
     m\<lparr>in_flight := max 0 (in_flight m - 1),
       total_input_tokens := total_input_tokens m + input_tokens,
       total_output_tokens := total_output_tokens m + output_tokens,
       total_cost_usd := fadd (total_cost_usd m) cost,
       total_downgraded := (if downgraded then total_downgraded m + 1 else total_downgraded m)\<rparr>"

definition request_rejected :: "metrics \<Rightarrow> metrics" where
  "request_rejected m = m\<lparr>total_rejected := total_rejected m + 1\<rparr>"

definition set_queue_depth :: "metrics \<Rightarrow> int \<Rightarrow> metrics" where
  "set_queue_depth m depth = m\<lparr>queue_depth := depth\<rparr>"

definition cache_hit :: "metrics \<Rightarrow> metrics" where
  "cache_hit m = m\<lparr>total_cache_hits := total_cache_hits m + 1, total_requests := total_requests m + 1\<rparr>"

definition cache_miss :: "metrics \<Rightarrow> metrics" where
  "cache_miss m = m\<lparr>total_cache_misses := total_cache_misses m + 1\<rparr>"

definition request_rate_limited :: "metrics \<Rightarrow> metrics" where
  "request_rate_limited m =
     m\<lparr>total_rate_limited := total_rate_limited m + 1, total_rejected := total_rejected m + 1\<rparr>"

definition request_shed :: "metrics \<Rightarrow> metrics" where
  "request_shed m = m\<lparr>total_shed := total_shed m + 1, total_rejected := total_rejected m + 1\<rparr>"

definition request_circuit_rejected :: "metrics \<Rightarrow> metrics" where
  "request_circuit_rejected m = m\<lparr>total_circuit_rejected := total_circuit_rejected m + 1\<rparr>"

definition request_failover :: "metrics \<Rightarrow> metrics" where
  "request_failover m = m\<lparr>total_failovers := total_failovers m + 1\<rparr>"

definition hit_rate :: "int \<Rightarrow> int \<Rightarrow> f64" where
  "hit_rate hits lookups = (if lookups \<noteq> 0 then round_dec 4 (fdiv (fint hits) (fint lookups)) else 0)"

definition cache_hit_rate :: "metrics \<Rightarrow> f64" where
  "cache_hit_rate m = hit_rate (total_cache_hits m) (total_cache_hits m + total_cache_misses m)"

datatype metric_value = Count int | Amount f64

definition snapshot :: "metrics \<Rightarrow> (string \<times> metric_value) list" where
  "snapshot m =
    [(''in_flight'', Count (in_flight m)),
     (''queue_depth'', Count (queue_depth m)),
     (''total_requests'', Count (total_requests m)),
     (''total_rejected'', Count (total_rejected m)),
     (''total_downgraded'', Count (total_downgraded m)),
     (''total_input_tokens'', Count (total_input_tokens m)),
     (''total_output_tokens'', Count (total_output_tokens m)),
     (''total_cost_usd'', Amount (round_dec 6 (total_cost_usd m))),
     (''total_cache_hits'', Count (total_cache_hits m)),
     (''total_cache_misses'', Count (total_cache_misses m)),
     (''cache_hit_rate'', Amount (hit_rate (total_cache_hits m) (total_cache_hits m + total_cache_misses m))),
     (''total_rate_limited'', Count (total_rate_limited m)),
     (''total_shed'', Count (total_shed m)),
     (''total_circuit_rejected'', Count (total_circuit_rejected m)),
     (''total_failovers'', Count (total_failovers m))]"

lemmas metrics_defs [metrics_simps] =
  request_started_def request_finished_def request_rejected_def set_queue_depth_def cache_hit_def
  cache_miss_def request_rate_limited_def request_shed_def request_circuit_rejected_def
  request_failover_def

section \<open>Facts\<close>

text \<open>A hit rate is a fraction, also after both roundings.\<close>

lemma round_dec_unit: "0 \<le> x \<Longrightarrow> x \<le> 1 \<Longrightarrow> 0 \<le> round_dec n x \<and> round_dec n x \<le> 1"
proof -
  assume x: "0 \<le> x" "x \<le> 1"
  have "rne (x * 10 ^ n) \<le> 10 ^ n" using x(2) by (intro rne_le_of_int) simp
  moreover have "0 \<le> rne (x * 10 ^ n)" using x(1) by (intro rne_ge_of_int) simp
  ultimately have "0 \<le> (of_int (rne (x * 10 ^ n)) / 10 ^ n :: rat)"
    "(of_int (rne (x * 10 ^ n)) / 10 ^ n :: rat) \<le> 1"
    by simp_all
  then show ?thesis
    unfolding round_dec_def using fl64_mono [of _ 1] by (simp add: fl64_nonneg)
qed

lemma hit_rate_unit: "0 \<le> h \<Longrightarrow> 0 \<le> m \<Longrightarrow> 0 \<le> hit_rate h (h + m) \<and> hit_rate h (h + m) \<le> 1"
proof -
  assume hm: "0 \<le> h" "0 \<le> m"
  have "fint h \<le> fint (h + m)" using hm by (intro fint_mono) simp
  then have "fint h / fint (h + m) \<le> 1" using fint_nonneg [of "h + m"] hm
    by (cases "fint (h + m) = 0") (auto simp: divide_le_eq)
  then have "fdiv (fint h) (fint (h + m)) \<le> 1"
    unfolding fdiv_def using fl64_mono [of _ 1] by simp
  moreover have "0 \<le> fdiv (fint h) (fint (h + m))" using hm by (intro fdiv_nonneg fint_nonneg) auto
  ultimately show ?thesis by (simp add: hit_rate_def round_dec_unit)
qed

end
