(* ===== verification/Provider.thy ===== *)
theory Provider
  imports Errors
begin

text \<open>
  \<open>app/providers/base.py\<close>: what a provider hands back. The exceptions of this module are constructors of
  \<open>exc\<close> (\<open>Errors.thy\<close>); what a provider does is modelled with the adapters (\<open>Mock.thy\<close>, \<open>VLLM.thy\<close>).
\<close>

record usage =
  usage_in :: int
  usage_out :: int

record completion =
  completion_text :: string
  completion_in :: int
  completion_out :: int
  completion_model :: string

record stream_chunk =
  chunk_text :: string
  finish_reason :: "string option"
  chunk_usage :: "usage option"

definition is_final :: "stream_chunk \<Rightarrow> bool" where
  "is_final c \<longleftrightarrow> finish_reason c \<noteq> None \<or> chunk_usage c \<noteq> None"

end
