(* ===== verification/Service.thy ===== *)
theory Service
  imports Provider Router Ledger Breaker RateLimit Autoscaler Gate Cache Metrics
begin

text \<open>
  \<open>app/service.py\<close>, buffered path: the operations of \<open>InferenceService\<close> as functions on the state of
  the service. With the in-process backends none of the awaited calls suspends except the wait for a
  slot and the call of the provider, so \<open>handle\<close> is cut at these two points: \<open>arrive\<close> runs up to the
  wait for a slot, \<open>begin_generation\<close> from the slot to the first call of the provider,
  \<open>provider_returned\<close> and \<open>provider_failed\<close> from the provider's answer to the next call or to the end.
  \<open>Interleaving.thy\<close> runs any number of requests through these segments.

  What is outside the repository is a field of \<open>env\<close>: the tokenizer, the hash of the cache key, the
  \<open>n\<close>-th reading of the two clocks, and the \<open>n\<close>-th random id. \<open>reads\<close> counts the readings made; a
  method that reads a clock on one of its branches only is given a reading on every branch, which
  changes nothing since the readings are arbitrary.
\<close>

section \<open>State\<close>

record env =
  tokenizer :: tokenizer
  digest :: "string \<Rightarrow> string"
  mono :: "nat \<Rightarrow> f64"
  wall :: "nat \<Rightarrow> f64"
  fresh_id :: "nat \<Rightarrow> string"

record request =
  prompt :: string
  user_id :: string
  task_type :: "string option"
  max_output_tokens :: "int option"
  budget_usd :: "f64 option"
  user_daily_budget_usd :: "f64 option"
  force_model :: "string option"

record inference_result =
  result_text :: string
  result_model :: string
  result_complexity :: complexity
  result_in :: int
  result_out :: int
  result_cost_usd :: f64
  result_downgraded :: bool
  result_notes :: "routing_note list"
  result_cached :: bool

record service =
  ledger :: ledger
  metrics :: metrics
  autoscaler :: autoscaler
  gate :: gate
  cache :: "memory_cache option"
  rate_limiter :: "limiter option"
  breakers :: breaker_registry
  reads :: nat

definition capacity_for :: "settings \<Rightarrow> int \<Rightarrow> int" where
  "capacity_for s n = max 1 (py_int (fmul (fint n) (target_concurrency_per_replica s)))"

text \<open>\<open>__init__\<close> with the default backends.\<close>

definition new_service :: "settings \<Rightarrow> service" where
  "new_service s = \<lparr>ledger = new_ledger, metrics = new_metrics, autoscaler = new_autoscaler s,
     gate = new_gate (capacity_for s (replicas (new_autoscaler s))),
     cache = (if cache_backend s \<noteq> ''none'' then Some (new_cache (cache_max_entries s)) else None),
     rate_limiter = (if rate_limit_enabled s
       then Some (new_limiter (rate_limit_burst s) (rate_limit_per_second s)) else None),
     breakers = new_registry (breaker_failure_threshold s) (breaker_recovery_timeout_s s),
     reads = 0\<rparr>"

text \<open>The next reading of a clock.\<close>

definition read_clock :: "(nat \<Rightarrow> f64) \<Rightarrow> service \<Rightarrow> f64 \<times> service" where
  "read_clock clock sv = (clock (reads sv), sv\<lparr>reads := reads sv + 1\<rparr>)"

definition count :: "(metrics \<Rightarrow> metrics) \<Rightarrow> service \<Rightarrow> service" where
  "count f sv = sv\<lparr>metrics := f (metrics sv)\<rparr>"

section \<open>Admission steps\<close>

definition check_rate_limit :: "env \<Rightarrow> service \<Rightarrow> string \<Rightarrow> (exc, unit) result \<times> service" where
  "check_rate_limit e sv u =
     (case rate_limiter sv of
        None \<Rightarrow> (Inr (), sv)
      | Some l \<Rightarrow>
          (case read_clock (mono e) sv of (now, sv) \<Rightarrow>
           case RateLimit.check now l u 1 of
             (Inl x, l') \<Rightarrow> (Inl x, count request_rate_limited (sv\<lparr>rate_limiter := Some l'\<rparr>))
           | (Inr _, l') \<Rightarrow> (Inr (), sv\<lparr>rate_limiter := Some l'\<rparr>)))"

definition route_request ::
  "env \<Rightarrow> settings \<Rightarrow> service \<Rightarrow> request \<Rightarrow> (exc, routing_decision) result \<times> service" where
  "route_request e s sv r =
     (case route (tokenizer e) (prompt r) s (task_type r) (max_output_tokens r) (budget_usd r)
             (force_model r) {} of
        Inl x \<Rightarrow> (Inl x, if admission_fault x then count request_rejected sv else sv)
      | Inr d \<Rightarrow> (Inr d, sv))"

definition cache_key :: "env \<Rightarrow> routing_decision \<Rightarrow> string \<Rightarrow> string" where
  "cache_key e d p =
     make_cache_key (digest e) (name (Router.model d)) p (projected_output_tokens d) CACHE_KEY_VERSION"

definition lookup_cache :: "env \<Rightarrow> service \<Rightarrow> routing_decision \<Rightarrow> string \<Rightarrow> cache_entry option \<times> service" where
  "lookup_cache e sv d p =
     (case cache sv of
        None \<Rightarrow> (None, sv)
      | Some c \<Rightarrow>
          (case read_clock (mono e) sv of (now, sv) \<Rightarrow>
           case cache_get now c (cache_key e d p) of
             (Some hit, c') \<Rightarrow> (Some hit, count cache_hit (sv\<lparr>cache := Some c'\<rparr>))
           | (None, c') \<Rightarrow> (None, count cache_miss (sv\<lparr>cache := Some c'\<rparr>))))"

definition user_limit :: "settings \<Rightarrow> request \<Rightarrow> f64" where
  "user_limit s r =
     (case user_daily_budget_usd r of Some b \<Rightarrow> b | None \<Rightarrow> default_user_daily_budget_usd s)"

definition reserve_budget ::
  "env \<Rightarrow> settings \<Rightarrow> service \<Rightarrow> routing_decision \<Rightarrow> request \<Rightarrow> (exc, reservation) result \<times> service" where
  "reserve_budget e s sv d r =
     (case read_clock (wall e) sv of (now, sv') \<Rightarrow>
      case reserve now (fresh_id e (reads sv)) (ledger sv') (user_id r) (projected_cost d) (user_limit s r) of
        (Inl x, L) \<Rightarrow> (Inl x, count request_rejected (sv'\<lparr>ledger := L\<rparr>))
      | (Inr rv, L) \<Rightarrow> (Inr rv, sv'\<lparr>ledger := L\<rparr>))"

definition cached_result :: "routing_decision \<Rightarrow> cache_entry \<Rightarrow> inference_result" where
  "cached_result d c = \<lparr>result_text = entry_text c, result_model = Cache.model c,
     result_complexity = result_tier (complexity d), result_in = Cache.input_tokens c,
     result_out = Cache.output_tokens c, result_cost_usd = 0, result_downgraded = downgraded d,
     result_notes = decision_notes d @ [ServedFromCache], result_cached = True\<rparr>"

definition cache_store ::
  "env \<Rightarrow> settings \<Rightarrow> service \<Rightarrow> routing_decision \<Rightarrow> string \<Rightarrow> string \<Rightarrow> usage \<Rightarrow> service" where
  "cache_store e s sv d p txt u =
     (case cache sv of
        None \<Rightarrow> sv
      | Some k \<Rightarrow>
          (case read_clock (mono e) sv of (now, sv) \<Rightarrow>
           sv\<lparr>cache := Some (cache_set now k (cache_key e d p)
             \<lparr>entry_text = txt, input_tokens = usage_in u, output_tokens = usage_out u, model = name (Router.model d)\<rparr>
             (cache_ttl_s s))\<rparr>))"

text \<open>The first segment of \<open>handle\<close>: an exception, an answer from the cache, or a decision with its
  reservation, on the way to the gate.\<close>

datatype arrival =
    Refused exc
  | FromCache inference_result
  | Holding routing_decision reservation

definition arrive :: "env \<Rightarrow> settings \<Rightarrow> service \<Rightarrow> request \<Rightarrow> arrival \<times> service" where
  "arrive e s sv r =
     (case check_rate_limit e sv (user_id r) of
        (Inl x, sv) \<Rightarrow> (Refused x, sv)
      | (Inr _, sv) \<Rightarrow>
     (case route_request e s sv r of
        (Inl x, sv) \<Rightarrow> (Refused x, sv)
      | (Inr d, sv) \<Rightarrow>
     (case lookup_cache e sv d (prompt r) of
        (Some hit, sv) \<Rightarrow> (FromCache (cached_result d hit), sv)
      | (None, sv) \<Rightarrow>
     (case reserve_budget e s sv d r of
        (Inl x, sv) \<Rightarrow> (Refused x, sv)
      | (Inr rv, sv) \<Rightarrow> (Holding d rv, sv)))))"

text \<open>The timeout branch of \<open>_admit\<close>.\<close>

definition shed :: "settings \<Rightarrow> service \<Rightarrow> reservation \<Rightarrow> (exc \<times> reservation) \<times> service" where
  "shed s sv rv =
     (let sv = count request_shed sv in
      case Ledger.release (ledger sv) rv of
        (L, rv') \<Rightarrow> ((AdmissionTimeoutError (admission_timeout_s s), rv'), sv\<lparr>ledger := L\<rparr>))"

section \<open>Failover\<close>

text \<open>Failing over excludes the current model and routes again; \<open>None\<close> when nothing is left or fallback is off.\<close>

definition next_model :: "env \<Rightarrow> settings \<Rightarrow> request \<Rightarrow> string set \<Rightarrow> (exc, routing_decision) result" where
  "next_model e s r excluded =
     route (tokenizer e) (prompt r) s (task_type r) (max_output_tokens r) (budget_usd r) None excluded"

definition fail_over ::
  "env \<Rightarrow> settings \<Rightarrow> request \<Rightarrow> routing_decision \<Rightarrow> string set \<Rightarrow> (routing_decision \<times> string set) option" where
  "fail_over e s r cur excluded =
     (if \<not> fallback_enabled s \<or> forced (force_model r) then None
      else (let excluded' = insert (name (Router.model cur)) excluded in
        case next_model e s r excluded' of Inl _ \<Rightarrow> None | Inr d \<Rightarrow> Some (d, excluded')))"

lemma fail_over_Some:
  assumes "fail_over e s r cur excluded = Some (d, excluded')"
  shows "excluded' = insert (name (Router.model cur)) excluded"
    and "Router.model d \<in> set (available s excluded')"
    and "next_model e s r excluded' = Inr d"
    and "fallback_enabled s" and "\<not> forced (force_model r)"
  using assms route_safe [where d = d]
  by (auto simp: fail_over_def next_model_def Let_def split: if_splits sum.splits)

text \<open>The loop of \<open>_generate_with_failover\<close> up to the next call of the provider: it skips the models whose
  circuit is open, and gives the model to call or the last error.\<close>

definition untried :: "settings \<Rightarrow> string set \<Rightarrow> nat" where
  "untried s excluded = card (name ` set (catalog s) - excluded)"

lemma untried_less:
  assumes "m \<in> set (available s excluded)"
  shows "untried s (insert (name m) excluded) < untried s excluded"
  unfolding untried_def
proof (rule psubset_card_mono)
  show "finite (name ` set (catalog s) - excluded)" by simp
  show "name ` set (catalog s) - insert (name m) excluded \<subset> name ` set (catalog s) - excluded"
    using assms by (auto simp: available_set)
qed

lemma untried_le: "untried s (insert n excluded) \<le> untried s excluded"
  unfolding untried_def by (intro card_mono) auto

definition seek_measure :: "settings \<Rightarrow> routing_decision \<Rightarrow> string set \<Rightarrow> nat" where
  "seek_measure s cur excluded =
     2 * untried s excluded + (if Router.model cur \<in> set (available s excluded) then 0 else 1)"

lemma fail_over_measure:
  assumes "fail_over e s r cur excluded = Some (d, excluded')"
  shows "seek_measure s d excluded' < seek_measure s cur excluded"
  using fail_over_Some(1,2) [OF assms] untried_less [of "Router.model cur" s excluded]
    untried_le [of s "name (Router.model cur)" excluded]
  by (auto simp: seek_measure_def)

definition circuit_skip :: "env \<Rightarrow> service \<Rightarrow> string \<Rightarrow> breaker \<Rightarrow> exc \<times> service" where
  "circuit_skip e sv n b =
     (case read_clock (mono e) (count request_circuit_rejected sv) of
        (now, sv) \<Rightarrow> (CircuitOpenError n (retry_after_s now b), sv))"

definition ask_breaker :: "env \<Rightarrow> service \<Rightarrow> string \<Rightarrow> bool \<times> breaker \<times> service" where
  "ask_breaker e sv n =
     (case get_breaker (breakers sv) n of (b, R) \<Rightarrow>
      case read_clock (mono e) (sv\<lparr>breakers := R\<rparr>) of (now, sv) \<Rightarrow>
      case allows now b of (ok, b') \<Rightarrow> (ok, b', sv\<lparr>breakers := put_breaker (breakers sv) n b'\<rparr>))"

function seek ::
  "env \<Rightarrow> settings \<Rightarrow> service \<Rightarrow> request \<Rightarrow> routing_decision \<Rightarrow> string set \<Rightarrow>
   (exc, routing_decision \<times> string set) result \<times> service" where
  "seek e s sv r cur excluded =
     (let n = name (Router.model cur) in
      case ask_breaker e sv n of
        (True, b, sv) \<Rightarrow> (Inr (cur, excluded), sv)
      | (False, b, sv) \<Rightarrow>
          (case circuit_skip e sv n b of (last_error, sv) \<Rightarrow>
           case fail_over e s r cur excluded of
             None \<Rightarrow> (Inl last_error, sv)
           | Some (d, excluded') \<Rightarrow> seek e s (count request_failover sv) r d excluded'))"
  by pat_completeness auto
termination
  by (relation "measure (\<lambda>(e, s, sv, r, cur, excluded). seek_measure s cur excluded)")
    (auto dest: fail_over_measure)

declare seek.simps [simp del]

section \<open>The rest of \<open>handle\<close>\<close>

text \<open>Where a request is after a segment: about to call the provider, or finished.\<close>

datatype progress =
    Call routing_decision "string set"
  | Finish "(exc, inference_result) result"

text \<open>The \<open>except Exception\<close> branch with the \<open>finally\<close>: refund, count, give the slot back.\<close>

definition abort :: "service \<Rightarrow> reservation \<Rightarrow> exc \<Rightarrow> progress \<times> reservation \<times> service" where
  "abort sv rv x =
     (case Ledger.release (ledger sv) rv of (L, rv') \<Rightarrow>
      (Finish (Inl x), rv',
       (count (\<lambda>m. request_finished m 0 0 0 False) (sv\<lparr>ledger := L\<rparr>))\<lparr>gate := Gate.release (gate sv)\<rparr>))"

definition proceed ::
  "service \<Rightarrow> reservation \<Rightarrow> (exc, routing_decision \<times> string set) result \<times> service \<Rightarrow>
   progress \<times> reservation \<times> service" where
  "proceed sv rv sought =
     (case sought of
        (Inr (d, excluded), sv) \<Rightarrow> (Call d excluded, rv, sv)
      | (Inl x, sv) \<Rightarrow> abort sv rv x)"

definition begin_generation ::
  "env \<Rightarrow> settings \<Rightarrow> service \<Rightarrow> request \<Rightarrow> reservation \<Rightarrow> routing_decision \<Rightarrow>
   progress \<times> reservation \<times> service" where
  "begin_generation e s sv r rv d =
     (let sv = count request_started sv in proceed sv rv (seek e s sv r d {}))"

text \<open>The provider returned: close the circuit, settle at the price of the model that served, count, store.\<close>

definition provider_returned ::
  "env \<Rightarrow> settings \<Rightarrow> service \<Rightarrow> request \<Rightarrow> reservation \<Rightarrow> routing_decision \<Rightarrow> completion \<Rightarrow>
   progress \<times> reservation \<times> service" where
  "provider_returned e s sv r rv served c =
     (let n = name (Router.model served);
          b = fst (get_breaker (breakers sv) n);
          sv = sv\<lparr>breakers := put_breaker (breakers sv) n (record_success b)\<rparr>;
          actual_cost = cost (Router.model served) (completion_in c) (completion_out c)
      in case read_clock (wall e) sv of (now, sv) \<Rightarrow>
         case settle now (ledger sv) rv actual_cost n (completion_in c) (completion_out c) of (L, rv') \<Rightarrow>
         let sv = count (\<lambda>m. request_finished m (completion_in c) (completion_out c) actual_cost
                    (downgraded served)) (sv\<lparr>ledger := L\<rparr>);
             sv = cache_store e s sv served (prompt r) (completion_text c)
                    \<lparr>usage_in = completion_in c, usage_out = completion_out c\<rparr>;
             result = \<lparr>result_text = completion_text c, result_model = n,
               result_complexity = result_tier (complexity served), result_in = completion_in c,
               result_out = completion_out c, result_cost_usd = round_dec 6 actual_cost,
               result_downgraded = downgraded served, result_notes = decision_notes served,
               result_cached = False\<rparr>
         in (Finish (Inr result), rv', sv\<lparr>gate := Gate.release (gate sv)\<rparr>))"

text \<open>The provider raised: a server fault trips the breaker and fails over, anything else ends the request.\<close>

definition provider_failed ::
  "env \<Rightarrow> settings \<Rightarrow> service \<Rightarrow> request \<Rightarrow> reservation \<Rightarrow> routing_decision \<Rightarrow> string set \<Rightarrow> exc \<Rightarrow>
   progress \<times> reservation \<times> service" where
  "provider_failed e s sv r rv cur excluded x =
     (if \<not> server_fault x then abort sv rv x
      else let n = name (Router.model cur);
               b = fst (get_breaker (breakers sv) n)
           in case read_clock (mono e) sv of (now, sv) \<Rightarrow>
              let sv = sv\<lparr>breakers := put_breaker (breakers sv) n (record_failure now b)\<rparr>
              in case fail_over e s r cur excluded of
                   None \<Rightarrow> abort sv rv x
                 | Some (d, excluded') \<Rightarrow> proceed sv rv (seek e s (count request_failover sv) r d excluded'))"

text \<open>The task is cancelled while it waits for the provider: \<open>CancelledError\<close> is not an \<open>Exception\<close>, so only
  the \<open>finally\<close> runs.\<close>

definition provider_cancelled :: "service \<Rightarrow> service" where
  "provider_cancelled sv = sv\<lparr>gate := Gate.release (gate sv)\<rparr>"

section \<open>Load and scaling\<close>

definition current_load :: "service \<Rightarrow> load_sample" where
  "current_load sv = load_sample.make (active (gate sv)) (waiting (gate sv))"

definition autoscale_tick :: "env \<Rightarrow> settings \<Rightarrow> service \<Rightarrow> (exc, scale_decision) result \<times> service" where
  "autoscale_tick e s sv =
     (let sv = count (\<lambda>m. set_queue_depth m (waiting (gate sv))) sv in
      case read_clock (mono e) sv of (now, sv) \<Rightarrow>
      case read_clock (mono e) sv of (later, sv) \<Rightarrow>
      case scale_step s now later (autoscaler sv) (current_load sv) of
        (Inl x, a) \<Rightarrow> (Inl x, sv\<lparr>autoscaler := a\<rparr>)
      | (Inr d, a) \<Rightarrow>
          (Inr d, if changed d
             then sv\<lparr>autoscaler := a, gate := resize (capacity_for s (desired_replicas d)) (gate sv)\<rparr>
             else sv\<lparr>autoscaler := a\<rparr>))"

end
