(* ===== verification/Streaming.thy ===== *)
theory Streaming
  imports Service
begin

text \<open>
  \<open>app/service.py\<close>, streaming path: \<open>handle_stream\<close> from admission on, as the states in which its generator can
  be suspended. Up to admission it runs the same steps as \<open>handle\<close> (\<open>arrive\<close> and the gate); then it yields
  its events one at a time: suspended at a \<open>yield\<close> it waits for its consumer, who pulls the next event or
  closes it; suspended on the provider's iterator it waits for a chunk, the end, an exception or its own
  cancellation. However it ends, its \<open>finally\<close> computes the usage and hands the bill to a detached task
  (\<open>settle_stream\<close>). \<open>Interleaving.thy\<close> runs streams beside buffered requests.

  \<open>emitted\<close> is history: the events yielded so far.
\<close>

section \<open>Events and states\<close>

datatype stream_event =
    StartEvent string complexity bool bool "routing_note list" f64
  | DeltaEvent string
  | EndEvent string int int f64 bool bool
  | ErrorEvent exc

datatype suspended =
    AtStart
  | AtProvider
  | AtDelta
  | AtEnd
  | AtError exc
  | Settling usage
  | Unbilled exc

record stream =
  suspended_at :: suspended
  pieces :: "string list"
  last_usage :: "usage option"
  completed :: bool
  emitted :: "stream_event list"

definition yield_event :: "stream_event \<Rightarrow> suspended \<Rightarrow> stream \<Rightarrow> stream" where
  "yield_event ev p st = st\<lparr>suspended_at := p, emitted := emitted st @ [ev]\<rparr>"

definition open_stream :: "routing_decision \<Rightarrow> stream" where
  "open_stream d = yield_event
     (StartEvent (name (Router.model d)) (result_tier (complexity d)) (downgraded d) False (decision_notes d)
       (round_dec 6 (projected_cost d)))
     AtStart \<lparr>suspended_at = AtStart, pieces = [], last_usage = None, completed = False, emitted = []\<rparr>"

section \<open>The generator\<close>

text \<open>\<open>usage or Usage(...)\<close>: what the provider reported last, else an estimate of what was delivered.\<close>

definition final_usage :: "env \<Rightarrow> settings \<Rightarrow> routing_decision \<Rightarrow> stream \<Rightarrow> (exc, usage) result" where
  "final_usage e s d st =
     (case last_usage st of
        Some u \<Rightarrow> Inr u
      | None \<Rightarrow>
          bind_result (count_tokens (tokenizer e) (concat (pieces st)) (chars_per_token s)) (\<lambda>n.
            Inr \<lparr>usage_in = Router.input_tokens d, usage_out = n\<rparr>))"

text \<open>The \<open>finally\<close>: the bill goes to a detached task. An exception here leaves the bill unwritten.\<close>

definition finalize :: "env \<Rightarrow> settings \<Rightarrow> routing_decision \<Rightarrow> stream \<Rightarrow> stream" where
  "finalize e s d st =
     (case final_usage e s d st of
        Inr u \<Rightarrow> st\<lparr>suspended_at := Settling u\<rparr>
      | Inl x \<Rightarrow> st\<lparr>suspended_at := Unbilled x\<rparr>)"

text \<open>The \<open>except Exception\<close> branch.\<close>

definition stream_raised :: "exc \<Rightarrow> stream \<Rightarrow> stream" where
  "stream_raised x st = yield_event (ErrorEvent x) (AtError x) st"

definition take_chunk :: "stream_chunk \<Rightarrow> stream \<Rightarrow> stream" where
  "take_chunk c st =
     (let st = (case chunk_usage c of None \<Rightarrow> st | Some u \<Rightarrow> st\<lparr>last_usage := Some u\<rparr>) in
      if chunk_text c \<noteq> []
      then yield_event (DeltaEvent (chunk_text c)) AtDelta (st\<lparr>pieces := pieces st @ [chunk_text c]\<rparr>)
      else st\<lparr>suspended_at := AtProvider\<rparr>)"

definition end_event :: "routing_decision \<Rightarrow> usage \<Rightarrow> stream_event" where
  "end_event d u = EndEvent (name (Router.model d)) (usage_in u) (usage_out u)
     (round_dec 6 (cost (Router.model d) (usage_in u) (usage_out u))) (downgraded d) False"

definition provider_done :: "env \<Rightarrow> settings \<Rightarrow> routing_decision \<Rightarrow> stream \<Rightarrow> stream" where
  "provider_done e s d st =
     (let st = st\<lparr>completed := True\<rparr> in
      case final_usage e s d st of
        Inr u \<Rightarrow> yield_event (end_event d u) AtEnd st
      | Inl x \<Rightarrow> stream_raised x st)"

text \<open>What can happen to a suspended generator. \<open>Closed\<close> is \<open>aclose()\<close> at a \<open>yield\<close> (the client went away)
  and the cancellation of the task while it waits for the provider; both run the \<open>finally\<close> only.\<close>

datatype stream_input =
    Pulled
  | Chunk stream_chunk
  | Exhausted
  | Raised exc
  | Closed

fun stream_next :: "env \<Rightarrow> settings \<Rightarrow> routing_decision \<Rightarrow> stream_input \<Rightarrow> stream \<Rightarrow> stream option" where
  "stream_next e s d Pulled st =
     (case suspended_at st of
        AtStart \<Rightarrow> Some (st\<lparr>suspended_at := AtProvider\<rparr>)
      | AtDelta \<Rightarrow> Some (st\<lparr>suspended_at := AtProvider\<rparr>)
      | AtEnd \<Rightarrow> Some (finalize e s d st)
      | AtError x \<Rightarrow> Some (finalize e s d st)
      | _ \<Rightarrow> None)"
| "stream_next e s d (Chunk c) st = (if suspended_at st = AtProvider then Some (take_chunk c st) else None)"
| "stream_next e s d Exhausted st = (if suspended_at st = AtProvider then Some (provider_done e s d st) else None)"
| "stream_next e s d (Raised x) st = (if suspended_at st = AtProvider then Some (stream_raised x st) else None)"
| "stream_next e s d Closed st =
     (case suspended_at st of Settling u \<Rightarrow> None | Unbilled x \<Rightarrow> None | _ \<Rightarrow> Some (finalize e s d st))"

section \<open>The detached settlement\<close>

text \<open>\<open>_run\<close> of \<open>_finalize_later\<close>: settle, store a complete answer, count, give the slot back. The result it
  leaves, in the shape of a buffered one, records what the stream delivered and what was billed.\<close>

definition stream_result :: "routing_decision \<Rightarrow> stream \<Rightarrow> usage \<Rightarrow> inference_result" where
  "stream_result d st u = \<lparr>result_text = concat (pieces st), result_model = name (Router.model d),
     result_complexity = result_tier (complexity d), result_in = usage_in u, result_out = usage_out u,
     result_cost_usd = round_dec 6 (cost (Router.model d) (usage_in u) (usage_out u)),
     result_downgraded = downgraded d, result_notes = decision_notes d, result_cached = False\<rparr>"

definition settle_stream ::
  "env \<Rightarrow> settings \<Rightarrow> service \<Rightarrow> request \<Rightarrow> reservation \<Rightarrow> routing_decision \<Rightarrow> stream \<Rightarrow> usage \<Rightarrow>
   progress \<times> reservation \<times> service" where
  "settle_stream e s sv r rv d st u =
     (let c = cost (Router.model d) (usage_in u) (usage_out u) in
      case read_clock (wall e) sv of (now, sv) \<Rightarrow>
      case settle now (ledger sv) rv c (name (Router.model d)) (usage_in u) (usage_out u) of (L, rv') \<Rightarrow>
      let sv = sv\<lparr>ledger := L\<rparr>;
          sv = (if completed st then cache_store e s sv d (prompt r) (concat (pieces st)) u else sv);
          sv = count (\<lambda>m. request_finished m (usage_in u) (usage_out u) c (downgraded d)) sv
      in (Finish (Inr (stream_result d st u)), rv', sv\<lparr>gate := Gate.release (gate sv)\<rparr>))"

section \<open>A cached answer as a stream\<close>

definition replay_cached :: "routing_decision \<Rightarrow> cache_entry \<Rightarrow> stream_event list" where
  "replay_cached d c =
     [StartEvent (Cache.model c) (result_tier (complexity d)) (downgraded d) True
        (decision_notes d @ [ServedFromCache]) 0]
     @ (if entry_text c \<noteq> [] then [DeltaEvent (entry_text c)] else [])
     @ [EndEvent (Cache.model c) (Cache.input_tokens c) (Cache.output_tokens c) 0 (downgraded d) True]"

section \<open>The protocol\<close>

text \<open>A stream as its inputs drive it.\<close>

inductive stream_run :: "env \<Rightarrow> settings \<Rightarrow> routing_decision \<Rightarrow> stream \<Rightarrow> bool"
  for e :: env and s :: settings and d :: routing_decision where
  run_open: "stream_run e s d (open_stream d)"
| run_next: "stream_run e s d st \<Longrightarrow> stream_next e s d i st = Some st' \<Longrightarrow> stream_run e s d st'"

text \<open>The same runs as a function, for evaluation.\<close>

fun stream_exec :: "env \<Rightarrow> settings \<Rightarrow> routing_decision \<Rightarrow> stream_input list \<Rightarrow> stream \<Rightarrow> stream option" where
  "stream_exec e s d [] st = Some st"
| "stream_exec e s d (i # is) st =
     (case stream_next e s d i st of None \<Rightarrow> None | Some st' \<Rightarrow> stream_exec e s d is st')"

lemma stream_exec_run: "stream_run e s d st \<Longrightarrow> stream_exec e s d is st = Some st' \<Longrightarrow> stream_run e s d st'"
  by (induction "is" arbitrary: st) (auto split: option.splits intro: run_next)

fun delta_text :: "stream_event \<Rightarrow> string" where
  "delta_text (DeltaEvent x) = x"
| "delta_text ev = []"

fun is_delta :: "stream_event \<Rightarrow> bool" where
  "is_delta (DeltaEvent x) \<longleftrightarrow> x \<noteq> []"
| "is_delta ev \<longleftrightarrow> False"

fun is_start :: "stream_event \<Rightarrow> bool" where
  "is_start (StartEvent m c g ca ns p) = True"
| "is_start ev = False"

text \<open>The events of a stream: one start, the deltas, and at most one end or error.\<close>

definition well_formed_stream :: "stream_event list \<Rightarrow> bool" where
  "well_formed_stream evs \<longleftrightarrow>
     (\<exists>b ds fin. evs = b # ds @ fin \<and> is_start b \<and> list_all is_delta ds \<and>
        (fin = [] \<or> (\<exists>ev. fin = [ev] \<and> \<not> is_start ev \<and> \<not> is_delta ev)))"

text \<open>How far a stream is, as a function of where it is suspended.\<close>

definition stream_ok :: "env \<Rightarrow> settings \<Rightarrow> routing_decision \<Rightarrow> stream \<Rightarrow> bool" where
  "stream_ok e s d st \<longleftrightarrow>
     (\<exists>fin. emitted st = emitted (open_stream d) @ map DeltaEvent (pieces st) @ fin \<and>
        list_all (\<lambda>x. x \<noteq> []) (pieces st) \<and>
        (case suspended_at st of
           AtEnd \<Rightarrow> \<exists>u. final_usage e s d st = Inr u \<and> fin = [end_event d u] \<and> completed st
         | AtError x \<Rightarrow> fin = [ErrorEvent x] \<and> (completed st \<longrightarrow> (\<exists>y. final_usage e s d st = Inl y))
         | Settling u \<Rightarrow> final_usage e s d st = Inr u \<and>
             (fin = [end_event d u] \<and> completed st \<or> (\<exists>x. fin = [ErrorEvent x] \<and> \<not> completed st) \<or>
              fin = [] \<and> \<not> completed st)
         | Unbilled x \<Rightarrow> final_usage e s d st = Inl x \<and> (fin = [] \<or> (\<exists>y. fin = [ErrorEvent y]))
         | _ \<Rightarrow> fin = [] \<and> \<not> completed st))"


lemma final_usage_at [simp]:
  "final_usage e s d (st\<lparr>suspended_at := p\<rparr>) = final_usage e s d st"
  "final_usage e s d (st\<lparr>emitted := evs\<rparr>) = final_usage e s d st"
  "final_usage e s d (st\<lparr>completed := b\<rparr>) = final_usage e s d st"
  by (simp_all add: final_usage_def cong: option.case_cong)

lemmas stream_defs = yield_event_def stream_raised_def finalize_def take_chunk_def provider_done_def Let_def

lemma stream_ok_open: "stream_ok e s d (open_stream d)"
  by (simp add: stream_ok_def open_stream_def yield_event_def)

lemma stream_ok_next: "stream_ok e s d st \<Longrightarrow> stream_next e s d i st = Some st' \<Longrightarrow> stream_ok e s d st'"
  by (cases i)
    (auto simp: stream_ok_def stream_defs split: suspended.splits sum.splits option.splits if_splits)

lemma stream_ok_run: "stream_run e s d st \<Longrightarrow> stream_ok e s d st"
  by (induction rule: stream_run.induct) (auto intro: stream_ok_open stream_ok_next)

text \<open>What a stream did, from where it stands.\<close>

lemma stream_okE:
  assumes "stream_run e s d st"
  obtains fin where "emitted st = emitted (open_stream d) @ map DeltaEvent (pieces st) @ fin"
    and "list_all (\<lambda>x. x \<noteq> []) (pieces st)"
    and "fin = [] \<or> (\<exists>u. fin = [end_event d u]) \<or> (\<exists>x. fin = [ErrorEvent x])"
proof -
  obtain fin where fin: "emitted st = emitted (open_stream d) @ map DeltaEvent (pieces st) @ fin"
    "list_all (\<lambda>x. x \<noteq> []) (pieces st)"
    "case suspended_at st of
       AtEnd \<Rightarrow> \<exists>u. final_usage e s d st = Inr u \<and> fin = [end_event d u] \<and> completed st
     | AtError x \<Rightarrow> fin = [ErrorEvent x] \<and> (completed st \<longrightarrow> (\<exists>y. final_usage e s d st = Inl y))
     | Settling u \<Rightarrow> final_usage e s d st = Inr u \<and>
         (fin = [end_event d u] \<and> completed st \<or> (\<exists>x. fin = [ErrorEvent x] \<and> \<not> completed st) \<or>
          fin = [] \<and> \<not> completed st)
     | Unbilled x \<Rightarrow> final_usage e s d st = Inl x \<and> (fin = [] \<or> (\<exists>y. fin = [ErrorEvent y]))
     | _ \<Rightarrow> fin = [] \<and> \<not> completed st"
    using stream_ok_run [OF assms] unfolding stream_ok_def by blast
  from fin(3) have "fin = [] \<or> (\<exists>u. fin = [end_event d u]) \<or> (\<exists>x. fin = [ErrorEvent x])"
    by (cases "suspended_at st") auto
  with fin(1,2) that show thesis by blast
qed

lemma settlingE:
  assumes "stream_run e s d st" "suspended_at st = Settling u"
  obtains fin where "emitted st = emitted (open_stream d) @ map DeltaEvent (pieces st) @ fin"
    and "final_usage e s d st = Inr u"
    and "fin = [end_event d u] \<and> completed st \<or> (\<exists>x. fin = [ErrorEvent x]) \<and> \<not> completed st \<or>
      fin = [] \<and> \<not> completed st"
  using stream_ok_run [OF assms(1)] assms(2) unfolding stream_ok_def by auto

lemma open_events: "\<exists>b. emitted (open_stream d) = [b] \<and> is_start b \<and> delta_text b = []"
  by (simp add: open_stream_def yield_event_def)

lemma delta_events [simp]: "map (delta_text \<circ> DeltaEvent) xs = xs" "list_all is_delta (map DeltaEvent xs) = list_all (\<lambda>x. x \<noteq> []) xs"
  by (induction xs) simp_all

lemma stream_deltas:
  assumes "stream_run e s d st"
  shows "concat (map delta_text (emitted st)) = concat (pieces st)"
proof -
  obtain fin where f: "emitted st = emitted (open_stream d) @ map DeltaEvent (pieces st) @ fin"
    "fin = [] \<or> (\<exists>u. fin = [end_event d u]) \<or> (\<exists>x. fin = [ErrorEvent x])"
    using stream_okE [OF assms] .
  obtain b where b: "emitted (open_stream d) = [b]" "delta_text b = []" using open_events by blast
  have "concat (map delta_text fin) = []" using f(2) by (auto simp: end_event_def)
  with f(1) b show ?thesis by simp
qed

lemma final_usage_total: "chars_per_token s \<noteq> 0 \<Longrightarrow> \<exists>u. final_usage e s d st = Inr u"
proof (cases "last_usage st")
  case None
  assume "chars_per_token s \<noteq> 0"
  from count_tokens_total [OF this] obtain n where
    "count_tokens (tokenizer e) (concat (pieces st)) (chars_per_token s) = Inr n" by blast
  with None show ?thesis by (simp add: final_usage_def)
qed (simp add: final_usage_def)

lemma stream_billed_usage:
  assumes "stream_run e s d st" "final_usage e s d st = Inr u"
  shows "case last_usage st of
            Some v \<Rightarrow> u = v
          | None \<Rightarrow> usage_in u = Router.input_tokens d \<and>
              count_tokens (tokenizer e) (concat (map delta_text (emitted st))) (chars_per_token s) = Inr (usage_out u)"
  unfolding stream_deltas [OF assms(1)]
  using assms(2) by (auto simp: final_usage_def bind_result_Inr_iff split: option.splits)

lemma stream_end_sent:
  assumes "stream_run e s d st" "suspended_at st = Settling u"
  shows "completed st \<longleftrightarrow> end_event d u \<in> set (emitted st)"
    and "{ev \<in> set (emitted st). \<not> is_start ev \<and> \<not> is_delta ev} \<subseteq> insert (end_event d u) (range ErrorEvent)"
    and "final_usage e s d st = Inr u"
proof -
  obtain fin where f: "emitted st = emitted (open_stream d) @ map DeltaEvent (pieces st) @ fin"
    and u: "final_usage e s d st = Inr u"
    and fin: "fin = [end_event d u] \<and> completed st \<or> (\<exists>x. fin = [ErrorEvent x]) \<and> \<not> completed st \<or>
      fin = [] \<and> \<not> completed st"
    using settlingE [OF assms] .
  obtain b where b: "emitted (open_stream d) = [b]" "is_start b" using open_events by blast
  have d: "is_delta x" if "x \<in> DeltaEvent ` set (pieces st)" for x
  proof -
    obtain gin where "list_all (\<lambda>x. x \<noteq> []) (pieces st)" using stream_okE [OF assms(1)] .
    with that show ?thesis by (auto simp: list_all_iff)
  qed
  have set: "set (emitted st) = insert b (DeltaEvent ` set (pieces st) \<union> set fin)" by (simp add: f b)
  have nd: "\<not> is_delta (end_event d u)" "\<not> is_start (end_event d u)" by (simp_all add: end_event_def)
  have "end_event d u \<in> set (emitted st) \<longleftrightarrow> end_event d u \<in> set fin"
    using d nd b(2) unfolding set by blast
  with fin show "completed st \<longleftrightarrow> end_event d u \<in> set (emitted st)" by (auto simp: end_event_def)
  have "{ev \<in> set (emitted st). \<not> is_start ev \<and> \<not> is_delta ev} \<subseteq> set fin"
    using d b(2) unfolding set by blast
  also have "\<dots> \<subseteq> insert (end_event d u) (range ErrorEvent)" using fin by auto
  finally show "{ev \<in> set (emitted st). \<not> is_start ev \<and> \<not> is_delta ev} \<subseteq>
    insert (end_event d u) (range ErrorEvent)" .
  show "final_usage e s d st = Inr u" by (rule u)
qed

lemma stream_well_formed:
  assumes "stream_run e s d st"
  shows "well_formed_stream (emitted st)"
proof -
  obtain fin where f: "emitted st = emitted (open_stream d) @ map DeltaEvent (pieces st) @ fin"
    "list_all (\<lambda>x. x \<noteq> []) (pieces st)" "fin = [] \<or> (\<exists>u. fin = [end_event d u]) \<or> (\<exists>x. fin = [ErrorEvent x])"
    using stream_okE [OF assms] .
  obtain b where b: "emitted (open_stream d) = [b]" "is_start b" using open_events by blast
  have fin: "fin = [] \<or> (\<exists>ev. fin = [ev] \<and> \<not> is_start ev \<and> \<not> is_delta ev)"
    using f(3) by (auto simp: end_event_def)
  show ?thesis
    unfolding well_formed_stream_def f(1) b(1) using b(2) f(2) fin
    by (intro exI [of _ b] exI [of _ "map DeltaEvent (pieces st)"] exI [of _ fin]) simp
qed

lemma replay_well_formed:
  "well_formed_stream (replay_cached d c) \<and> concat (map delta_text (replay_cached d c)) = entry_text c"
proof -
  let ?ds = "if entry_text c \<noteq> [] then [DeltaEvent (entry_text c)] else []"
  let ?b = "StartEvent (Cache.model c) (result_tier (complexity d)) (downgraded d) True
        (decision_notes d @ [ServedFromCache]) 0"
  let ?e = "EndEvent (Cache.model c) (Cache.input_tokens c) (Cache.output_tokens c) 0 (downgraded d) True"
  have "replay_cached d c = ?b # ?ds @ [?e]" by (simp add: replay_cached_def)
  then show ?thesis
    unfolding well_formed_stream_def
    by (intro conjI exI [of _ ?b] exI [of _ ?ds] exI [of _ "[?e]"]) simp_all
qed

lemma stream_closes:
  assumes "stream_run e s d st" "chars_per_token s \<noteq> 0"
  shows "\<exists>u. suspended_at st = Settling u \<or>
    (\<exists>st'. stream_next e s d Closed st = Some st' \<and> suspended_at st' = Settling u)"
proof -
  obtain u where u: "final_usage e s d st = Inr u"
    using final_usage_total [OF assms(2)] by blast
  have ok: "stream_ok e s d st" using assms(1) by (rule stream_ok_run)
  show ?thesis
  proof (cases "suspended_at st")
    case (Unbilled x)
    with ok u show ?thesis by (auto simp: stream_ok_def)
  qed (use u in \<open>auto simp: finalize_def\<close>)
qed

section \<open>Properties\<close>

text \<open>C20. A stream speaks the protocol, wherever it is interrupted: one start event, then the non-empty pieces in
  order, then nothing, one end event or one error event; the texts of its deltas put together are the text
  it accumulated. A cached answer replayed as a stream has the same shape and the cached text.\<close>

theorem stream_speaks_protocol:
  assumes "stream_run e s d st"
  shows "well_formed_stream (emitted st) \<and> concat (map delta_text (emitted st)) = concat (pieces st) \<and>
    well_formed_stream (replay_cached d' c) \<and> concat (map delta_text (replay_cached d' c)) = entry_text c"
  using stream_well_formed [OF assms] stream_deltas [OF assms] replay_well_formed by blast

theorem stream_speaks_protocol_witness:
  "\<forall>e s d. case stream_exec e s d [Pulled, Chunk \<lparr>chunk_text = ''hi'', finish_reason = None, chunk_usage = None\<rparr>, Closed]
       (open_stream d) of Some st \<Rightarrow> well_formed_stream (emitted st) | None \<Rightarrow> False"
proof (intro allI, goal_cases)
  case (1 e s d)
  let ?is = "[Pulled, Chunk \<lparr>chunk_text = ''hi'', finish_reason = None, chunk_usage = None\<rparr>, Closed]"
  obtain st where st: "stream_exec e s d ?is (open_stream d) = Some st"
    by (simp add: open_stream_def stream_defs)
  from stream_speaks_protocol [OF stream_exec_run [OF run_open st]] st show ?case by (simp del: stream_exec.simps)
qed

text \<open>A stream is billed for what its client was told: when the bill is handed over, the usage in it is the
  last one the provider reported or, when it reported none, an estimate of exactly the text that was
  delivered; an end event was sent if and only if the provider's stream was exhausted (and only then is the
  answer stored in the cache), and it carries this very usage and its price.\<close>

theorem stream_bill_is_what_was_told:
  assumes "stream_run e s d st" "suspended_at st = Settling u"
  shows "(case last_usage st of
            Some v \<Rightarrow> u = v
          | None \<Rightarrow> usage_in u = Router.input_tokens d \<and>
              count_tokens (tokenizer e) (concat (map delta_text (emitted st))) (chars_per_token s) = Inr (usage_out u)) \<and>
    (completed st = (end_event d u \<in> set (emitted st))) \<and>
    {ev \<in> set (emitted st). \<not> is_start ev \<and> \<not> is_delta ev} \<subseteq> insert (end_event d u) (range ErrorEvent)"
  using stream_end_sent [OF assms] stream_billed_usage [OF assms(1) stream_end_sent(3) [OF assms]] by blast

theorem stream_bill_is_what_was_told_witness:
  "\<forall>e s d. case stream_exec e s d [Pulled, Chunk \<lparr>chunk_text = ''hi'', finish_reason = None, chunk_usage = None\<rparr>, Pulled,
       Chunk \<lparr>chunk_text = [], finish_reason = Some ''stop'', chunk_usage = Some \<lparr>usage_in = 3, usage_out = 1\<rparr>\<rparr>,
       Exhausted, Pulled] (open_stream d) of
     Some st \<Rightarrow> suspended_at st = Settling \<lparr>usage_in = 3, usage_out = 1\<rparr> \<and>
       end_event d \<lparr>usage_in = 3, usage_out = 1\<rparr> \<in> set (emitted st)
   | None \<Rightarrow> False"
proof (intro allI, goal_cases)
  case (1 e s d)
  let ?is = "[Pulled, Chunk \<lparr>chunk_text = ''hi'', finish_reason = None, chunk_usage = None\<rparr>, Pulled,
       Chunk \<lparr>chunk_text = [], finish_reason = Some ''stop'', chunk_usage = Some \<lparr>usage_in = 3, usage_out = 1\<rparr>\<rparr>,
       Exhausted, Pulled]"
  obtain st where st: "stream_exec e s d ?is (open_stream d) = Some st"
    and u: "suspended_at st = Settling \<lparr>usage_in = 3, usage_out = 1\<rparr>" and c: "completed st"
    by (simp add: open_stream_def stream_defs final_usage_def)
  from stream_bill_is_what_was_told [OF stream_exec_run [OF run_open st] u] st u c show ?case by simp
qed

text \<open>No stream escapes its bill: with a usable characters-per-token ratio, at every point of a stream the bill
  has been handed over already, or closing the stream there (which is what a lost client or a cancelled task
  does) hands it over.\<close>

theorem stream_always_settles:
  assumes "stream_run e s d st" "chars_per_token s \<noteq> 0"
  shows "\<exists>u. suspended_at st = Settling u \<or>
    (\<exists>st'. stream_next e s d Closed st = Some st' \<and> suspended_at st' = Settling u)"
  using stream_closes [OF assms] .

theorem stream_always_settles_witness:
  "\<forall>e d. \<exists>u st'. stream_next e default_settings d Closed (open_stream d) = Some st' \<and> suspended_at st' = Settling u"
proof (intro allI, goal_cases)
  case (1 e d)
  from stream_always_settles [OF run_open [of e default_settings d]] show ?case
    by (auto simp: open_stream_def yield_event_def default_settings_def)
qed

text \<open>A truncated answer is never cached: unless its end event was sent, the settlement of a stream leaves the
  cache as it is; and when it was sent, what is stored is the whole text that was delivered.\<close>

theorem truncated_stream_is_not_cached:
  assumes "stream_run e s d st" "suspended_at st = Settling u"
    and "settle_stream e s sv r rv d st u = (out, rv', sv')"
  shows "cache sv' = (if end_event d u \<in> set (emitted st)
    then cache (cache_store e s (snd (read_clock (wall e) sv)) d (prompt r)
      (concat (map delta_text (emitted st))) u)
    else cache sv)"
proof -
  have c: "completed st \<longleftrightarrow> end_event d u \<in> set (emitted st)"
    by (rule stream_end_sent(1) [OF assms(1,2)])
  have cs: "cache (cache_store e s (v\<lparr>ledger := L\<rparr>) d p x u) = cache (cache_store e s v d p x u)" for v L p x
    by (auto simp: cache_store_def read_clock_def split: option.splits)
  show ?thesis
    using assms(3) unfolding c [symmetric] stream_deltas [OF assms(1)]
    by (auto simp: settle_stream_def Let_def read_clock_def count_def cs split: prod.splits)
qed

theorem truncated_stream_is_not_cached_witness:
  "\<forall>e s sv r rv d. \<exists>st rv' sv' out. settle_stream e s sv r rv d st \<lparr>usage_in = 3, usage_out = 1\<rparr> = (out, rv', sv') \<and>
     pieces st = [''hi''] \<and> cache sv' = cache sv"
proof (intro allI, goal_cases)
  case (1 e s sv r rv d)
  let ?is = "[Pulled, Chunk \<lparr>chunk_text = ''hi'', finish_reason = None,
       chunk_usage = Some \<lparr>usage_in = 3, usage_out = 1\<rparr>\<rparr>, Pulled, Raised ProviderTimeoutError, Pulled]"
  obtain st where st: "stream_exec e s d ?is (open_stream d) = Some st" "pieces st = [''hi'']"
    and u: "suspended_at st = Settling \<lparr>usage_in = 3, usage_out = 1\<rparr>"
    and no: "end_event d \<lparr>usage_in = 3, usage_out = 1\<rparr> \<notin> set (emitted st)"
    by (simp add: open_stream_def stream_defs final_usage_def end_event_def)
  obtain out rv' sv' where o: "settle_stream e s sv r rv d st \<lparr>usage_in = 3, usage_out = 1\<rparr> = (out, rv', sv')"
    by (metis prod_cases3)
  from truncated_stream_is_not_cached [OF stream_exec_run [OF run_open st(1)] u o] no o st(2)
  show ?case by auto
qed

end
