(* ===== verification/Interleaving.thy ===== *)
theory Interleaving
  imports Streaming
begin

text \<open>
  Any number of concurrent requests on one service: every request is a task that goes through the segments
  of \<open>Service.thy\<close>, and \<open>svc_step\<close> interleaves the segments of all tasks with the steps of the gate
  (\<open>Gate.thy\<close>), the timeouts of \<open>asyncio.wait_for\<close> and the ticks of the autoscaler. The provider's
  answers are events: it may return any completion or raise any exception, at any time, and the task of a request
  can be cancelled wherever it is suspended: while it waits for a slot (\<open>GiveUp\<close>, \<open>Leave\<close>), for the provider
  (\<open>CancelCall\<close>) or inside its stream (the input \<open>Closed\<close>). A cancelled request ends as \<open>Dropped\<close>, with the mark
  whether \<open>request_started\<close> had counted it.

  Beside the service, a world records what the tasks are doing: the phase of every request that obtained a
  reservation, the answers of those that did not need one, and, as history, the tasks that hold a slot, those
  that are counted as in flight and those that were served, in order. \<open>books_ok\<close> is the invariant that ties
  ledger, gate and metrics to these.
\<close>

section \<open>Worlds and steps\<close>

datatype phase =
    Reserved
  | Queued
  | Leaving
  | Admitted
  | Calling routing_decision "string set"
  | Streaming stream
  | Dropped bool
  | Done "(exc, inference_result) result"

record job =
  job_request :: request
  job_decision :: routing_decision
  job_reservation :: reservation
  job_phase :: phase

record world =
  svc :: service
  jobs :: "task \<Rightarrow> job option"
  answers :: "task \<Rightarrow> (exc, inference_result) result option"
  holding :: "task list"
  calling :: "task list"
  served :: "task list"

definition new_svc_world :: "settings \<Rightarrow> world" where
  "new_svc_world s = \<lparr>svc = new_service s, jobs = Map.empty, answers = Map.empty, holding = [],
     calling = [], served = []\<rparr>"

datatype svc_event =
    Arrive task request
  | Enter task
  | WakeUp task
  | Expire task
  | Shed task
  | Begin task
  | Reply task completion
  | Fault task exc
  | CancelCall task
  | GiveUp task
  | Leave task
  | OpenStream task
  | Stream task stream_input
  | SettleStream task
  | Tick

definition put_job :: "world \<Rightarrow> task \<Rightarrow> job \<Rightarrow> world" where
  "put_job w t j = w\<lparr>jobs := (jobs w)(t \<mapsto> j)\<rparr>"

definition set_gate :: "world \<Rightarrow> gate \<Rightarrow> world" where
  "set_gate w g = w\<lparr>svc := (svc w)\<lparr>gate := g\<rparr>\<rparr>"

text \<open>The result of trying to take a slot.\<close>

definition at_gate :: "world \<Rightarrow> task \<Rightarrow> job \<Rightarrow> bool \<times> gate \<Rightarrow> world" where
  "at_gate w t j got =
     (let w = put_job (set_gate w (snd got)) t (j\<lparr>job_phase := (if fst got then Admitted else Queued)\<rparr>)
      in if fst got then w\<lparr>holding := t # holding w\<rparr> else w)"

text \<open>A shed request leaves with its refund.\<close>

definition leave_shed :: "settings \<Rightarrow> world \<Rightarrow> task \<Rightarrow> job \<Rightarrow> world" where
  "leave_shed s w t j =
     (case shed s (svc w) (job_reservation j) of ((x, rv), sv) \<Rightarrow>
      put_job (w\<lparr>svc := sv\<rparr>) t (j\<lparr>job_reservation := rv, job_phase := Done (Inl x)\<rparr>))"

text \<open>Where a segment leaves a request that holds a slot.\<close>

definition land :: "world \<Rightarrow> task \<Rightarrow> job \<Rightarrow> progress \<times> reservation \<times> service \<Rightarrow> world" where
  "land w t j out =
     (case out of (progress, rv, sv) \<Rightarrow>
      case progress of
        Call d excluded \<Rightarrow>
          put_job (w\<lparr>svc := sv\<rparr>) t (j\<lparr>job_reservation := rv, job_phase := Calling d excluded\<rparr>)
      | Finish answer \<Rightarrow>
          (put_job (w\<lparr>svc := sv\<rparr>) t (j\<lparr>job_reservation := rv, job_phase := Done answer\<rparr>))
            \<lparr>holding := remove1 t (holding w), calling := remove1 t (calling w),
             served := (case answer of Inr _ \<Rightarrow> served w @ [t] | Inl _ \<Rightarrow> served w)\<rparr>)"

text \<open>The task is cancelled while it waits for the provider: only the \<open>finally\<close> runs.\<close>

definition drop_call :: "world \<Rightarrow> task \<Rightarrow> job \<Rightarrow> world" where
  "drop_call w t j =
     (put_job (w\<lparr>svc := provider_cancelled (svc w)\<rparr>) t (j\<lparr>job_phase := Dropped True\<rparr>))\<lparr>holding := remove1 t (holding w)\<rparr>"

lemma drop_call_frame [simp]: "svc (drop_call w t j) = provider_cancelled (svc w)"
  "jobs (drop_call w t j) = (jobs w)(t \<mapsto> j\<lparr>job_phase := Dropped True\<rparr>)"
  by (simp_all add: drop_call_def put_job_def)

text \<open>A task that is cancelled in the queue makes \<open>asyncio.wait_for\<close> cancel the future of its \<open>acquire\<close> and wait for it
  to unwind; then \<open>CancelledError\<close> leaves \<open>_admit\<close>, whose only handler is the one of the timeout.\<close>

inductive svc_step :: "env \<Rightarrow> settings \<Rightarrow> world \<Rightarrow> svc_event \<Rightarrow> world \<Rightarrow> bool"
  for e :: env and s :: settings where
  step_refused: "jobs w t = None \<Longrightarrow> answers w t = None \<Longrightarrow> arrive e s (svc w) r = (Refused x, sv) \<Longrightarrow>
    svc_step e s w (Arrive t r) (w\<lparr>svc := sv, answers := (answers w)(t \<mapsto> Inl x)\<rparr>)"
| step_cached: "jobs w t = None \<Longrightarrow> answers w t = None \<Longrightarrow> arrive e s (svc w) r = (FromCache res, sv) \<Longrightarrow>
    svc_step e s w (Arrive t r) (w\<lparr>svc := sv, answers := (answers w)(t \<mapsto> Inr res)\<rparr>)"
| step_holding: "jobs w t = None \<Longrightarrow> answers w t = None \<Longrightarrow> arrive e s (svc w) r = (Holding d rv, sv) \<Longrightarrow>
    svc_step e s w (Arrive t r)
      (put_job (w\<lparr>svc := sv\<rparr>) t
        \<lparr>job_request = r, job_decision = d, job_reservation = rv, job_phase = Reserved\<rparr>)"
| step_enter: "jobs w t = Some j \<Longrightarrow> job_phase j = Reserved \<Longrightarrow>
    svc_step e s w (Enter t) (at_gate w t j (acquire t (gate (svc w))))"
| step_wake_up: "jobs w t = Some j \<Longrightarrow> job_phase j = Queued \<Longrightarrow>
    (t, Notified) \<in> set (waiters (gate (svc w))) \<Longrightarrow>
    svc_step e s w (WakeUp t) (at_gate w t j (wake t (gate (svc w))))"
| step_expire_entering: "jobs w t = Some j \<Longrightarrow> job_phase j = Reserved \<Longrightarrow> 0 < admission_timeout_s s \<Longrightarrow>
    svc_step e s w (Expire t) (leave_shed s w t j)"
| step_expire_waiting: "jobs w t = Some j \<Longrightarrow> job_phase j = Queued \<Longrightarrow> 0 < admission_timeout_s s \<Longrightarrow>
    svc_step e s w (Expire t) (set_gate w (cancel t (gate (svc w))))"
| step_shed: "jobs w t = Some j \<Longrightarrow> job_phase j = Queued \<Longrightarrow>
    (t, Cancelling) \<in> set (waiters (gate (svc w))) \<Longrightarrow>
    svc_step e s w (Shed t) (leave_shed s (set_gate w (unwind t (gate (svc w)))) t j)"
| step_begin: "jobs w t = Some j \<Longrightarrow> job_phase j = Admitted \<Longrightarrow>
    svc_step e s w (Begin t)
      (land (w\<lparr>calling := t # calling w\<rparr>) t j
        (begin_generation e s (svc w) (job_request j) (job_reservation j) (job_decision j)))"
| step_reply: "jobs w t = Some j \<Longrightarrow> job_phase j = Calling d excluded \<Longrightarrow>
    svc_step e s w (Reply t c)
      (land w t j (provider_returned e s (svc w) (job_request j) (job_reservation j) d c))"
| step_fault: "jobs w t = Some j \<Longrightarrow> job_phase j = Calling d excluded \<Longrightarrow>
    svc_step e s w (Fault t x)
      (land w t j (provider_failed e s (svc w) (job_request j) (job_reservation j) d excluded x))"
| step_cancel_call: "jobs w t = Some j \<Longrightarrow> job_phase j = Calling d excluded \<Longrightarrow>
    svc_step e s w (CancelCall t) (drop_call w t j)"
| step_give_up_entering: "jobs w t = Some j \<Longrightarrow> job_phase j = Reserved \<Longrightarrow> 0 < admission_timeout_s s \<Longrightarrow>
    svc_step e s w (GiveUp t) (put_job w t (j\<lparr>job_phase := Dropped False\<rparr>))"
| step_give_up_waiting: "jobs w t = Some j \<Longrightarrow> job_phase j = Queued \<Longrightarrow>
    svc_step e s w (GiveUp t) (put_job (set_gate w (cancel t (gate (svc w)))) t (j\<lparr>job_phase := Leaving\<rparr>))"
| step_leave: "jobs w t = Some j \<Longrightarrow> job_phase j = Leaving \<Longrightarrow>
    (t, Cancelling) \<in> set (waiters (gate (svc w))) \<Longrightarrow>
    svc_step e s w (Leave t) (put_job (set_gate w (unwind t (gate (svc w)))) t (j\<lparr>job_phase := Dropped False\<rparr>))"
| step_open_stream: "jobs w t = Some j \<Longrightarrow> job_phase j = Admitted \<Longrightarrow>
    svc_step e s w (OpenStream t)
      (put_job (w\<lparr>svc := count request_started (svc w), calling := t # calling w\<rparr>) t
        (j\<lparr>job_phase := Streaming (open_stream (job_decision j))\<rparr>))"
| step_stream: "jobs w t = Some j \<Longrightarrow> job_phase j = Streaming st \<Longrightarrow>
    stream_next e s (job_decision j) i st = Some st' \<Longrightarrow>
    svc_step e s w (Stream t i) (put_job w t (j\<lparr>job_phase := Streaming st'\<rparr>))"
| step_settle_stream: "jobs w t = Some j \<Longrightarrow> job_phase j = Streaming st \<Longrightarrow> suspended_at st = Settling u \<Longrightarrow>
    svc_step e s w (SettleStream t)
      (land w t j (settle_stream e s (svc w) (job_request j) (job_reservation j) (job_decision j) st u))"
| step_tick: "svc_step e s w Tick (w\<lparr>svc := snd (autoscale_tick e s (svc w))\<rparr>)"

inductive_cases svc_stepE: "svc_step e s w ev w'"

inductive reachable :: "env \<Rightarrow> settings \<Rightarrow> world \<Rightarrow> bool" for e :: env and s :: settings where
  reach_new: "reachable e s (new_svc_world s)"
| reach_step: "reachable e s w \<Longrightarrow> svc_step e s w ev w' \<Longrightarrow> reachable e s w'"

text \<open>The same steps as a function, for evaluation.\<close>

fun svc_do :: "env \<Rightarrow> settings \<Rightarrow> svc_event \<Rightarrow> world \<Rightarrow> world option" where
  "svc_do e s (Arrive t r) w =
     (if jobs w t \<noteq> None \<or> answers w t \<noteq> None then None
      else case arrive e s (svc w) r of
          (Refused x, sv) \<Rightarrow> Some (w\<lparr>svc := sv, answers := (answers w)(t \<mapsto> Inl x)\<rparr>)
        | (FromCache res, sv) \<Rightarrow> Some (w\<lparr>svc := sv, answers := (answers w)(t \<mapsto> Inr res)\<rparr>)
        | (Holding d rv, sv) \<Rightarrow> Some (put_job (w\<lparr>svc := sv\<rparr>) t
            \<lparr>job_request = r, job_decision = d, job_reservation = rv, job_phase = Reserved\<rparr>))"
| "svc_do e s (Enter t) w =
     (case jobs w t of None \<Rightarrow> None
      | Some j \<Rightarrow> (case job_phase j of
          Reserved \<Rightarrow> Some (at_gate w t j (acquire t (gate (svc w)))) | _ \<Rightarrow> None))"
| "svc_do e s (WakeUp t) w =
     (case jobs w t of None \<Rightarrow> None
      | Some j \<Rightarrow> (case job_phase j of
          Queued \<Rightarrow> if (t, Notified) \<in> set (waiters (gate (svc w)))
            then Some (at_gate w t j (wake t (gate (svc w)))) else None
        | _ \<Rightarrow> None))"
| "svc_do e s (Expire t) w =
     (if \<not> 0 < admission_timeout_s s then None
      else case jobs w t of None \<Rightarrow> None
      | Some j \<Rightarrow> (case job_phase j of
          Reserved \<Rightarrow> Some (leave_shed s w t j)
        | Queued \<Rightarrow> Some (set_gate w (cancel t (gate (svc w))))
        | _ \<Rightarrow> None))"
| "svc_do e s (Shed t) w =
     (case jobs w t of None \<Rightarrow> None
      | Some j \<Rightarrow> (case job_phase j of
          Queued \<Rightarrow> if (t, Cancelling) \<in> set (waiters (gate (svc w)))
            then Some (leave_shed s (set_gate w (unwind t (gate (svc w)))) t j) else None
        | _ \<Rightarrow> None))"
| "svc_do e s (Begin t) w =
     (case jobs w t of None \<Rightarrow> None
      | Some j \<Rightarrow> (case job_phase j of
          Admitted \<Rightarrow> Some (land (w\<lparr>calling := t # calling w\<rparr>) t j
            (begin_generation e s (svc w) (job_request j) (job_reservation j) (job_decision j)))
        | _ \<Rightarrow> None))"
| "svc_do e s (Reply t c) w =
     (case jobs w t of None \<Rightarrow> None
      | Some j \<Rightarrow> (case job_phase j of
          Calling d ex \<Rightarrow> Some (land w t j
            (provider_returned e s (svc w) (job_request j) (job_reservation j) d c))
        | _ \<Rightarrow> None))"
| "svc_do e s (Fault t x) w =
     (case jobs w t of None \<Rightarrow> None
      | Some j \<Rightarrow> (case job_phase j of
          Calling d ex \<Rightarrow> Some (land w t j
            (provider_failed e s (svc w) (job_request j) (job_reservation j) d ex x))
        | _ \<Rightarrow> None))"
| "svc_do e s (CancelCall t) w =
     (case jobs w t of None \<Rightarrow> None
      | Some j \<Rightarrow> (case job_phase j of Calling d ex \<Rightarrow> Some (drop_call w t j) | _ \<Rightarrow> None))"
| "svc_do e s (GiveUp t) w =
     (case jobs w t of None \<Rightarrow> None
      | Some j \<Rightarrow> (case job_phase j of
          Reserved \<Rightarrow> if 0 < admission_timeout_s s then Some (put_job w t (j\<lparr>job_phase := Dropped False\<rparr>)) else None
        | Queued \<Rightarrow> Some (put_job (set_gate w (cancel t (gate (svc w)))) t (j\<lparr>job_phase := Leaving\<rparr>))
        | _ \<Rightarrow> None))"
| "svc_do e s (Leave t) w =
     (case jobs w t of None \<Rightarrow> None
      | Some j \<Rightarrow> (case job_phase j of
          Leaving \<Rightarrow> if (t, Cancelling) \<in> set (waiters (gate (svc w)))
            then Some (put_job (set_gate w (unwind t (gate (svc w)))) t (j\<lparr>job_phase := Dropped False\<rparr>)) else None
        | _ \<Rightarrow> None))"
| "svc_do e s (OpenStream t) w =
     (case jobs w t of None \<Rightarrow> None
      | Some j \<Rightarrow> (case job_phase j of
          Admitted \<Rightarrow> Some (put_job (w\<lparr>svc := count request_started (svc w), calling := t # calling w\<rparr>) t
            (j\<lparr>job_phase := Streaming (open_stream (job_decision j))\<rparr>))
        | _ \<Rightarrow> None))"
| "svc_do e s (Stream t i) w =
     (case jobs w t of None \<Rightarrow> None
      | Some j \<Rightarrow> (case job_phase j of
          Streaming st \<Rightarrow> (case stream_next e s (job_decision j) i st of
              None \<Rightarrow> None | Some st' \<Rightarrow> Some (put_job w t (j\<lparr>job_phase := Streaming st'\<rparr>)))
        | _ \<Rightarrow> None))"
| "svc_do e s (SettleStream t) w =
     (case jobs w t of None \<Rightarrow> None
      | Some j \<Rightarrow> (case job_phase j of
          Streaming st \<Rightarrow> (case suspended_at st of
              Settling u \<Rightarrow> Some (land w t j
                (settle_stream e s (svc w) (job_request j) (job_reservation j) (job_decision j) st u))
            | _ \<Rightarrow> None)
        | _ \<Rightarrow> None))"
| "svc_do e s Tick w = Some (w\<lparr>svc := snd (autoscale_tick e s (svc w))\<rparr>)"

fun svc_exec :: "env \<Rightarrow> settings \<Rightarrow> svc_event list \<Rightarrow> world \<Rightarrow> world option" where
  "svc_exec e s [] w = Some w"
| "svc_exec e s (ev # evs) w =
     (case svc_do e s ev w of None \<Rightarrow> None | Some v \<Rightarrow> svc_exec e s evs v)"

lemma svc_do_step: "svc_do e s ev w = Some w' \<Longrightarrow> svc_step e s w ev w'"
  by (cases ev)
    (auto split: option.splits phase.splits suspended.splits if_splits prod.splits arrival.splits
      intro: svc_step.intros simp del: stream_next.simps)

lemma svc_exec_reachable: "reachable e s w \<Longrightarrow> svc_exec e s evs w = Some w' \<Longrightarrow> reachable e s w'"
proof (induction evs arbitrary: w)
  case (Cons ev evs)
  then show ?case
    by (auto split: option.splits dest!: svc_do_step intro: reach_step)
qed simp

section \<open>What a segment leaves alone\<close>

text \<open>The steps of the failover loop touch neither ledger nor gate nor the money and in-flight counters.\<close>

definition same_books :: "service \<Rightarrow> service \<Rightarrow> bool" where
  "same_books sv sv' \<longleftrightarrow> ledger sv' = ledger sv \<and> gate sv' = gate sv \<and>
     autoscaler sv' = autoscaler sv \<and> cache sv' = cache sv \<and>
     Metrics.in_flight (metrics sv') = Metrics.in_flight (metrics sv) \<and>
     total_cost_usd (metrics sv') = total_cost_usd (metrics sv) \<and> reads sv \<le> reads sv'"

lemma same_books_refl [simp]: "same_books sv sv"
  by (simp add: same_books_def)

lemma same_books_trans: "same_books a b \<Longrightarrow> same_books b c \<Longrightarrow> same_books a c"
  by (auto simp: same_books_def)

lemma same_books_count [simp]:
  "same_books sv (count request_failover sv)" "same_books sv (count request_rejected sv)"
  "same_books sv (count request_circuit_rejected sv)" "same_books sv (count request_shed sv)"
  by (simp_all add: same_books_def count_def metrics_simps)

lemma same_books_ask: "ask_breaker e sv n = (ok, b, sv') \<Longrightarrow> same_books sv sv'"
  by (auto simp: ask_breaker_def read_clock_def same_books_def split: prod.splits)

lemma same_books_skip: "circuit_skip e sv n b = (x, sv') \<Longrightarrow> same_books sv sv'"
  by (auto simp: circuit_skip_def read_clock_def same_books_def count_def metrics_simps split: prod.splits)

lemma same_books_seek: "same_books sv (snd (seek e s sv r d ex))"
proof (induction e s sv r d ex rule: seek.induct)
  case (1 e s sv r d ex)
  obtain ok b sv1 where ask: "ask_breaker e sv (name (Router.model d)) = (ok, b, sv1)"
    by (cases "ask_breaker e sv (name (Router.model d))") auto
  obtain x sv2 where skip: "circuit_skip e sv1 (name (Router.model d)) b = (x, sv2)"
    by fastforce
  have s2: "same_books sv sv2"
    using same_books_trans [OF same_books_ask [OF ask] same_books_skip [OF skip]] .
  show ?case
  proof (cases ok)
    case True
    then show ?thesis by (subst seek.simps) (simp add: ask same_books_ask [OF ask])
  next
    case False
    show ?thesis
    proof (cases "fail_over e s r d ex")
      case None
      then show ?thesis by (subst seek.simps) (simp add: ask skip False s2)
    next
      case (Some p)
      obtain d' ex' where p: "p = (d', ex')" by fastforce
      have "same_books (count request_failover sv2) (snd (seek e s (count request_failover sv2) r d' ex'))"
        using 1 ask False skip Some p by auto
      then have "same_books sv2 (snd (seek e s (count request_failover sv2) r d' ex'))"
        by (rule same_books_trans [rotated]) simp
      with same_books_trans [OF s2] show ?thesis
        by (subst seek.simps) (simp add: ask skip False Some p)
    qed
  qed
qed

text \<open>What a segment that runs while the request holds its slot can do to the books.\<close>

inductive effect :: "settings \<Rightarrow> service \<Rightarrow> reservation \<Rightarrow> progress \<times> reservation \<times> service \<Rightarrow> bool" where
  keeps: "same_books sv sv' \<Longrightarrow> effect s sv rv (Call d ex, rv, sv')"
| aborts: "ledger sv' = fst (Ledger.release (ledger sv) rv) \<Longrightarrow> rv' = snd (Ledger.release (ledger sv) rv) \<Longrightarrow>
    gate sv' = Gate.release (gate sv) \<Longrightarrow> autoscaler sv' = autoscaler sv \<Longrightarrow> cache sv' = cache sv \<Longrightarrow>
    Metrics.in_flight (metrics sv') = max 0 (Metrics.in_flight (metrics sv) - 1) \<Longrightarrow>
    total_cost_usd (metrics sv') = fadd (total_cost_usd (metrics sv)) 0 \<Longrightarrow> reads sv \<le> reads sv' \<Longrightarrow>
    effect s sv rv (Finish (Inl x), rv', sv')"
| serves: "m \<in> set (catalog s) \<Longrightarrow> name m = result_model res \<Longrightarrow>
    ledger sv' = fst (settle now (ledger sv) rv (cost m (result_in res) (result_out res)) (name m)
      (result_in res) (result_out res)) \<Longrightarrow>
    rv' = snd (settle now (ledger sv) rv (cost m (result_in res) (result_out res)) (name m)
      (result_in res) (result_out res)) \<Longrightarrow>
    gate sv' = Gate.release (gate sv) \<Longrightarrow> autoscaler sv' = autoscaler sv \<Longrightarrow>
    Metrics.in_flight (metrics sv') = max 0 (Metrics.in_flight (metrics sv) - 1) \<Longrightarrow>
    total_cost_usd (metrics sv') = fadd (total_cost_usd (metrics sv)) (cost m (result_in res) (result_out res)) \<Longrightarrow>
    reads sv \<le> reads sv' \<Longrightarrow>
    effect s sv rv (Finish (Inr res), rv', sv')"

lemma effect_abort: "same_books sv sv1 \<Longrightarrow> effect s sv rv (abort sv1 rv x)"
  by (auto simp: abort_def same_books_def count_def metrics_simps split: prod.splits intro!: effect.aborts)

lemma effect_proceed:
  assumes "same_books sv (snd sought)"
  shows "effect s sv rv (proceed (snd sought) rv sought)"
proof (cases sought)
  case (Pair res sv')
  with assms show ?thesis
    by (cases res) (auto simp: proceed_def intro: effect.keeps effect_abort)
qed

lemma proceed_seek: "proceed sv rv (seek e s sv1 r d ex) = proceed (snd (seek e s sv1 r d ex)) rv (seek e s sv1 r d ex)"
  by (auto simp: proceed_def split: prod.splits sum.splits)

lemma effect_seek: "same_books sv sv1 \<Longrightarrow> effect s sv rv (proceed sv2 rv (seek e s sv1 r d ex))"
  using effect_proceed [OF same_books_trans [OF _ same_books_seek]] proceed_seek by metis

lemma effect_begin: "effect s (count request_started sv) rv (begin_generation e s sv r rv d)"
  by (simp add: begin_generation_def Let_def effect_seek)

lemma effect_failed: "effect s sv rv (provider_failed e s sv r rv d ex x)"
proof -
  have "same_books sv (sv\<lparr>reads := reads sv + 1, breakers := B\<rparr>)" for B
    by (simp add: same_books_def)
  then have "same_books sv (count f (sv\<lparr>reads := reads sv + 1, breakers := B\<rparr>))"
    if "f = request_failover" for B f
    using same_books_trans [OF _ same_books_count(1)] that by blast
  then show ?thesis
    by (auto simp: provider_failed_def Let_def read_clock_def same_books_def
        split: prod.splits option.splits intro!: effect_abort effect_seek)
qed

lemma effect_returned:
  assumes "Router.model d \<in> set (catalog s)"
  shows "effect s sv rv (provider_returned e s sv r rv d c)"
proof -
  have store: "autoscaler (cache_store e s v d p x u) = autoscaler v"
    "ledger (cache_store e s v d p x u) = ledger v" "gate (cache_store e s v d p x u) = gate v"
    "metrics (cache_store e s v d p x u) = metrics v"
    "n \<le> reads v \<Longrightarrow> n \<le> reads (cache_store e s v d p x u)" for v p x u n
    by (auto simp: cache_store_def read_clock_def split: option.splits)
  show ?thesis
    using assms
    by (auto simp: provider_returned_def Let_def read_clock_def store(1-4) count_def metrics_simps
        intro!: effect.serves [where m = "Router.model d" and now = "wall e (reads sv)"] store(5)
        split: prod.splits)
qed

lemma effect_settle_stream:
  assumes "Router.model d \<in> set (catalog s)"
  shows "effect s sv rv (settle_stream e s sv r rv d st u)"
proof -
  have store: "autoscaler (cache_store e s v d p x u) = autoscaler v"
    "ledger (cache_store e s v d p x u) = ledger v" "gate (cache_store e s v d p x u) = gate v"
    "metrics (cache_store e s v d p x u) = metrics v"
    "n \<le> reads v \<Longrightarrow> n \<le> reads (cache_store e s v d p x u)" for v p x n
    by (auto simp: cache_store_def read_clock_def split: option.splits)
  show ?thesis
    using assms
    by (auto simp: settle_stream_def stream_result_def Let_def read_clock_def store(1-4) count_def metrics_simps
        intro!: effect.serves [where m = "Router.model d" and now = "wall e (reads sv)"] store(5)
        split: prod.splits)
qed

section \<open>What an arrival does\<close>

definition quiet :: "service \<Rightarrow> service \<Rightarrow> bool" where
  "quiet sv sv' \<longleftrightarrow> gate sv' = gate sv \<and> autoscaler sv' = autoscaler sv \<and>
     Metrics.in_flight (metrics sv') = Metrics.in_flight (metrics sv) \<and>
     total_cost_usd (metrics sv') = total_cost_usd (metrics sv) \<and> reads sv \<le> reads sv'"

lemma quiet_rate_limit: "check_rate_limit e sv u = (out, sv') \<Longrightarrow> quiet sv sv' \<and> ledger sv' = ledger sv"
  by (auto simp: check_rate_limit_def read_clock_def quiet_def count_def metrics_simps
      split: option.splits prod.splits sum.splits)

lemma quiet_route: "route_request e s sv r = (out, sv') \<Longrightarrow> quiet sv sv' \<and> ledger sv' = ledger sv \<and>
    (\<forall>d. out = Inr d \<longrightarrow> route (tokenizer e) (prompt r) s (task_type r) (max_output_tokens r) (budget_usd r)
       (force_model r) {} = Inr d)"
  by (auto simp: route_request_def quiet_def count_def metrics_simps split: sum.splits if_splits)

lemma quiet_lookup: "lookup_cache e sv d p = (out, sv') \<Longrightarrow> quiet sv sv' \<and> ledger sv' = ledger sv"
  by (auto simp: lookup_cache_def read_clock_def quiet_def count_def metrics_simps
      split: option.splits prod.splits)

lemma quiet_reserve: "reserve_budget e s sv d r = (out, sv') \<Longrightarrow> quiet sv sv' \<and>
    (\<exists>now n. reads sv \<le> n \<and> n < reads sv' \<and>
       reserve now (fresh_id e n) (ledger sv) (user_id r) (projected_cost d) (user_limit s r) = (out, ledger sv'))"
  by (auto simp: reserve_budget_def read_clock_def quiet_def count_def metrics_simps
      split: prod.splits sum.splits intro!: exI [of _ "wall e (reads sv)"] exI [of _ "reads sv"])

lemma quiet_trans: "quiet a b \<Longrightarrow> quiet b c \<Longrightarrow> quiet a c"
  by (auto simp: quiet_def)

lemma arrive_effect:
  assumes "arrive e s sv r = (out, sv')"
  shows "quiet sv sv'"
    and "\<not> (\<exists>d rv. out = Holding d rv) \<Longrightarrow>
      ledger sv' = ledger sv \<or> (\<exists>now. ledger sv' = prune now (ledger sv) (user_id r))"
    and "out = Holding d rv \<Longrightarrow>
      route (tokenizer e) (prompt r) s (task_type r) (max_output_tokens r) (budget_usd r) (force_model r) {} = Inr d \<and>
      (\<exists>now n. reads sv \<le> n \<and> n < reads sv' \<and>
        reserve now (fresh_id e n) (ledger sv) (user_id r) (projected_cost d) (user_limit s r) = (Inr rv, ledger sv'))"
proof -
  obtain o1 s1 where 1: "check_rate_limit e sv (user_id r) = (o1, s1)" by fastforce
  obtain o2 s2 where 2: "route_request e s s1 r = (o2, s2)" by fastforce
  note q1 = quiet_rate_limit [OF 1] and q2 = quiet_route [OF 2]
  have q12: "quiet sv s2" "ledger s2 = ledger sv" using q1 q2 quiet_trans by auto
  consider (limited) x where "o1 = Inl x" "out = Refused x" "sv' = s1"
    | (unrouted) x where "o1 = Inr ()" "o2 = Inl x" "out = Refused x" "sv' = s2"
    | (cached) d0 hit where "o1 = Inr ()" "o2 = Inr d0" "lookup_cache e s2 d0 (prompt r) = (Some hit, sv')"
        "out = FromCache (cached_result d0 hit)"
    | (held) d0 s3 o4 where "o1 = Inr ()" "o2 = Inr d0" "lookup_cache e s2 d0 (prompt r) = (None, s3)"
        "reserve_budget e s s3 d0 r = (o4, sv')"
        "out = (case o4 of Inl x \<Rightarrow> Refused x | Inr rv \<Rightarrow> Holding d0 rv)"
    using assms unfolding arrive_def
    by (auto simp: 1 2 split: sum.splits prod.splits option.splits)
  note cs = this
  show "quiet sv sv'" using cs
  proof cases
    case cached
    with quiet_lookup [OF cached(3)] q12 quiet_trans show ?thesis by blast
  next
    case held
    with quiet_lookup [OF held(3)] quiet_reserve [OF held(4)] q12 quiet_trans show ?thesis by blast
  qed (use q1 q12 in auto)
  show "ledger sv' = ledger sv \<or> (\<exists>now. ledger sv' = prune now (ledger sv) (user_id r))"
    if no: "\<not> (\<exists>d rv. out = Holding d rv)" using cs
  proof cases
    case cached
    with quiet_lookup [OF cached(3)] q12 show ?thesis by simp
  next
    case held
    then obtain x where "o4 = Inl x" using no by (cases o4) auto
    with quiet_reserve [OF held(4)] quiet_lookup [OF held(3)] q12 reserve_refused(2) show ?thesis
      by metis
  qed (use q1 q12 in auto)
  show "route (tokenizer e) (prompt r) s (task_type r) (max_output_tokens r) (budget_usd r) (force_model r) {} = Inr d \<and>
      (\<exists>now n. reads sv \<le> n \<and> n < reads sv' \<and>
        reserve now (fresh_id e n) (ledger sv) (user_id r) (projected_cost d) (user_limit s r) = (Inr rv, ledger sv'))"
    if h: "out = Holding d rv" using cs
  proof cases
    case held
    then have o4: "o4 = Inr rv" "d0 = d" using h by (auto split: sum.splits)
    have "reads sv \<le> reads s3" "ledger s3 = ledger sv"
      using quiet_lookup [OF held(3)] q12 by (auto simp: quiet_def)
    with quiet_reserve [OF held(4)] q2 held(2) o4 show ?thesis by (auto intro: order_trans)
  qed (use h in auto)
qed

section \<open>Slots and counters\<close>

definition in_phase :: "world \<Rightarrow> (phase \<Rightarrow> bool) \<Rightarrow> task set" where
  "in_phase w P = {t. \<exists>j. jobs w t = Some j \<and> P (job_phase j)}"

fun has_slot :: "phase \<Rightarrow> bool" where
  "has_slot Admitted = True"
| "has_slot (Calling d ex) = True"
| "has_slot (Streaming st) = True"
| "has_slot p = False"

text \<open>The requests that \<open>request_started\<close> counted and \<open>request_finished\<close> has not: a call that was cancelled stays
  among them.\<close>

fun is_calling :: "phase \<Rightarrow> bool" where
  "is_calling (Calling d ex) = True"
| "is_calling (Streaming st) = True"
| "is_calling (Dropped counted) = counted"
| "is_calling p = False"

text \<open>The requests whose future is in the condition's queue: a cancelled one is until its task resumes.\<close>

fun in_queue :: "phase \<Rightarrow> bool" where
  "in_queue Queued = True"
| "in_queue Leaving = True"
| "in_queue p = False"

fun is_done :: "phase \<Rightarrow> bool" where
  "is_done (Done a) = True"
| "is_done p = False"

fun is_served :: "phase \<Rightarrow> bool" where
  "is_served (Done (Inr res)) = True"
| "is_served p = False"

definition gate_part :: "world \<Rightarrow> bool" where
  "gate_part w \<longleftrightarrow> gate_ok \<lparr>the_gate = gate (svc w), holders = holding w\<rparr> \<and>
     set (holding w) = in_phase w has_slot \<and>
     fst ` set (waiters (gate (svc w))) = in_phase w in_queue"

definition count_part :: "world \<Rightarrow> bool" where
  "count_part w \<longleftrightarrow> distinct (calling w) \<and> set (calling w) = in_phase w is_calling \<and>
     Metrics.in_flight (metrics (svc w)) = int (length (calling w))"

lemma in_phase_put [simp]:
  "in_phase (put_job w t j) P = (if P (job_phase j) then insert t (in_phase w P) else in_phase w P - {t})"
  by (auto simp: in_phase_def put_job_def)

lemma in_phase_update [simp]:
  "in_phase (w\<lparr>svc := v\<rparr>) P = in_phase w P" "in_phase (w\<lparr>holding := h\<rparr>) P = in_phase w P"
  "in_phase (w\<lparr>calling := h\<rparr>) P = in_phase w P" "in_phase (w\<lparr>served := h\<rparr>) P = in_phase w P"
  "in_phase (w\<lparr>answers := a\<rparr>) P = in_phase w P" "in_phase (set_gate w g) P = in_phase w P"
  by (simp_all add: in_phase_def set_gate_def)

lemma in_phase_iff: "jobs w t = Some j \<Longrightarrow> t \<in> in_phase w P \<longleftrightarrow> P (job_phase j)"
  by (simp add: in_phase_def)

lemma in_phase_none: "jobs w t = None \<Longrightarrow> t \<notin> in_phase w P"
  by (simp add: in_phase_def)

lemma put_job_frame [simp]:
  "svc (put_job w t j) = svc w" "holding (put_job w t j) = holding w" "calling (put_job w t j) = calling w"
  "served (put_job w t j) = served w" "jobs (put_job w t j) = (jobs w)(t \<mapsto> j)" "answers (put_job w t j) = answers w"
  by (simp_all add: put_job_def)

lemma set_gate_frame [simp]:
  "svc (set_gate w g) = (svc w)\<lparr>gate := g\<rparr>" "holding (set_gate w g) = holding w"
  "calling (set_gate w g) = calling w" "served (set_gate w g) = served w" "jobs (set_gate w g) = jobs w"
  "answers (set_gate w g) = answers w"
  by (simp_all add: set_gate_def)

abbreviation gate_of :: "world \<Rightarrow> gate_world" where
  "gate_of w \<equiv> \<lparr>the_gate = gate (svc w), holders = holding w\<rparr>"

text \<open>A request without a slot and outside the queue.\<close>

lemma gate_part_outside:
  assumes "gate_part w" "gate v = gate (svc w)" "t \<notin> in_phase w has_slot" "t \<notin> in_phase w in_queue"
    and "\<not> has_slot (job_phase j)" "\<not> in_queue (job_phase j)"
  shows "gate_part (put_job (w\<lparr>svc := v\<rparr>) t j)"
  using assms by (simp add: gate_part_def)

lemma gate_part_acquire:
  assumes "gate_part w" "jobs w t = Some j" "job_phase j = Reserved"
  shows "gate_part (at_gate w t j (acquire t (gate (svc w))))"
proof -
  have k: "\<not> known t (gate_of w)"
    using assms by (simp add: known_def gate_part_def in_phase_iff [OF assms(2)])
  have t: "t \<notin> in_phase w has_slot" "t \<notin> in_phase w in_queue"
    by (simp_all add: in_phase_iff [OF assms(2)] assms(3))
  have "gate_ok (gate_of w)" using assms(1) by (simp add: gate_part_def)
  from gate_ok_acquire [OF this k] t assms(1) show ?thesis
    by (auto simp: gate_part_def at_gate_def Let_def admit_def acquire_def)
qed

lemma gate_part_wake:
  assumes "gate_part w" "jobs w t = Some j" "job_phase j = Queued"
    and "(t, Notified) \<in> set (waiters (gate (svc w)))"
  shows "gate_part (at_gate w t j (wake t (gate (svc w))))"
proof -
  have ok: "gate_ok (gate_of w)" using assms(1) by (simp add: gate_part_def)
  have t: "t \<notin> in_phase w has_slot" "t \<in> in_phase w in_queue"
    by (simp_all add: in_phase_iff [OF assms(2)] assms(3))
  have d: "distinct (map fst (waiters (gate (svc w))))" using ok by (simp add: gate_ok_def)
  have "gate_ok (admit t (wake t (gate (svc w))) (gate_of w))"
    using gate_ok_wake [OF ok] assms(4) by simp
  with t assms(1) remove1_future [OF d assms(4)] show ?thesis
    by (auto simp: gate_part_def at_gate_def Let_def admit_def wake_def)
qed

lemma gate_part_cancel: "gate_part w \<Longrightarrow> gate_part (set_gate w (cancel t (gate (svc w))))"
  using gate_ok_cancel [of "gate_of w" t] by (simp add: gate_part_def)

lemma gate_part_unwind:
  assumes "gate_part w" "jobs w t = Some j" "in_queue (job_phase j)" "gate v = unwind t (gate (svc w))"
    and "(t, Cancelling) \<in> set (waiters (gate (svc w)))" "\<not> has_slot (job_phase j')" "\<not> in_queue (job_phase j')"
  shows "gate_part (put_job (w\<lparr>svc := v\<rparr>) t j')"
proof -
  have ok: "gate_ok (gate_of w)" using assms(1) by (simp add: gate_part_def)
  have t: "t \<notin> in_phase w has_slot"
    using assms(3) by (cases "job_phase j") (simp_all add: in_phase_iff [OF assms(2)])
  have d: "distinct (map fst (waiters (gate (svc w))))" using ok by (simp add: gate_ok_def)
  from gate_ok_unwind [OF ok, of t] t assms(1,4,5) remove1_future [OF d assms(5)] assms(6,7) show ?thesis
    by (simp add: gate_part_def unwind_def)
qed

lemma gate_part_land:
  assumes "gate_part w" "jobs w t = Some j" "has_slot (job_phase j)" "effect s (svc w) (job_reservation j) out"
  shows "gate_part (land w t j out)"
proof -
  have ok: "gate_ok (gate_of w)" and hold: "set (holding w) = in_phase w has_slot"
    and q: "fst ` set (waiters (gate (svc w))) = in_phase w in_queue"
    using assms(1) by (auto simp: gate_part_def)
  have t: "t \<in> in_phase w has_slot" "t \<notin> in_phase w in_queue"
    using assms(3) by (cases "job_phase j"; simp add: in_phase_iff [OF assms(2)])+
  have rel: "gate_ok \<lparr>the_gate = Gate.release (gate (svc w)), holders = remove1 t (holding w)\<rparr>"
    using gate_ok_release [OF ok, of t] t hold by simp
  have d: "distinct (holding w)" using ok by (simp add: gate_ok_def)
  have w: "fst ` set (waiters (Gate.release (gate (svc w)))) = fst ` set (waiters (gate (svc w)))"
    by (simp add: Gate.release_def)
  show ?thesis using assms(4)
  proof cases
    case (keeps sv' d ex)
    with ok hold q t show ?thesis
      by (simp add: land_def gate_part_def same_books_def insert_absorb)
  next
    case (aborts sv' rv' x)
    with rel d hold q t w show ?thesis
      by (simp add: land_def gate_part_def)
  next
    case (serves m res sv' now rv')
    with rel d hold q t w show ?thesis
      by (simp add: land_def gate_part_def)
  qed
qed

lemma gate_part_tick: "gate_part w \<Longrightarrow> gate_part (w\<lparr>svc := snd (autoscale_tick e s (svc w))\<rparr>)"
proof -
  assume ok: "gate_part w"
  have "gate (snd (autoscale_tick e s (svc w))) = gate (svc w) \<or>
      (\<exists>n. gate (snd (autoscale_tick e s (svc w))) = resize n (gate (svc w)))"
    by (auto simp: autoscale_tick_def Let_def read_clock_def count_def split: prod.splits sum.splits)
  moreover have "fst ` set (waiters (resize n (gate (svc w)))) = fst ` set (waiters (gate (svc w)))" for n
    by (simp add: resize_def Let_def)
  ultimately show ?thesis
    using ok gate_ok_resize [of "gate_of w"] by (elim disjE exE) (simp_all add: gate_part_def)
qed

lemma count_part_outside:
  assumes "count_part w" "Metrics.in_flight (metrics v) = Metrics.in_flight (metrics (svc w))"
    and "t \<notin> in_phase w is_calling" "\<not> is_calling (job_phase j)"
  shows "count_part (put_job (w\<lparr>svc := v\<rparr>) t j)"
  using assms by (simp add: count_part_def)

text \<open>Landing takes the request off the calls in flight unless it calls again.\<close>

lemma count_part_land:
  assumes "distinct (calling w)" "set (calling w) = insert t (in_phase w is_calling)"
    and "Metrics.in_flight (metrics (svc w)) = int (length (calling w))"
    and "effect s (svc w) (job_reservation j) out"
  shows "count_part (land w t j out)"
proof -
  have len: "length (calling w) = Suc (length (remove1 t (calling w)))"
    using assms(2) by (intro length_remove1_Suc) simp
  show ?thesis using assms(4)
  proof cases
    case (keeps sv' d ex)
    with assms show ?thesis by (simp add: land_def count_part_def same_books_def)
  next
    case (aborts sv' rv' x)
    with assms len show ?thesis by (auto simp: land_def count_part_def set_remove1_eq)
  next
    case (serves m res sv' now rv')
    with assms len show ?thesis by (auto simp: land_def count_part_def set_remove1_eq)
  qed
qed

section \<open>The ledger\<close>

text \<open>What an entry of the ledger stands for: the hold of a request that is not finished, or the charge of one
  that was served.\<close>

definition owes :: "settings \<Rightarrow> job \<Rightarrow> f64 \<Rightarrow> bool" where
  "owes s j a =
     (case job_phase j of
        Done (Inl x) \<Rightarrow> False
      | Done (Inr res) \<Rightarrow>
          (\<exists>m \<in> set (catalog s). name m = result_model res \<and> a = cost m (result_in res) (result_out res))
      | _ \<Rightarrow> a = projected_cost (job_decision j))"

definition entry_of :: "settings \<Rightarrow> world \<Rightarrow> string \<Rightarrow> string \<Rightarrow> f64 \<Rightarrow> bool" where
  "entry_of s w u rid a \<longleftrightarrow>
     (\<exists>t j. jobs w t = Some j \<and> user_id (job_request j) = u \<and> res_id (job_reservation j) = rid \<and> owes s j a)"

definition ids_ok :: "env \<Rightarrow> world \<Rightarrow> bool" where
  "ids_ok e w \<longleftrightarrow>
     (\<forall>t j. jobs w t = Some j \<longrightarrow>
        res_closed (job_reservation j) = is_done (job_phase j) \<and>
        res_user (job_reservation j) = user_id (job_request j) \<and>
        (\<exists>n < reads (svc w). res_id (job_reservation j) = fresh_id e n)) \<and>
     (\<forall>t t' j j'. jobs w t = Some j \<and> jobs w t' = Some j' \<and>
        res_id (job_reservation j) = res_id (job_reservation j') \<longrightarrow> t = t')"

definition entries_ok :: "settings \<Rightarrow> world \<Rightarrow> bool" where
  "entries_ok s w \<longleftrightarrow> wf_ledger (ledger (svc w)) \<and>
     (\<forall>u. \<forall>en \<in> set (spend (ledger (svc w)) u). entry_of s w u (entry_id en) (entry_amount en))"

text \<open>The usage record of a served request.\<close>

definition billed :: "settings \<Rightarrow> job \<Rightarrow> usage_record \<Rightarrow> bool" where
  "billed s j r \<longleftrightarrow>
     (\<exists>res m. job_phase j = Done (Inr res) \<and> m \<in> set (catalog s) \<and> name m = result_model res \<and>
        rec_user r = user_id (job_request j) \<and> rec_model r = result_model res \<and>
        rec_input_tokens r = result_in res \<and> rec_output_tokens r = result_out res \<and>
        rec_cost r = cost m (result_in res) (result_out res))"

definition records_ok :: "settings \<Rightarrow> world \<Rightarrow> bool" where
  "records_ok s w \<longleftrightarrow> distinct (served w) \<and> set (served w) = in_phase w is_served \<and>
     list_all2 (\<lambda>t r. \<exists>j. jobs w t = Some j \<and> billed s j r) (served w) (usage_records (ledger (svc w))) \<and>
     total_cost_usd (metrics (svc w)) = fsum (map rec_cost (usage_records (ledger (svc w))))"

text \<open>Changing one job.\<close>

lemma ids_ok_put:
  assumes "ids_ok e w" "jobs w t = Some j" "reads (svc w) \<le> reads v"
    and "res_id (job_reservation j') = res_id (job_reservation j)"
    and "res_user (job_reservation j') = res_user (job_reservation j)"
    and "job_request j' = job_request j"
    and "res_closed (job_reservation j') = is_done (job_phase j')"
  shows "ids_ok e (put_job (w\<lparr>svc := v\<rparr>) t j')"
proof -
  have less: "\<exists>n < reads v. res_id (job_reservation k) = fresh_id e n" if "jobs w t' = Some k" for t' k
    using assms(1,3) that unfolding ids_ok_def by (meson less_le_trans)
  show ?thesis
    using assms less unfolding ids_ok_def by (auto split: if_splits)
qed

lemma ids_ok_new:
  assumes "ids_ok e w" "jobs w t = None" "reads (svc w) \<le> n" "n < reads v" "inj (fresh_id e)"
    and "res_id (job_reservation j) = fresh_id e n" "\<not> res_closed (job_reservation j)" "\<not> is_done (job_phase j)"
    and "res_user (job_reservation j) = user_id (job_request j)"
  shows "ids_ok e (put_job (w\<lparr>svc := v\<rparr>) t j)"
proof -
  have less: "\<exists>n' < reads v. res_id (job_reservation k) = fresh_id e n'" if "jobs w t' = Some k" for t' k
    using assms(1,3,4) that unfolding ids_ok_def by (meson less_le_trans le_less_trans less_imp_le)
  have new: "res_id (job_reservation k) \<noteq> fresh_id e n" if k: "jobs w t' = Some k" for t' k
  proof -
    obtain m where "m < reads (svc w)" "res_id (job_reservation k) = fresh_id e m"
      using assms(1) k unfolding ids_ok_def by blast
    with assms(3,5) show ?thesis by (auto dest: injD)
  qed
  show ?thesis
    using assms(1,2,4,6-9) less new unfolding ids_ok_def by (auto split: if_splits) metis+
qed

text \<open>The same entries, after a change of phase that keeps what the job owes.\<close>

lemma entry_of_put:
  assumes "entry_of s w u rid a" "jobs w t = Some j" "job_request j' = job_request j"
    and "res_id (job_reservation j') = res_id (job_reservation j)"
    and "res_id (job_reservation j) = rid \<Longrightarrow> owes s j a \<Longrightarrow> owes s j' a"
  shows "entry_of s (put_job w t j') u rid a"
proof -
  obtain t' k where k: "jobs w t' = Some k" "user_id (job_request k) = u"
    "res_id (job_reservation k) = rid" "owes s k a"
    using assms(1) unfolding entry_of_def by blast
  show ?thesis
  proof (cases "t' = t")
    case True
    with k assms(2-5) show ?thesis unfolding entry_of_def by (intro exI [of _ t] exI [of _ j']) simp
  next
    case False
    with k show ?thesis unfolding entry_of_def by (intro exI [of _ t'] exI [of _ k]) simp
  qed
qed

lemma entry_of_new:
  assumes "entry_of s w u rid a" "jobs w t = None"
  shows "entry_of s (put_job w t j) u rid a"
proof -
  obtain t' k where k: "jobs w t' = Some k" "user_id (job_request k) = u"
    "res_id (job_reservation k) = rid" "owes s k a"
    using assms(1) unfolding entry_of_def by blast
  with assms(2) have "t' \<noteq> t" by auto
  with k show ?thesis unfolding entry_of_def by (intro exI [of _ t'] exI [of _ k]) simp
qed

lemma entry_of_svc [simp]: "entry_of s (w\<lparr>svc := v\<rparr>) u rid a = entry_of s w u rid a"
  by (simp add: entry_of_def)

lemma entries_okI:
  "wf_ledger (ledger (svc w)) \<Longrightarrow>
   (\<And>u x. x \<in> set (spend (ledger (svc w)) u) \<Longrightarrow> entry_of s w u (entry_id x) (entry_amount x)) \<Longrightarrow>
   entries_ok s w"
  by (simp add: entries_ok_def)

lemma entries_okD:
  assumes "entries_ok s w"
  shows "wf_ledger (ledger (svc w))"
    and "x \<in> set (spend (ledger (svc w)) u) \<Longrightarrow> entry_of s w u (entry_id x) (entry_amount x)"
  using assms by (simp_all add: entries_ok_def)

lemma ids_okD:
  assumes "ids_ok e w" "jobs w t = Some j"
  shows "res_closed (job_reservation j) = is_done (job_phase j)"
    and "res_user (job_reservation j) = user_id (job_request j)"
    and "jobs w t' = Some j' \<Longrightarrow> res_id (job_reservation j) = res_id (job_reservation j') \<Longrightarrow> t' = t"
  using assms unfolding ids_ok_def by (blast, blast, metis)

lemma entry_of_user:
  assumes "entry_of s w u (res_id (job_reservation j)) a" "ids_ok e w" "jobs w t = Some j"
  shows "u = res_user (job_reservation j)"
proof -
  obtain t' k where k: "jobs w t' = Some k" "user_id (job_request k) = u"
    "res_id (job_reservation k) = res_id (job_reservation j)"
    using assms(1) unfolding entry_of_def by blast
  then have "k = j" using ids_okD(3) [OF assms(2,3) k(1)] assms(3) by simp
  with k ids_okD(2) [OF assms(2,3)] show ?thesis by simp
qed

lemma entries_ok_put:
  assumes "entries_ok s w" "jobs w t = Some j" "job_request j' = job_request j"
    and "res_id (job_reservation j') = res_id (job_reservation j)" "ledger v = ledger (svc w)"
    and "\<And>a. owes s j a \<Longrightarrow> owes s j' a"
  shows "entries_ok s (put_job (w\<lparr>svc := v\<rparr>) t j')"
proof (rule entries_okI)
  show "wf_ledger (ledger (svc (put_job (w\<lparr>svc := v\<rparr>) t j')))" using entries_okD(1) [OF assms(1)] assms(5) by simp
  fix u x
  assume "x \<in> set (spend (ledger (svc (put_job (w\<lparr>svc := v\<rparr>) t j'))) u)"
  then have "entry_of s w u (entry_id x) (entry_amount x)" using entries_okD(2) [OF assms(1)] assms(5) by simp
  then show "entry_of s (put_job (w\<lparr>svc := v\<rparr>) t j') u (entry_id x) (entry_amount x)"
    using entry_of_put [of s "w\<lparr>svc := v\<rparr>" u "entry_id x" "entry_amount x" t j j'] assms(2,3,4,6) by simp
qed

lemma entries_ok_prune:
  assumes "entries_ok s w" "ledger v = ledger (svc w) \<or> (\<exists>now. ledger v = prune now (ledger (svc w)) u0)"
  shows "entries_ok s (w\<lparr>svc := v\<rparr>)"
proof (rule entries_okI)
  have sub: "set (spend (prune now L u0) u) \<subseteq> set (spend L u)" for now u L
    by (cases "u = u0") (auto simp: spend_prune)
  show "wf_ledger (ledger (svc (w\<lparr>svc := v\<rparr>)))"
    using entries_okD(1) [OF assms(1)] assms(2) wf_prune by auto
  fix u x
  assume x: "x \<in> set (spend (ledger (svc (w\<lparr>svc := v\<rparr>))) u)"
  have "x \<in> set (spend (ledger (svc w)) u)"
  proof (cases "ledger v = ledger (svc w)")
    case True
    with x show ?thesis by simp
  next
    case False
    then obtain now where "ledger v = prune now (ledger (svc w)) u0" using assms(2) by blast
    then have "x \<in> set (spend (prune now (ledger (svc w)) u0) u)" using x by simp
    then show ?thesis by (rule subsetD [OF sub])
  qed
  from entries_okD(2) [OF assms(1) this]
  show "entry_of s (w\<lparr>svc := v\<rparr>) u (entry_id x) (entry_amount x)" by simp
qed

lemma entries_ok_hold:
  assumes "entries_ok s w" "ids_ok e w" "jobs w t = None" "inj (fresh_id e)" "reads (svc w) \<le> n"
    and "reserve now (fresh_id e n) (ledger (svc w)) (user_id r) (projected_cost d) cap = (Inr rv, ledger v)"
    and "j = \<lparr>job_request = r, job_decision = d, job_reservation = rv, job_phase = Reserved\<rparr>"
  shows "entries_ok s (put_job (w\<lparr>svc := v\<rparr>) t j)"
proof -
  let ?L = "ledger (svc w)" and ?rid = "fresh_id e n"
  note wf = entries_okD(1) [OF assms(1)] and en = entries_okD(2) [OF assms(1)]
  have "?rid \<notin> entry_ids ?L (user_id r)"
  proof
    assume "?rid \<in> entry_ids ?L (user_id r)"
    then obtain x where "x \<in> set (spend ?L (user_id r))" "entry_id x = ?rid" by (auto simp: entry_ids_def)
    with en obtain t' k where "jobs w t' = Some k" "res_id (job_reservation k) = ?rid"
      unfolding entry_of_def by metis
    then obtain m where "m < reads (svc w)" "?rid = fresh_id e m"
      using assms(2) unfolding ids_ok_def by metis
    with assms(4,5) show False by (auto dest: injD)
  qed
  then have "wf_ledger (ledger v)" using wf_reserve [OF wf] assms(6) by (metis snd_conv)
  moreover have "entry_of s (put_job (w\<lparr>svc := v\<rparr>) t j) u (entry_id x) (entry_amount x)"
    if "x \<in> set (spend (ledger v) u)" for u x
  proof -
    have "x \<in> set (spend ?L u) \<or> u = user_id r \<and> x = (now, projected_cost d, ?rid)"
      using that reserve_granted(2) [OF assms(6)] by (auto simp: spend_prune split: if_splits)
    then show ?thesis
    proof
      assume "x \<in> set (spend ?L u)"
      from entry_of_new [OF en [OF this] assms(3)] show ?thesis by (simp add: entry_of_def)
    next
      assume x: "u = user_id r \<and> x = (now, projected_cost d, ?rid)"
      then show ?thesis
        using reserve_granted(1) [OF assms(6)] assms(7)
        unfolding entry_of_def by (intro exI [of _ t] exI [of _ j]) (simp add: owes_def)
    qed
  qed
  ultimately show ?thesis by (intro entries_okI) simp_all
qed

text \<open>Closing a reservation takes its entry away, or replaces it by the charge.\<close>

lemma entries_other:
  assumes "wf_ledger L" "en \<in> set (drop_entry rid (spend L u))"
  shows "en \<in> set (spend L u)" "entry_id en \<noteq> rid"
  using assms by (auto simp: drop_entry_filter wf_ledger_def)

lemma entries_ok_refund:
  assumes "entries_ok s w" "ids_ok e w" "jobs w t = Some j" "\<not> is_done (job_phase j)"
    and "ledger v = fst (Ledger.release (ledger (svc w)) (job_reservation j))"
    and "job_request j' = job_request j" "res_id (job_reservation j') = res_id (job_reservation j)"
  shows "entries_ok s (put_job (w\<lparr>svc := v\<rparr>) t j')"
proof -
  let ?L = "ledger (svc w)" and ?r = "job_reservation j"
  note wf = entries_okD(1) [OF assms(1)]
  have open': "\<not> res_closed ?r" using ids_okD(1) [OF assms(2,3)] assms(4) by simp
  have sp: "spend (ledger v) u = (if u = res_user ?r then drop_entry (res_id ?r) (spend ?L u) else spend ?L u)" for u
    unfolding assms(5) using release_open(1) [OF open'] .
  have "entry_of s (put_job (w\<lparr>svc := v\<rparr>) t j') u (entry_id x) (entry_amount x)"
    if x: "x \<in> set (spend (ledger v) u)" for u x
  proof -
    have in_L: "x \<in> set (spend ?L u)" using x sp entries_other(1) [OF wf] by (auto split: if_splits)
    note en = entries_okD(2) [OF assms(1) in_L]
    have "entry_id x \<noteq> res_id ?r"
    proof
      assume id: "entry_id x = res_id ?r"
      then have "u = res_user ?r" using entry_of_user [OF _ assms(2,3)] en by metis
      with x sp entries_other(2) [OF wf] id show False by auto
    qed
    with en show ?thesis
      using entry_of_put [of s "w\<lparr>svc := v\<rparr>" u "entry_id x" "entry_amount x" t j j'] assms(3,6,7) by simp
  qed
  moreover have "wf_ledger (ledger v)" unfolding assms(5) by (rule wf_release [OF wf])
  ultimately show ?thesis by (intro entries_okI) simp_all
qed

lemma entries_ok_charge:
  assumes "entries_ok s w" "ids_ok e w" "jobs w t = Some j" "\<not> is_done (job_phase j)"
    and "ledger v = fst (settle now (ledger (svc w)) (job_reservation j) c mn i out)"
    and "job_request j' = job_request j" "res_id (job_reservation j') = res_id (job_reservation j)"
    and "owes s j' c"
  shows "entries_ok s (put_job (w\<lparr>svc := v\<rparr>) t j')"
proof -
  let ?L = "ledger (svc w)" and ?r = "job_reservation j"
  note wf = entries_okD(1) [OF assms(1)]
  have open': "\<not> res_closed ?r" using ids_okD(1) [OF assms(2,3)] assms(4) by simp
  note user = ids_okD(2) [OF assms(2,3)]
  have sp: "spend (ledger v) u =
      (if u = res_user ?r then drop_entry (res_id ?r) (spend ?L u) @ [(now, c, res_id ?r)] else spend ?L u)" for u
    unfolding assms(5) using settle_open(1) [OF open'] .
  have "entry_of s (put_job (w\<lparr>svc := v\<rparr>) t j') u (entry_id x) (entry_amount x)"
    if x: "x \<in> set (spend (ledger v) u)" for u x
  proof (cases "u = res_user ?r \<and> x = (now, c, res_id ?r)")
    case True
    with user assms(6-8) show ?thesis
      unfolding entry_of_def by (intro exI [of _ t] exI [of _ j']) simp
  next
    case False
    have in_L: "x \<in> set (spend ?L u)" using x sp False entries_other(1) [OF wf] by (auto split: if_splits)
    note en = entries_okD(2) [OF assms(1) in_L]
    have "entry_id x \<noteq> res_id ?r"
    proof
      assume id: "entry_id x = res_id ?r"
      then have "u = res_user ?r" using entry_of_user [OF _ assms(2,3)] en by metis
      with x sp entries_other(2) [OF wf] id False show False by auto
    qed
    with en show ?thesis
      using entry_of_put [of s "w\<lparr>svc := v\<rparr>" u "entry_id x" "entry_amount x" t j j'] assms(3,6,7) by simp
  qed
  moreover have "wf_ledger (ledger v)" unfolding assms(5) by (rule wf_settle [OF wf])
  ultimately show ?thesis by (intro entries_okI) simp_all
qed

section \<open>The usage records\<close>

lemma records_ok_put:
  assumes "records_ok s w" "t \<notin> in_phase w is_served" "\<not> is_served (job_phase j')"
    and "usage_records (ledger v) = usage_records (ledger (svc w))"
    and "total_cost_usd (metrics v) = total_cost_usd (metrics (svc w))"
  shows "records_ok s (put_job (w\<lparr>svc := v\<rparr>) t j')"
proof -
  have t: "t \<notin> set (served w)" using assms(1,2) by (simp add: records_ok_def)
  have "list_all2 (\<lambda>t r. \<exists>j. jobs w t = Some j \<and> billed s j r) (served w) (usage_records (ledger (svc w)))"
    using assms(1) by (simp add: records_ok_def)
  then have "list_all2 (\<lambda>t' r. \<exists>j. ((jobs w)(t \<mapsto> j')) t' = Some j \<and> billed s j r) (served w)
      (usage_records (ledger (svc w)))"
    by (rule list.rel_mono_strong) (use t in auto)
  with assms show ?thesis by (simp add: records_ok_def)
qed

lemma records_ok_same:
  "records_ok s w \<Longrightarrow> usage_records (ledger v) = usage_records (ledger (svc w)) \<Longrightarrow>
   total_cost_usd (metrics v) = total_cost_usd (metrics (svc w)) \<Longrightarrow> records_ok s (w\<lparr>svc := v\<rparr>)"
  by (simp add: records_ok_def)

lemma records_ok_serve:
  assumes "records_ok s w" "t \<notin> in_phase w is_served" "is_served (job_phase j')" "billed s j' r"
    and "usage_records (ledger v) = usage_records (ledger (svc w)) @ [r]"
    and "total_cost_usd (metrics v) = fadd (total_cost_usd (metrics (svc w))) (rec_cost r)"
  shows "records_ok s ((put_job (w\<lparr>svc := v\<rparr>) t j')\<lparr>served := served w @ [t]\<rparr>)"
proof -
  have t: "t \<notin> set (served w)" using assms(1,2) by (simp add: records_ok_def)
  have "list_all2 (\<lambda>t r. \<exists>j. jobs w t = Some j \<and> billed s j r) (served w) (usage_records (ledger (svc w)))"
    using assms(1) by (simp add: records_ok_def)
  then have "list_all2 (\<lambda>t' r. \<exists>j. ((jobs w)(t \<mapsto> j')) t' = Some j \<and> billed s j r) (served w)
      (usage_records (ledger (svc w)))"
    by (rule list.rel_mono_strong) (use t in auto)
  with assms t show ?thesis by (simp add: records_ok_def list_all2_appendI fsum_snoc)
qed

section \<open>The decisions in use\<close>

text \<open>A model that is about to be called, or held money for, fits the request.\<close>

definition decision_fits :: "settings \<Rightarrow> request \<Rightarrow> string set \<Rightarrow> routing_decision \<Rightarrow> bool" where
  "decision_fits s r ex d \<longleftrightarrow>
     Router.model d \<in> set (catalog s) \<and> name (Router.model d) \<notin> ex \<and>
     context_fits (Router.model d) (Router.input_tokens d) (projected_output_tokens d) \<and>
     projected_cost d = cost (Router.model d) (Router.input_tokens d) (projected_output_tokens d) \<and>
     projected_cost d \<le> request_budget s (budget_usd r)"

definition call_ok :: "settings \<Rightarrow> job \<Rightarrow> bool" where
  "call_ok s j \<longleftrightarrow> decision_fits s (job_request j) {} (job_decision j) \<and>
     (case job_phase j of
        Calling d ex \<Rightarrow> decision_fits s (job_request j) ex d \<and> ex \<subseteq> name ` set (catalog s) \<and>
          (forced (force_model (job_request j)) \<or> \<not> fallback_enabled s \<longrightarrow> d = job_decision j \<and> ex = {})
      | _ \<Rightarrow> True)"

definition calls_ok :: "settings \<Rightarrow> world \<Rightarrow> bool" where
  "calls_ok s w \<longleftrightarrow> (\<forall>t j. jobs w t = Some j \<longrightarrow> call_ok s j)"

lemma route_fits: "route tk p s tt mo (budget_usd r) fm ex = Inr d \<Longrightarrow> decision_fits s r ex d"
  using route_safe [of tk p s tt mo "budget_usd r" fm ex d] by (simp add: decision_fits_def available_set)

lemma fail_over_fits:
  assumes "fail_over e s r d ex = Some (d', ex')" "decision_fits s r ex d" "ex \<subseteq> name ` set (catalog s)"
  shows "decision_fits s r ex' d'" "ex' \<subseteq> name ` set (catalog s)" "\<not> forced (force_model r)" "fallback_enabled s"
proof -
  note f = fail_over_Some [OF assms(1)]
  show "decision_fits s r ex' d'" using f(3) unfolding next_model_def by (rule route_fits)
  show "ex' \<subseteq> name ` set (catalog s)" using f(1) assms(2,3) by (auto simp: decision_fits_def)
  show "\<not> forced (force_model r)" "fallback_enabled s" by (rule f(5), rule f(4))
qed

lemma seek_fits:
  "seek e s sv r d ex = (Inr (d', ex'), sv') \<Longrightarrow> decision_fits s r ex d \<Longrightarrow> ex \<subseteq> name ` set (catalog s) \<Longrightarrow>
   decision_fits s r ex' d' \<and> ex' \<subseteq> name ` set (catalog s) \<and>
   (forced (force_model r) \<or> \<not> fallback_enabled s \<longrightarrow> d' = d \<and> ex' = ex)"
proof (induction e s sv r d ex rule: seek.induct)
  case (1 e s sv r d ex)
  obtain ok b sv1 where ask: "ask_breaker e sv (name (Router.model d)) = (ok, b, sv1)"
    by (cases "ask_breaker e sv (name (Router.model d))") auto
  obtain x sv2 where skip: "circuit_skip e sv1 (name (Router.model d)) b = (x, sv2)"
    by fastforce
  show ?case
  proof (cases ok)
    case True
    with "1.prems" show ?thesis by (simp add: ask seek.simps [of e s sv r d ex])
  next
    case False
    with "1.prems"(1) obtain d1 ex1 where f: "fail_over e s r d ex = Some (d1, ex1)"
      and k: "seek e s (count request_failover sv2) r d1 ex1 = (Inr (d', ex'), sv')"
      by (auto simp: ask skip seek.simps [of e s sv r d ex] split: option.splits)
    note ff = fail_over_fits [OF f "1.prems"(2,3)]
    have "decision_fits s r ex' d' \<and> ex' \<subseteq> name ` set (catalog s) \<and>
        (forced (force_model r) \<or> \<not> fallback_enabled s \<longrightarrow> d' = d1 \<and> ex' = ex1)"
      using "1.IH" ask False skip f k ff by auto
    with ff show ?thesis by simp
  qed
qed

section \<open>The invariant\<close>

definition books_ok :: "env \<Rightarrow> settings \<Rightarrow> world \<Rightarrow> bool" where
  "books_ok e s w \<longleftrightarrow> gate_part w \<and> count_part w \<and> ids_ok e w \<and> entries_ok s w \<and> records_ok s w \<and> calls_ok s w"

lemma history_irrelevant [simp]:
  "ids_ok e (w\<lparr>holding := h\<rparr>) = ids_ok e w" "ids_ok e (w\<lparr>calling := h\<rparr>) = ids_ok e w"
  "ids_ok e (w\<lparr>served := h\<rparr>) = ids_ok e w" "ids_ok e (w\<lparr>answers := a\<rparr>) = ids_ok e w"
  "entries_ok s (w\<lparr>holding := h\<rparr>) = entries_ok s w" "entries_ok s (w\<lparr>calling := h\<rparr>) = entries_ok s w"
  "entries_ok s (w\<lparr>served := h\<rparr>) = entries_ok s w" "entries_ok s (w\<lparr>answers := a\<rparr>) = entries_ok s w"
  "calls_ok s (w\<lparr>holding := h\<rparr>) = calls_ok s w" "calls_ok s (w\<lparr>calling := h\<rparr>) = calls_ok s w"
  "calls_ok s (w\<lparr>served := h\<rparr>) = calls_ok s w" "calls_ok s (w\<lparr>answers := a\<rparr>) = calls_ok s w"
  "calls_ok s (w\<lparr>svc := v\<rparr>) = calls_ok s w"
  "records_ok s (w\<lparr>holding := h\<rparr>) = records_ok s w" "records_ok s (w\<lparr>calling := h\<rparr>) = records_ok s w"
  "records_ok s (w\<lparr>answers := a\<rparr>) = records_ok s w"
  "gate_part (w\<lparr>calling := h\<rparr>) = gate_part w" "gate_part (w\<lparr>served := h\<rparr>) = gate_part w"
  "gate_part (w\<lparr>answers := a\<rparr>) = gate_part w"
  "count_part (w\<lparr>holding := h\<rparr>) = count_part w" "count_part (w\<lparr>served := h\<rparr>) = count_part w"
  "count_part (w\<lparr>answers := a\<rparr>) = count_part w"
  by (simp_all add: ids_ok_def entries_ok_def entry_of_def calls_ok_def records_ok_def gate_part_def count_part_def)

lemma ids_ok_land:
  assumes "ids_ok e w" "jobs w t = Some j" "\<not> is_done (job_phase j)" "effect s (svc w) (job_reservation j) out"
  shows "ids_ok e (land w t j out)"
proof -
  note j = ids_okD [OF assms(1,2)]
  have open': "\<not> res_closed (job_reservation j)" using j(1) assms(3) by simp
  show ?thesis using assms(4)
  proof cases
    case (keeps sv' d ex)
    then show ?thesis
      using ids_ok_put [OF assms(1,2), of sv' "j\<lparr>job_phase := Calling d ex\<rparr>"] open'
      by (simp add: land_def same_books_def)
  next
    case (aborts sv' rv' x)
    then show ?thesis
      using ids_ok_put [OF assms(1,2), of sv' "j\<lparr>job_reservation := rv', job_phase := Done (Inl x)\<rparr>"]
        release_open(3) [OF open'] by (simp add: land_def)
  next
    case (serves m res sv' now rv')
    then show ?thesis
      using ids_ok_put [OF assms(1,2), of sv' "j\<lparr>job_reservation := rv', job_phase := Done (Inr res)\<rparr>"]
        settle_open(3) [OF open'] by (simp add: land_def)
  qed
qed

lemma owes_open: "\<not> is_done (job_phase j) \<Longrightarrow> owes s j a \<longleftrightarrow> a = projected_cost (job_decision j)"
  by (auto simp: owes_def split: phase.splits)

lemma entries_ok_land:
  assumes "entries_ok s w" "ids_ok e w" "jobs w t = Some j" "\<not> is_done (job_phase j)"
    and "effect s (svc w) (job_reservation j) out"
  shows "entries_ok s (land w t j out)"
proof -
  have open': "\<not> res_closed (job_reservation j)" using ids_okD(1) [OF assms(2,3)] assms(4) by simp
  show ?thesis using assms(5)
  proof cases
    case (keeps sv' d ex)
    then show ?thesis
      using entries_ok_put [OF assms(1,3), of "j\<lparr>job_phase := Calling d ex\<rparr>" sv'] assms(4)
      by (simp add: land_def same_books_def owes_open)
  next
    case (aborts sv' rv' x)
    then show ?thesis
      using entries_ok_refund [OF assms(1-4), of sv' "j\<lparr>job_reservation := rv', job_phase := Done (Inl x)\<rparr>"]
        release_open(3) [OF open'] by (simp add: land_def)
  next
    case (serves m res sv' now rv')
    let ?c = "cost m (result_in res) (result_out res)"
    have "owes s (j\<lparr>job_reservation := rv', job_phase := Done (Inr res)\<rparr>) ?c"
      using serves by (auto simp: owes_def)
    with serves show ?thesis
      using entries_ok_charge [OF assms(1-4), of sv' now ?c "name m" "result_in res" "result_out res"
          "j\<lparr>job_reservation := rv', job_phase := Done (Inr res)\<rparr>"]
        settle_open(3) [OF open'] by (simp add: land_def)
  qed
qed

lemma records_ok_land:
  assumes "records_ok s w" "ids_ok e w" "jobs w t = Some j" "\<not> is_done (job_phase j)"
    and "effect s (svc w) (job_reservation j) out"
  shows "records_ok s (land w t j out)"
proof -
  note j = ids_okD [OF assms(2,3)]
  have open': "\<not> res_closed (job_reservation j)" using j(1) assms(4) by simp
  have t: "t \<notin> in_phase w is_served"
    using assms(4) by (cases "job_phase j") (simp_all add: in_phase_iff [OF assms(3)])
  have repr: "fl64 (total_cost_usd (metrics (svc w))) = total_cost_usd (metrics (svc w))"
    using assms(1) by (simp add: records_ok_def)
  show ?thesis using assms(5)
  proof cases
    case (keeps sv' d ex)
    then show ?thesis
      using records_ok_put [OF assms(1) t, of "j\<lparr>job_phase := Calling d ex\<rparr>" sv']
      by (simp add: land_def same_books_def)
  next
    case (aborts sv' rv' x)
    then show ?thesis
      using records_ok_put [OF assms(1) t, of "j\<lparr>job_reservation := rv', job_phase := Done (Inl x)\<rparr>" sv']
        release_open(2) [OF open'] fadd_zero_right [OF repr] by (simp add: land_def records_ok_def)
  next
    case (serves m res sv' now rv')
    let ?c = "cost m (result_in res) (result_out res)"
    let ?j = "j\<lparr>job_reservation := rv', job_phase := Done (Inr res)\<rparr>"
    let ?r = "\<lparr>rec_user = res_user (job_reservation j), rec_model = name m, rec_input_tokens = result_in res,
      rec_output_tokens = result_out res, rec_cost = ?c, rec_at = now\<rparr>"
    have "billed s ?j ?r" using serves j(2) by (auto simp: billed_def)
    moreover have "usage_records (ledger sv') = usage_records (ledger (svc w)) @ [?r]"
      using serves settle_open(2) [OF open'] by simp
    moreover have "rec_cost ?r = ?c" by simp
    ultimately have "records_ok s ((put_job (w\<lparr>svc := sv'\<rparr>) t ?j)\<lparr>served := served w @ [t]\<rparr>)"
      using serves by (intro records_ok_serve [OF assms(1) t, where r = ?r]) simp_all
    with serves show ?thesis by (simp add: land_def records_ok_def)
  qed
qed

lemma calls_ok_put: "calls_ok s w \<Longrightarrow> call_ok s j \<Longrightarrow> calls_ok s (put_job w t j)"
  by (simp add: calls_ok_def)

lemma call_ok_phase:
  "call_ok s j \<Longrightarrow> (\<And>d ex. p \<noteq> Calling d ex) \<Longrightarrow> call_ok s (j\<lparr>job_reservation := rv, job_phase := p\<rparr>)"
  by (auto simp: call_ok_def split: phase.splits)

text \<open>Where a segment can leave a request: at the end, or about to call a model that fits.\<close>

definition out_ok :: "settings \<Rightarrow> job \<Rightarrow> progress \<times> reservation \<times> service \<Rightarrow> bool" where
  "out_ok s j out \<longleftrightarrow> (\<forall>d ex rv sv. out = (Call d ex, rv, sv) \<longrightarrow> call_ok s (j\<lparr>job_phase := Calling d ex\<rparr>))"

lemma calls_ok_land:
  assumes "calls_ok s w" "call_ok s j" "out_ok s j out"
  shows "calls_ok s (land w t j out)"
proof -
  obtain p rv sv where out: "out = (p, rv, sv)" by (cases out) auto
  show ?thesis
  proof (cases p)
    case (Call d ex)
    then have "call_ok s (j\<lparr>job_reservation := rv, job_phase := Calling d ex\<rparr>)"
      using assms(3) by (simp add: out_ok_def out call_ok_def)
    with assms(1) show ?thesis by (simp add: land_def out Call calls_ok_put)
  next
    case (Finish a)
    with assms(1) call_ok_phase [OF assms(2)] show ?thesis
      by (simp add: land_def out calls_ok_put)
  qed
qed

lemma abort_not_call: "abort sv rv x \<noteq> (Call d ex, rv', sv')"
  by (simp add: abort_def split: prod.splits)

lemma out_ok_begin:
  assumes "call_ok s j" "\<And>d ex. job_phase j \<noteq> Calling d ex"
  shows "out_ok s j (begin_generation e s sv (job_request j) rv (job_decision j))"
  unfolding out_ok_def
proof (intro allI impI)
  fix d ex rv' sv'
  assume "begin_generation e s sv (job_request j) rv (job_decision j) = (Call d ex, rv', sv')"
  then have "seek e s (count request_started sv) (job_request j) (job_decision j) {} = (Inr (d, ex), sv')"
    by (auto simp: begin_generation_def Let_def proceed_def abort_not_call split: sum.splits prod.splits)
  from seek_fits [OF this] assms(1) show "call_ok s (j\<lparr>job_phase := Calling d ex\<rparr>)"
    by (auto simp: call_ok_def)
qed

lemma out_ok_failed:
  assumes "call_ok s j" "job_phase j = Calling d ex"
  shows "out_ok s j (provider_failed e s sv (job_request j) rv d ex x)"
  unfolding out_ok_def
proof (intro allI impI)
  fix d' ex' rv' sv'
  assume "provider_failed e s sv (job_request j) rv d ex x = (Call d' ex', rv', sv')"
  then obtain d1 ex1 sv1 where f: "fail_over e s (job_request j) d ex = Some (d1, ex1)"
    and k: "seek e s sv1 (job_request j) d1 ex1 = (Inr (d', ex'), sv')"
    by (auto simp: provider_failed_def Let_def read_clock_def proceed_def abort_not_call
        split: sum.splits prod.splits if_splits option.splits)
  have fits: "decision_fits s (job_request j) ex d" "ex \<subseteq> name ` set (catalog s)"
    using assms by (auto simp: call_ok_def)
  note ff = fail_over_fits [OF f fits]
  from seek_fits [OF k ff(1,2)] ff assms show "call_ok s (j\<lparr>job_phase := Calling d' ex'\<rparr>)"
    by (simp add: call_ok_def)
qed

lemma out_ok_returned: "out_ok s j (provider_returned e s sv r rv d c)"
  by (auto simp: out_ok_def provider_returned_def Let_def read_clock_def split: prod.splits)

text \<open>One segment of a request that holds a slot keeps the invariant.\<close>

lemma books_ok_land:
  assumes "gate_part w" "ids_ok e w" "entries_ok s w" "records_ok s w" "calls_ok s w"
    and "distinct (calling w)" "set (calling w) = insert t (in_phase w is_calling)"
    and "Metrics.in_flight (metrics (svc w)) = int (length (calling w))"
    and "jobs w t = Some j" "has_slot (job_phase j)"
    and "effect s (svc w) (job_reservation j) out" "out_ok s j out"
  shows "books_ok e s (land w t j out)"
proof -
  have open': "\<not> is_done (job_phase j)" using assms(10) by (cases "job_phase j") simp_all
  have "call_ok s j" using assms(5,9) by (simp add: calls_ok_def)
  then show ?thesis
    unfolding books_ok_def
    by (intro conjI gate_part_land [OF assms(1,9,10,11)] count_part_land [OF assms(6-8,11)]
        ids_ok_land [OF assms(2,9) open' assms(11)] entries_ok_land [OF assms(3,2,9) open' assms(11)]
        records_ok_land [OF assms(4,2,9) open' assms(11)] calls_ok_land [OF assms(5) _ assms(12)])
qed

lemma land_svc: "land (w\<lparr>svc := v\<rparr>) t j out = land w t j out"
  by (auto simp: land_def put_job_def split: prod.splits progress.splits sum.splits)

lemma books_ok_begin:
  assumes "books_ok e s w" "jobs w t = Some j" "job_phase j = Admitted"
  shows "books_ok e s (land (w\<lparr>calling := t # calling w\<rparr>) t j
    (begin_generation e s (svc w) (job_request j) (job_reservation j) (job_decision j)))"
proof -
  define w1 where "w1 = w\<lparr>calling := t # calling w, svc := count request_started (svc w)\<rparr>"
  have b: "gate_part w" "count_part w" "ids_ok e w" "entries_ok s w" "records_ok s w" "calls_ok s w"
    using assms(1) by (simp_all add: books_ok_def)
  have sv1: "ledger (svc w1) = ledger (svc w)" "gate (svc w1) = gate (svc w)" "reads (svc w1) = reads (svc w)"
    "total_cost_usd (metrics (svc w1)) = total_cost_usd (metrics (svc w))"
    "Metrics.in_flight (metrics (svc w1)) = Metrics.in_flight (metrics (svc w)) + 1"
    by (simp_all add: w1_def count_def metrics_simps)
  have w1: "jobs w1 = jobs w" "holding w1 = holding w" "calling w1 = t # calling w" "served w1 = served w"
    by (simp_all add: w1_def)
  have ph: "in_phase w1 P = in_phase w P" for P by (simp add: in_phase_def w1)
  have t: "t \<notin> in_phase w is_calling" by (simp add: in_phase_iff [OF assms(2)] assms(3))
  have "books_ok e s (land w1 t j
      (begin_generation e s (svc w) (job_request j) (job_reservation j) (job_decision j)))"
  proof (rule books_ok_land)
    show "gate_part w1" using b(1) by (simp add: gate_part_def ph sv1 w1)
    show "ids_ok e w1" using b(3) by (simp add: ids_ok_def sv1 w1)
    show "entries_ok s w1" using b(4) by (simp add: entries_ok_def entry_of_def sv1 w1)
    show "records_ok s w1" using b(5) by (simp add: records_ok_def sv1 w1 ph)
    show "calls_ok s w1" using b(6) by (simp add: calls_ok_def w1)
    show "distinct (calling w1)" "set (calling w1) = insert t (in_phase w1 is_calling)"
      "Metrics.in_flight (metrics (svc w1)) = int (length (calling w1))"
      using b(2) t by (simp_all add: count_part_def ph w1 sv1)
    show "jobs w1 t = Some j" using assms(2) by (simp add: w1)
    show "has_slot (job_phase j)" by (simp add: assms(3))
    show "effect s (svc w1) (job_reservation j)
        (begin_generation e s (svc w) (job_request j) (job_reservation j) (job_decision j))"
      unfolding w1_def using effect_begin by simp
    show "out_ok s j (begin_generation e s (svc w) (job_request j) (job_reservation j) (job_decision j))"
      using b(6) assms(2,3) by (intro out_ok_begin) (simp_all add: calls_ok_def)
  qed
  then show ?thesis using land_svc [where w = "w\<lparr>calling := t # calling w\<rparr>"] by (simp add: w1_def)
qed

lemma books_ok_calling:
  assumes "books_ok e s w" "jobs w t = Some j" "is_calling (job_phase j)" "has_slot (job_phase j)"
    and "effect s (svc w) (job_reservation j) out" "out_ok s j out"
  shows "books_ok e s (land w t j out)"
proof -
  have "insert t (in_phase w is_calling) = in_phase w is_calling"
    using assms(3) by (simp add: in_phase_iff [OF assms(2)] insert_absorb)
  then show ?thesis
    using assms by (intro books_ok_land) (simp_all add: books_ok_def count_part_def)
qed

text \<open>A stream moves without touching the books; opening one counts it.\<close>

lemma books_ok_streaming:
  assumes "gate_part w" "ids_ok e w" "entries_ok s w" "records_ok s w" "calls_ok s w"
    and "distinct (calling w)" "set (calling w) = insert t (in_phase w is_calling)"
    and "Metrics.in_flight (metrics (svc w)) = int (length (calling w))"
    and "jobs w t = Some j" "has_slot (job_phase j)"
  shows "books_ok e s (put_job w t (j\<lparr>job_phase := Streaming st\<rparr>))"
proof -
  let ?j = "j\<lparr>job_phase := Streaming st\<rparr>"
  have open': "\<not> is_done (job_phase j)" using assms(10) by (cases "job_phase j") simp_all
  have t: "t \<in> in_phase w has_slot" "t \<notin> in_phase w in_queue" "t \<notin> in_phase w is_served"
    using assms(10) by (cases "job_phase j"; simp add: in_phase_iff [OF assms(9)])+
  have gp: "gate_part (put_job w t ?j)"
    using assms(1) t by (simp add: gate_part_def insert_absorb)
  have cp: "count_part (put_job w t ?j)" using assms(6-8) by (simp add: count_part_def)
  have ids: "ids_ok e (put_job w t ?j)"
    using ids_ok_put [OF assms(2,9), of "svc w" ?j] ids_okD(1) [OF assms(2,9)] open' by simp
  have en: "entries_ok s (put_job w t ?j)"
    using entries_ok_put [OF assms(3,9), of ?j "svc w"] open' by (simp add: owes_open)
  have rec: "records_ok s (put_job w t ?j)"
    using records_ok_put [OF assms(4) t(3), of ?j "svc w"] by simp
  have "calls_ok s (put_job w t ?j)"
    using assms(5,9) by (intro calls_ok_put) (auto simp: calls_ok_def call_ok_def split: phase.splits)
  with gp cp ids en rec show ?thesis by (simp add: books_ok_def)
qed

lemma books_ok_open_stream:
  assumes "books_ok e s w" "jobs w t = Some j" "job_phase j = Admitted"
  shows "books_ok e s (put_job (w\<lparr>svc := count request_started (svc w), calling := t # calling w\<rparr>) t
    (j\<lparr>job_phase := Streaming st\<rparr>))"
proof -
  let ?w = "w\<lparr>svc := count request_started (svc w), calling := t # calling w\<rparr>"
  have b: "gate_part w" "count_part w" "ids_ok e w" "entries_ok s w" "records_ok s w" "calls_ok s w"
    using assms(1) by (simp_all add: books_ok_def)
  have t: "t \<notin> in_phase w is_calling" by (simp add: in_phase_iff [OF assms(2)] assms(3))
  show ?thesis
  proof (rule books_ok_streaming)
    show "gate_part ?w" using b(1) by (simp add: gate_part_def count_def)
    show "ids_ok e ?w" using b(3) by (simp add: ids_ok_def count_def)
    show "entries_ok s ?w" using b(4) by (simp add: entries_ok_def entry_of_def count_def)
    show "records_ok s ?w" using b(5) by (simp add: records_ok_def count_def metrics_simps)
    show "calls_ok s ?w" using b(6) by (simp add: calls_ok_def)
    show "distinct (calling ?w)" "set (calling ?w) = insert t (in_phase ?w is_calling)"
      "Metrics.in_flight (metrics (svc ?w)) = int (length (calling ?w))"
      using b(2) t by (simp_all add: count_part_def count_def metrics_simps)
    show "jobs ?w t = Some j" using assms(2) by simp
    show "has_slot (job_phase j)" by (simp add: assms(3))
  qed
qed

text \<open>A dropped call gives its slot back and leaves everything else as it is: its hold stays owed.\<close>

lemma books_ok_drop:
  assumes "books_ok e s w" "jobs w t = Some j" "job_phase j = Calling d ex"
  shows "books_ok e s (drop_call w t j)"
proof -
  let ?v = "provider_cancelled (svc w)" and ?j = "j\<lparr>job_phase := Dropped True\<rparr>"
  have b: "gate_part w" "count_part w" "ids_ok e w" "entries_ok s w" "records_ok s w" "calls_ok s w"
    using assms(1) by (simp_all add: books_ok_def)
  have v: "ledger ?v = ledger (svc w)" "metrics ?v = metrics (svc w)" "reads ?v = reads (svc w)"
    "gate ?v = Gate.release (gate (svc w))" by (simp_all add: provider_cancelled_def)
  have t: "t \<in> in_phase w has_slot" "t \<notin> in_phase w in_queue" "t \<in> in_phase w is_calling" "t \<notin> in_phase w is_served"
    by (simp_all add: in_phase_iff [OF assms(2)] assms(3))
  have ok: "gate_ok (gate_of w)" "set (holding w) = in_phase w has_slot" using b(1) by (simp_all add: gate_part_def)
  have "gate_part (drop_call w t j)"
    using gate_ok_release [OF ok(1), of t] b(1) t ok
    by (simp add: gate_part_def drop_call_def v gate_ok_def Gate.release_def)
  moreover have "count_part (put_job (w\<lparr>svc := ?v\<rparr>) t ?j)"
    using b(2) t(3) by (simp add: count_part_def v insert_absorb)
  moreover have "ids_ok e (put_job (w\<lparr>svc := ?v\<rparr>) t ?j)"
    using ids_okD(1) [OF b(3) assms(2)] assms(3) by (intro ids_ok_put [OF b(3) assms(2)]) (simp_all add: v)
  moreover have "entries_ok s (put_job (w\<lparr>svc := ?v\<rparr>) t ?j)"
    using entries_ok_put [OF b(4) assms(2), of ?j ?v] assms(3) by (simp add: owes_open v)
  moreover have "records_ok s (put_job (w\<lparr>svc := ?v\<rparr>) t ?j)"
    using records_ok_put [OF b(5) t(4), of ?j ?v] by (simp add: v)
  moreover have "calls_ok s (put_job (w\<lparr>svc := ?v\<rparr>) t ?j)"
    using b(6) assms(2) by (intro calls_ok_put) (auto simp: calls_ok_def call_ok_def)
  ultimately show ?thesis by (simp add: books_ok_def drop_call_def)
qed

lemma out_ok_settle: "out_ok s j (settle_stream e s sv r rv d st u)"
  by (auto simp: out_ok_def settle_stream_def Let_def read_clock_def split: prod.splits)

text \<open>A segment before the request holds a slot, as far as the books are concerned.\<close>

lemma books_ok_waiting:
  assumes "books_ok e s w" "jobs w t = Some j" "\<not> is_done (job_phase j)" "\<not> is_done p" "\<not> is_calling p"
    and "\<not> is_calling (job_phase j)" "\<And>d ex. p \<noteq> Calling d ex"
    and "ledger v = ledger (svc w)" "metrics v = metrics (svc w)" "reads v = reads (svc w)"
  shows "count_part (put_job (w\<lparr>svc := v\<rparr>) t (j\<lparr>job_phase := p\<rparr>)) \<and>
    ids_ok e (put_job (w\<lparr>svc := v\<rparr>) t (j\<lparr>job_phase := p\<rparr>)) \<and>
    entries_ok s (put_job (w\<lparr>svc := v\<rparr>) t (j\<lparr>job_phase := p\<rparr>)) \<and>
    records_ok s (put_job (w\<lparr>svc := v\<rparr>) t (j\<lparr>job_phase := p\<rparr>)) \<and>
    calls_ok s (put_job (w\<lparr>svc := v\<rparr>) t (j\<lparr>job_phase := p\<rparr>))"
proof -
  let ?j = "j\<lparr>job_phase := p\<rparr>"
  have b: "count_part w" "ids_ok e w" "entries_ok s w" "records_ok s w" "calls_ok s w"
    using assms(1) by (simp_all add: books_ok_def)
  have t: "t \<notin> in_phase w is_calling" "t \<notin> in_phase w is_served"
    using assms(3,6) by (cases "job_phase j"; simp add: in_phase_iff [OF assms(2)])+
  have served: "\<not> is_served p" using assms(4) by (cases p) simp_all
  have "count_part (put_job (w\<lparr>svc := v\<rparr>) t ?j)"
    by (rule count_part_outside [OF b(1) _ t(1)]) (simp_all add: assms)
  moreover have "ids_ok e (put_job (w\<lparr>svc := v\<rparr>) t ?j)"
    using ids_okD(1) [OF b(2) assms(2)] assms(3,4) by (intro ids_ok_put [OF b(2) assms(2)]) (simp_all add: assms(10))
  moreover have "entries_ok s (put_job (w\<lparr>svc := v\<rparr>) t ?j)"
    by (rule entries_ok_put [OF b(3) assms(2)]) (simp_all add: assms(3,4,8) owes_open)
  moreover have "records_ok s (put_job (w\<lparr>svc := v\<rparr>) t ?j)"
    by (rule records_ok_put [OF b(4) t(2)]) (simp_all add: served assms(8,9))
  moreover have "calls_ok s (put_job (w\<lparr>svc := v\<rparr>) t ?j)"
    using b(5) assms(2,7) by (intro calls_ok_put) (auto simp: calls_ok_def call_ok_def split: phase.splits)
  ultimately show ?thesis by blast
qed

lemma books_ok_at_gate:
  assumes "books_ok e s w" "jobs w t = Some j" "\<not> is_done (job_phase j)" "\<not> is_calling (job_phase j)"
    and "gate_part (at_gate w t j got)"
  shows "books_ok e s (at_gate w t j got)"
proof -
  define p where "p = (if fst got then Admitted else Queued)"
  have "at_gate w t j got = put_job (w\<lparr>svc := (svc w)\<lparr>gate := snd got\<rparr>\<rparr>) t (j\<lparr>job_phase := p\<rparr>) \<or>
      at_gate w t j got = (put_job (w\<lparr>svc := (svc w)\<lparr>gate := snd got\<rparr>\<rparr>) t (j\<lparr>job_phase := p\<rparr>))
        \<lparr>holding := t # holding w\<rparr>"
    by (simp add: at_gate_def Let_def set_gate_def p_def)
  moreover note books_ok_waiting [OF assms(1-3) _ _ assms(4), of p "(svc w)\<lparr>gate := snd got\<rparr>"]
  ultimately show ?thesis
    using assms(5) by (auto simp: books_ok_def p_def)
qed

text \<open>Leaving the queue with a refund.\<close>

lemma leave_shed_eq:
  "\<exists>v. leave_shed s w t j = put_job (w\<lparr>svc := v\<rparr>) t (j\<lparr>job_reservation := snd (Ledger.release (ledger (svc w)) (job_reservation j)),
       job_phase := Done (Inl (AdmissionTimeoutError (admission_timeout_s s)))\<rparr>) \<and>
     ledger v = fst (Ledger.release (ledger (svc w)) (job_reservation j)) \<and> gate v = gate (svc w) \<and>
     reads v = reads (svc w) \<and> Metrics.in_flight (metrics v) = Metrics.in_flight (metrics (svc w)) \<and>
     total_cost_usd (metrics v) = total_cost_usd (metrics (svc w))"
  by (auto simp: leave_shed_def shed_def Let_def count_def metrics_simps split: prod.splits
      intro!: exI [of _ "snd (shed s (svc w) (job_reservation j))"])

lemma books_ok_shed:
  assumes "ids_ok e w" "entries_ok s w" "records_ok s w" "calls_ok s w" "count_part w"
    and "jobs w t = Some j" "\<not> is_done (job_phase j)" "\<not> is_calling (job_phase j)"
    and "gate_part (leave_shed s w t j)"
  shows "books_ok e s (leave_shed s w t j)"
proof -
  let ?rv = "snd (Ledger.release (ledger (svc w)) (job_reservation j))"
  let ?j = "j\<lparr>job_reservation := ?rv, job_phase := Done (Inl (AdmissionTimeoutError (admission_timeout_s s)))\<rparr>"
  obtain v where l: "leave_shed s w t j = put_job (w\<lparr>svc := v\<rparr>) t ?j"
    and v: "ledger v = fst (Ledger.release (ledger (svc w)) (job_reservation j))" "reads v = reads (svc w)"
      "Metrics.in_flight (metrics v) = Metrics.in_flight (metrics (svc w))"
      "total_cost_usd (metrics v) = total_cost_usd (metrics (svc w))"
    using leave_shed_eq by blast
  have open': "\<not> res_closed (job_reservation j)" using ids_okD(1) [OF assms(1,6)] assms(7) by simp
  note rel = release_open [OF open']
  have t: "t \<notin> in_phase w is_calling" "t \<notin> in_phase w is_served"
    using assms(7,8) by (cases "job_phase j"; simp add: in_phase_iff [OF assms(6)])+
  have "count_part (put_job (w\<lparr>svc := v\<rparr>) t ?j)"
    by (rule count_part_outside [OF assms(5) v(3) t(1)]) simp
  moreover have "ids_ok e (put_job (w\<lparr>svc := v\<rparr>) t ?j)"
    by (rule ids_ok_put [OF assms(1,6)]) (simp_all add: v rel)
  moreover have "entries_ok s (put_job (w\<lparr>svc := v\<rparr>) t ?j)"
    by (rule entries_ok_refund [OF assms(2,1,6,7) v(1)]) (simp_all add: rel)
  moreover have "records_ok s (put_job (w\<lparr>svc := v\<rparr>) t ?j)"
    by (rule records_ok_put [OF assms(3) t(2)]) (simp_all add: v rel)
  moreover have "calls_ok s (put_job (w\<lparr>svc := v\<rparr>) t ?j)"
    using assms(4,6) by (intro calls_ok_put) (auto simp: calls_ok_def call_ok_def)
  ultimately show ?thesis using assms(9) by (simp add: books_ok_def l)
qed

text \<open>Arrivals.\<close>

lemma books_ok_answered:
  assumes "books_ok e s w" "arrive e s (svc w) r = (out, sv)" "\<not> (\<exists>d rv. out = Holding d rv)"
  shows "books_ok e s (w\<lparr>svc := sv, answers := a\<rparr>)"
proof -
  have b: "gate_part w" "count_part w" "ids_ok e w" "entries_ok s w" "records_ok s w" "calls_ok s w"
    using assms(1) by (simp_all add: books_ok_def)
  note q = arrive_effect(1) [OF assms(2), unfolded quiet_def] and L = arrive_effect(2) [OF assms(2,3)]
  have rec: "usage_records (ledger sv) = usage_records (ledger (svc w))" using L by auto
  have "ids_ok e (w\<lparr>svc := sv\<rparr>)"
    using b(3) q unfolding ids_ok_def by (simp, meson less_le_trans)
  with b q entries_ok_prune [OF b(4) L] records_ok_same [OF b(5) rec] show ?thesis
    by (simp add: books_ok_def gate_part_def count_part_def)
qed

lemma books_ok_held:
  assumes "books_ok e s w" "arrive e s (svc w) r = (Holding d rv, sv)" "jobs w t = None" "inj (fresh_id e)"
  shows "books_ok e s (put_job (w\<lparr>svc := sv\<rparr>) t
    \<lparr>job_request = r, job_decision = d, job_reservation = rv, job_phase = Reserved\<rparr>)"
proof -
  let ?j = "\<lparr>job_request = r, job_decision = d, job_reservation = rv, job_phase = Reserved\<rparr>"
  have b: "gate_part w" "count_part w" "ids_ok e w" "entries_ok s w" "records_ok s w" "calls_ok s w"
    using assms(1) by (simp_all add: books_ok_def)
  note q = arrive_effect(1) [OF assms(2), unfolded quiet_def]
  obtain now n where rt: "route (tokenizer e) (prompt r) s (task_type r) (max_output_tokens r) (budget_usd r)
      (force_model r) {} = Inr d"
    and n: "reads (svc w) \<le> n" "n < reads sv"
    and rsv: "reserve now (fresh_id e n) (ledger (svc w)) (user_id r) (projected_cost d) (user_limit s r) =
      (Inr rv, ledger sv)"
    using arrive_effect(3) [OF assms(2) refl] by blast
  note granted = reserve_granted [OF rsv]
  have t: "t \<notin> in_phase w P" for P using assms(3) by (simp add: in_phase_def)
  have "gate_part (put_job (w\<lparr>svc := sv\<rparr>) t ?j)"
    by (rule gate_part_outside [OF b(1) _ t t]) (simp_all add: q)
  moreover have "count_part (put_job (w\<lparr>svc := sv\<rparr>) t ?j)"
    by (rule count_part_outside [OF b(2) _ t]) (simp_all add: q)
  moreover have "ids_ok e (put_job (w\<lparr>svc := sv\<rparr>) t ?j)"
    by (rule ids_ok_new [OF b(3) assms(3) n assms(4)]) (simp_all add: granted(1))
  moreover have "entries_ok s (put_job (w\<lparr>svc := sv\<rparr>) t ?j)"
    by (rule entries_ok_hold [OF b(4,3) assms(3,4) n(1) rsv refl])
  moreover have "records_ok s (put_job (w\<lparr>svc := sv\<rparr>) t ?j)"
    by (rule records_ok_put [OF b(5) t]) (simp_all add: q granted(2))
  moreover have "calls_ok s (put_job (w\<lparr>svc := sv\<rparr>) t ?j)"
    using b(6) route_fits [OF rt] by (intro calls_ok_put) (simp_all add: call_ok_def)
  ultimately show ?thesis by (simp add: books_ok_def)
qed

lemma tick_frame:
  "ledger (snd (autoscale_tick e s sv)) = ledger sv"
  "Metrics.in_flight (metrics (snd (autoscale_tick e s sv))) = Metrics.in_flight (metrics sv)"
  "total_cost_usd (metrics (snd (autoscale_tick e s sv))) = total_cost_usd (metrics sv)"
  "reads sv \<le> reads (snd (autoscale_tick e s sv))"
  by (auto simp: autoscale_tick_def Let_def read_clock_def count_def metrics_simps
      split: prod.splits sum.splits)

lemma books_ok_tick: "books_ok e s w \<Longrightarrow> books_ok e s (w\<lparr>svc := snd (autoscale_tick e s (svc w))\<rparr>)"
proof -
  assume b: "books_ok e s w"
  let ?v = "snd (autoscale_tick e s (svc w))"
  have "ids_ok e (w\<lparr>svc := ?v\<rparr>)"
    using b tick_frame(4) [where sv = "svc w" and e = e and s = s] unfolding books_ok_def ids_ok_def
    by (simp, meson less_le_trans)
  with b gate_part_tick [of w e s] show ?thesis
    by (simp add: books_ok_def count_part_def entries_ok_def records_ok_def tick_frame)
qed

lemma set_gate_books:
  assumes "books_ok e s w"
  shows "ids_ok e (set_gate w g)" "entries_ok s (set_gate w g)" "records_ok s (set_gate w g)"
    "calls_ok s (set_gate w g)" "count_part (set_gate w g)"
  using assms
  by (simp_all add: books_ok_def ids_ok_def entries_ok_def entry_of_def records_ok_def calls_ok_def count_part_def)

lemma gate_part_leave:
  assumes "gate_part w" "jobs w t = Some j" "job_phase j = Reserved"
  shows "gate_part (leave_shed s w t j)"
proof -
  obtain v where l: "leave_shed s w t j = put_job (w\<lparr>svc := v\<rparr>) t
      (j\<lparr>job_reservation := snd (Ledger.release (ledger (svc w)) (job_reservation j)),
         job_phase := Done (Inl (AdmissionTimeoutError (admission_timeout_s s)))\<rparr>)"
    and v: "gate v = gate (svc w)"
    using leave_shed_eq by blast
  show ?thesis
    unfolding l using assms by (intro gate_part_outside) (simp_all add: v in_phase_iff)
qed

lemma gate_part_shed:
  assumes "gate_part w" "jobs w t = Some j" "job_phase j = Queued"
    and "(t, Cancelling) \<in> set (waiters (gate (svc w)))"
  shows "gate_part (leave_shed s (set_gate w (unwind t (gate (svc w)))) t j)"
proof -
  let ?w = "set_gate w (unwind t (gate (svc w)))"
  let ?j = "j\<lparr>job_reservation := snd (Ledger.release (ledger (svc ?w)) (job_reservation j)),
         job_phase := Done (Inl (AdmissionTimeoutError (admission_timeout_s s)))\<rparr>"
  obtain v where l: "leave_shed s ?w t j = put_job (?w\<lparr>svc := v\<rparr>) t ?j" and v: "gate v = gate (svc ?w)"
    using leave_shed_eq by blast
  have eq: "put_job (?w\<lparr>svc := v\<rparr>) t ?j = put_job (w\<lparr>svc := v\<rparr>) t ?j"
    by (simp add: put_job_def set_gate_def)
  show ?thesis
    unfolding l eq by (rule gate_part_unwind [OF assms(1,2) _ _ assms(4)]) (simp_all add: v assms(3))
qed

text \<open>A request whose task is cancelled before it has a slot leaves its hold behind, and nothing else.\<close>

lemma gate_part_leaving:
  assumes "gate_part w" "jobs w t = Some j" "job_phase j = Queued"
  shows "gate_part (put_job (set_gate w (cancel t (gate (svc w)))) t (j\<lparr>job_phase := Leaving\<rparr>))"
proof -
  have "t \<notin> in_phase w has_slot" "t \<in> in_phase w in_queue"
    by (simp_all add: in_phase_iff [OF assms(2)] assms(3))
  with gate_part_cancel [OF assms(1), of t] show ?thesis by (simp add: gate_part_def insert_absorb)
qed

lemma books_ok_give_up:
  assumes "books_ok e s w" "jobs w t = Some j" "job_phase j = Reserved \<or> in_queue (job_phase j)"
    and "p = Leaving \<or> p = Dropped False"
    and "gate_part (put_job (set_gate w g) t (j\<lparr>job_phase := p\<rparr>))"
  shows "books_ok e s (put_job (set_gate w g) t (j\<lparr>job_phase := p\<rparr>))"
proof -
  have "\<not> is_done (job_phase j)" "\<not> is_calling (job_phase j)" using assms(3) by (cases "job_phase j"; simp)+
  moreover have "\<not> is_done p" "\<not> is_calling p" "p \<noteq> Calling d ex" for d ex using assms(4) by auto
  moreover note books_ok_waiting [OF assms(1,2), of p "(svc w)\<lparr>gate := g\<rparr>"]
  ultimately show ?thesis using assms(5) by (simp add: books_ok_def set_gate_def)
qed

lemma calling_fits:
  assumes "calls_ok s w" "jobs w t = Some j" "job_phase j = Calling d ex"
  shows "decision_fits s (job_request j) ex d" "ex \<subseteq> name ` set (catalog s)"
    "forced (force_model (job_request j)) \<or> \<not> fallback_enabled s \<Longrightarrow> d = job_decision j \<and> ex = {}"
proof -
  have "call_ok s j" using assms(1,2) by (simp add: calls_ok_def)
  with assms(3) show "decision_fits s (job_request j) ex d" "ex \<subseteq> name ` set (catalog s)"
    "forced (force_model (job_request j)) \<or> \<not> fallback_enabled s \<Longrightarrow> d = job_decision j \<and> ex = {}"
    by (simp_all add: call_ok_def)
qed

lemma held_fits:
  "calls_ok s w \<Longrightarrow> jobs w t = Some j \<Longrightarrow> decision_fits s (job_request j) {} (job_decision j)"
  by (simp add: calls_ok_def call_ok_def)

lemma held_model: "calls_ok s w \<Longrightarrow> jobs w t = Some j \<Longrightarrow> Router.model (job_decision j) \<in> set (catalog s)"
  using held_fits [of s w t j] by (simp add: decision_fits_def)

lemma books_ok_step:
  assumes "svc_step e s w ev w'" "books_ok e s w" "inj (fresh_id e)"
  shows "books_ok e s w'"
proof -
  have gp: "gate_part w" using assms(2) by (simp add: books_ok_def)
  have b: "ids_ok e w" "entries_ok s w" "records_ok s w" "calls_ok s w" "count_part w"
    using assms(2) by (simp_all add: books_ok_def)
  note sg = set_gate_books [OF assms(2)]
  show ?thesis
  using assms(1)
proof cases
  case (step_refused t r x sv)
  with books_ok_answered [OF assms(2)] show ?thesis by simp
next
  case (step_cached t r res sv)
  with books_ok_answered [OF assms(2)] show ?thesis by simp
next
  case (step_holding t r d rv sv)
  with books_ok_held [OF assms(2) _ _ assms(3)] show ?thesis by simp
next
  case (step_enter t j)
  with books_ok_at_gate [OF assms(2) step_enter(3) _ _ gate_part_acquire [OF gp step_enter(3,4)]]
  show ?thesis by simp
next
  case (step_wake_up t j)
  with books_ok_at_gate [OF assms(2) step_wake_up(3) _ _ gate_part_wake [OF gp step_wake_up(3-5)]]
  show ?thesis by simp
next
  case (step_expire_entering t j)
  with books_ok_shed [OF b step_expire_entering(3) _ _ gate_part_leave [OF gp step_expire_entering(3,4)]]
  show ?thesis by simp
next
  case (step_expire_waiting t j)
  with sg gate_part_cancel [OF gp] show ?thesis by (simp add: books_ok_def)
next
  case (step_shed t j)
  have jobs: "jobs (set_gate w (unwind t (gate (svc w)))) t = Some j" using step_shed(3) by simp
  have "books_ok e s (leave_shed s (set_gate w (unwind t (gate (svc w)))) t j)"
    by (rule books_ok_shed [OF sg jobs _ _ gate_part_shed [OF gp step_shed(3-5)]])
      (simp_all add: step_shed(4))
  with step_shed(2) show ?thesis by simp
next
  case (step_begin t j)
  with books_ok_begin [OF assms(2)] show ?thesis by simp
next
  case (step_reply t j d ex c)
  have "Router.model d \<in> set (catalog s)"
    using calling_fits [OF b(4) step_reply(3,4)] by (simp add: decision_fits_def)
  with step_reply show ?thesis
    using books_ok_calling [OF assms(2) _ _ _ effect_returned out_ok_returned] by auto
next
  case (step_fault t j d ex x)
  have "call_ok s j" using assms(2) step_fault by (simp add: books_ok_def calls_ok_def)
  with step_fault show ?thesis
    using books_ok_calling [OF assms(2) _ _ _ effect_failed out_ok_failed] by auto
next
  case (step_cancel_call t j d ex)
  with books_ok_drop [OF assms(2)] show ?thesis by simp
next
  case (step_give_up_entering t j)
  have "gate_part (put_job (w\<lparr>svc := svc w\<rparr>) t (j\<lparr>job_phase := Dropped False\<rparr>))"
    using step_give_up_entering(4) by (intro gate_part_outside [OF gp]) (simp_all add: in_phase_iff [OF step_give_up_entering(3)])
  with books_ok_give_up [OF assms(2) step_give_up_entering(3), of "Dropped False" "gate (svc w)"] step_give_up_entering
  show ?thesis by (simp add: set_gate_def)
next
  case (step_give_up_waiting t j)
  with books_ok_give_up [OF assms(2) step_give_up_waiting(3) _ _ gate_part_leaving [OF gp step_give_up_waiting(3,4)]]
  show ?thesis by simp
next
  case (step_leave t j)
  have "gate_part (put_job (w\<lparr>svc := (svc w)\<lparr>gate := unwind t (gate (svc w))\<rparr>\<rparr>) t (j\<lparr>job_phase := Dropped False\<rparr>))"
    using step_leave by (intro gate_part_unwind [OF gp step_leave(3)]) simp_all
  with books_ok_give_up [OF assms(2) step_leave(3), of "Dropped False" "unwind t (gate (svc w))"] step_leave
  show ?thesis by (simp add: set_gate_def)
next
  case (step_open_stream t j)
  with books_ok_open_stream [OF assms(2)] show ?thesis by simp
next
  case (step_stream t j st i st')
  have "set (calling w) = insert t (in_phase w is_calling)"
    using b(5) step_stream(4) by (simp add: count_part_def in_phase_iff [OF step_stream(3)] insert_absorb)
  with step_stream books_ok_streaming [OF gp b(1-4) _ _ _ step_stream(3)] b(5) show ?thesis
    by (simp add: count_part_def)
next
  case (step_settle_stream t j st u)
  note m = held_model [OF b(4) step_settle_stream(3)]
  with step_settle_stream show ?thesis
    using books_ok_calling [OF assms(2) step_settle_stream(3) _ _ effect_settle_stream out_ok_settle] by simp
next
  case step_tick
  with books_ok_tick [OF assms(2)] show ?thesis by simp
qed
qed

lemma books_ok_new: "books_ok e s (new_svc_world s)"
  by (simp add: books_ok_def new_svc_world_def gate_part_def count_part_def ids_ok_def entries_ok_def
      records_ok_def calls_ok_def in_phase_def new_service_def new_metrics_def wf_ledger_def
      gate_ok_def new_gate_def new_ledger_def)

lemma books_ok_reachable: "reachable e s w \<Longrightarrow> inj (fresh_id e) \<Longrightarrow> books_ok e s w"
  by (induction rule: reachable.induct) (simp_all add: books_ok_new books_ok_step)

text \<open>The streams of a reachable world are runs of the stream protocol.\<close>

lemma land_jobs:
  "jobs (land w t j out) t' = (if t' = t then Some (j\<lparr>job_reservation := fst (snd out),
     job_phase := (case fst out of Call d ex \<Rightarrow> Calling d ex | Finish a \<Rightarrow> Done a)\<rparr>) else jobs w t')"
  by (auto simp: land_def split: prod.splits progress.splits)

definition streams_ok :: "env \<Rightarrow> settings \<Rightarrow> world \<Rightarrow> bool" where
  "streams_ok e s w \<longleftrightarrow>
     (\<forall>t j st. jobs w t = Some j \<and> job_phase j = Streaming st \<longrightarrow> stream_run e s (job_decision j) st)"

lemma streams_ok_put:
  assumes "streams_ok e s w" "\<And>st. job_phase j = Streaming st \<Longrightarrow> stream_run e s (job_decision j) st"
    and "jobs w' = (jobs w)(t \<mapsto> j)"
  shows "streams_ok e s w'"
  using assms unfolding streams_ok_def by auto

lemma streams_ok_same: "streams_ok e s w \<Longrightarrow> jobs w' = jobs w \<Longrightarrow> streams_ok e s w'"
  by (simp add: streams_ok_def)

lemma streams_ok_land: "streams_ok e s w \<Longrightarrow> streams_ok e s (land w t j out)"
  by (rule streams_ok_put [where t = t]) (auto simp: land_jobs split: progress.splits)

lemma leave_shed_jobs:
  "\<exists>rv x. jobs (leave_shed s w t j) = (jobs w)(t \<mapsto> j\<lparr>job_reservation := rv, job_phase := Done (Inl x)\<rparr>)"
  using leave_shed_eq [of s w t j] by (elim exE conjE) (intro exI, simp)

lemma streams_ok_shed: "streams_ok e s w \<Longrightarrow> streams_ok e s (leave_shed s w t j)"
  using leave_shed_jobs [of s w t j] by (elim exE) (rule streams_ok_put [where t = t], auto)

lemma streams_ok_at_gate: "streams_ok e s w \<Longrightarrow> streams_ok e s (at_gate w t j got)"
  by (rule streams_ok_put [where t = t and j = "j\<lparr>job_phase := if fst got then Admitted else Queued\<rparr>"])
    (auto simp: at_gate_def Let_def split: if_splits)

lemma streams_ok_idle:
  "streams_ok e s w \<Longrightarrow> (\<And>st. p \<noteq> Streaming st) \<Longrightarrow> streams_ok e s (put_job (set_gate w g) t (j\<lparr>job_phase := p\<rparr>))"
  "streams_ok e s w \<Longrightarrow> (\<And>st. p \<noteq> Streaming st) \<Longrightarrow> streams_ok e s (put_job w t (j\<lparr>job_phase := p\<rparr>))"
  by (auto simp: streams_ok_def)

lemma streams_ok_step:
  assumes "svc_step e s w ev w'" "streams_ok e s w"
  shows "streams_ok e s w'"
  using assms(1)
proof cases
  case (step_holding t r d rv sv)
  then show ?thesis by (intro streams_ok_put [OF assms(2), where t = t]) auto
next
  case (step_begin t j)
  have "streams_ok e s (w\<lparr>calling := t # calling w\<rparr>)" by (rule streams_ok_same [OF assms(2)]) simp
  with step_begin show ?thesis by (simp add: streams_ok_land)
next
  case (step_shed t j)
  have "streams_ok e s (set_gate w (unwind t (gate (svc w))))" by (rule streams_ok_same [OF assms(2)]) simp
  with step_shed show ?thesis by (simp add: streams_ok_shed)
next
  case (step_cancel_call t j d ex)
  show ?thesis
    by (rule streams_ok_put [OF assms(2), where t = t]) (use step_cancel_call in \<open>auto simp: drop_call_def\<close>)
next
  case (step_open_stream t j)
  show ?thesis
    by (rule streams_ok_put [OF assms(2), where t = t]) (use step_open_stream run_open in auto)
next
  case (step_stream t j st i st')
  then have "stream_run e s (job_decision j) st" using assms(2) by (simp add: streams_ok_def)
  from run_next [OF this step_stream(5)] step_stream show ?thesis
    by (intro streams_ok_put [OF assms(2), where t = t]) auto
qed (use assms(2) in \<open>simp_all add: streams_ok_idle streams_ok_land streams_ok_shed streams_ok_at_gate streams_ok_same\<close>)

lemma streams_ok_reachable: "reachable e s w \<Longrightarrow> streams_ok e s w"
proof (induction rule: reachable.induct)
  case reach_new
  then show ?case by (simp add: streams_ok_def new_svc_world_def)
qed (rule streams_ok_step)

end
