(* ===== verification/Holdings.thy ===== *)
theory Holdings
  imports Interleaving
begin

text \<open>
  The other direction of the books of \<open>Interleaving.thy\<close>: what is owed is in the ledger. A request that has its hold and is
  not finished has the entry of that hold, a served request the entry of its charge, under the time it was
  made; the only entries that go without being closed are those that a pruning found outside the window.
\<close>

definition outdated :: "env \<Rightarrow> service \<Rightarrow> f64 \<Rightarrow> bool" where
  "outdated e sv ts \<longleftrightarrow> (\<exists>n < reads sv. ts < fsub (wall e n) (window_seconds (ledger sv)))"

definition in_books :: "env \<Rightarrow> service \<Rightarrow> string \<Rightarrow> entry \<Rightarrow> bool" where
  "in_books e sv u x \<longleftrightarrow> x \<in> set (spend (ledger sv) u) \<or> outdated e sv (entry_time x)"

definition hold_entry :: "job \<Rightarrow> entry" where
  "hold_entry j = (res_created_at (job_reservation j), projected_cost (job_decision j), res_id (job_reservation j))"

definition charge_entry :: "job \<Rightarrow> usage_record \<Rightarrow> entry" where
  "charge_entry j r = (rec_at r, rec_cost r, res_id (job_reservation j))"

abbreviation charge_kept :: "env \<Rightarrow> world \<Rightarrow> task \<Rightarrow> usage_record \<Rightarrow> bool" where
  "charge_kept e w t r \<equiv> \<exists>j. jobs w t = Some j \<and> in_books e (svc w) (user_id (job_request j)) (charge_entry j r)"

definition kept :: "env \<Rightarrow> world \<Rightarrow> bool" where
  "kept e w \<longleftrightarrow>
     (\<forall>t j. jobs w t = Some j \<and> \<not> is_done (job_phase j) \<longrightarrow> in_books e (svc w) (user_id (job_request j)) (hold_entry j)) \<and>
     list_all2 (charge_kept e w) (served w) (usage_records (ledger (svc w)))"

section \<open>Entries stay\<close>

lemma outdated_later:
  "outdated e sv ts \<Longrightarrow> reads sv \<le> reads v \<Longrightarrow> window_seconds (ledger v) = window_seconds (ledger sv) \<Longrightarrow> outdated e v ts"
  unfolding outdated_def by (metis less_le_trans)

lemma in_books_same:
  "in_books e sv u x \<Longrightarrow> ledger v = ledger sv \<Longrightarrow> reads sv \<le> reads v \<Longrightarrow> in_books e v u x"
  unfolding in_books_def by (metis outdated_later)

lemma in_books_prune:
  assumes "in_books e sv u x" "spend (ledger v) u = spend (prune (wall e n) (ledger sv) u0) u @ more_entries"
    and "window_seconds (ledger v) = window_seconds (ledger sv)" "reads sv \<le> reads v" "n < reads v"
  shows "in_books e v u x"
proof (cases "outdated e sv (entry_time x)")
  case True
  with outdated_later [OF True assms(4,3)] show ?thesis by (simp add: in_books_def)
next
  case False
  then have x: "x \<in> set (spend (ledger sv) u)" using assms(1) by (simp add: in_books_def)
  show ?thesis
  proof (cases "fsub (wall e n) (window_seconds (ledger sv)) \<le> entry_time x")
    case True
    with x assms(2) show ?thesis by (cases "u = u0") (simp_all add: in_books_def spend_prune)
  next
    case False
    with assms(3,5) have "outdated e v (entry_time x)" unfolding outdated_def by (auto simp: not_le)
    then show ?thesis by (simp add: in_books_def)
  qed
qed

lemma window_frame [simp]:
  "window_seconds (prune now L u) = window_seconds L"
  "window_seconds (fst (Ledger.release L r)) = window_seconds L"
  "window_seconds (fst (settle now L r c m i out)) = window_seconds L"
  by (simp_all add: prune_def Ledger.release_def settle_def Let_def set_spend_def)

text \<open>Closing a reservation takes the entry of its id and no other.\<close>

lemma in_books_close:
  assumes "in_books e sv u x" "wf_ledger (ledger sv)" "entry_id x \<noteq> rid" "reads sv \<le> reads v"
    and "window_seconds (ledger v) = window_seconds (ledger sv)"
    and "spend (ledger v) u = (if u = u0 then drop_entry rid (spend (ledger sv) u) @ more_entries else spend (ledger sv) u)"
  shows "in_books e v u x"
proof (cases "outdated e sv (entry_time x)")
  case True
  with outdated_later [OF True assms(4,5)] show ?thesis by (simp add: in_books_def)
next
  case False
  with assms show ?thesis by (auto simp: in_books_def drop_entry_filter wf_ledger_def)
qed

text \<open>An arrival leaves the ledger alone, prunes it at a reading of the clock, or makes a hold at one.\<close>

lemma arrive_ledger:
  assumes "arrive e s sv r = (out, sv')"
  shows "ledger sv' = ledger sv \<and> \<not> (\<exists>d rv. out = Holding d rv) \<or>
    (\<exists>n < reads sv'. case out of
       Holding d rv \<Rightarrow> (\<exists>rid. reserve (wall e n) rid (ledger sv) (user_id r) (projected_cost d) (user_limit s r) = (Inr rv, ledger sv'))
     | _ \<Rightarrow> ledger sv' = prune (wall e n) (ledger sv) (user_id r))"
proof -
  obtain o1 s1 where 1: "check_rate_limit e sv (user_id r) = (o1, s1)" by fastforce
  obtain o2 s2 where 2: "route_request e s s1 r = (o2, s2)" by fastforce
  have q: "ledger s1 = ledger sv" "ledger s2 = ledger sv" using quiet_rate_limit [OF 1] quiet_route [OF 2] by auto
  consider (early) "sv' = s1 \<or> sv' = s2" "\<not> (\<exists>d rv. out = Holding d rv)"
    | (cached) d0 o3 where "lookup_cache e s2 d0 (prompt r) = (o3, sv')" "\<not> (\<exists>d rv. out = Holding d rv)"
    | (held) d0 s3 o4 where "lookup_cache e s2 d0 (prompt r) = (None, s3)" "reserve_budget e s s3 d0 r = (o4, sv')"
        "out = (case o4 of Inl x \<Rightarrow> Refused x | Inr rv \<Rightarrow> Holding d0 rv)"
    using assms unfolding arrive_def by (auto simp: 1 2 split: sum.splits prod.splits option.splits)
  then show ?thesis
  proof cases
    case early
    with q show ?thesis by auto
  next
    case cached
    with quiet_lookup [OF cached(1)] q show ?thesis by simp
  next
    case held
    have s3: "ledger s3 = ledger sv" using quiet_lookup [OF held(1)] q by simp
    let ?now = "wall e (reads s3)" and ?rid = "fresh_id e (reads s3)"
    obtain o5 L where rs: "reserve ?now ?rid (ledger sv) (user_id r) (projected_cost d0) (user_limit s r) = (o5, L)" by fastforce
    have "o4 = o5" "ledger sv' = L" "reads s3 < reads sv'"
      using held(2) rs by (auto simp: reserve_budget_def read_clock_def s3 count_def split: sum.splits)
    with held(3) rs reserve_refused(2) show ?thesis by (cases o5) (auto intro!: exI [of _ "reads s3"])
  qed
qed

section \<open>Steps\<close>

lemma keptI:
  assumes "\<And>t j. jobs w t = Some j \<Longrightarrow> \<not> is_done (job_phase j) \<Longrightarrow> in_books e (svc w) (user_id (job_request j)) (hold_entry j)"
    and "list_all2 (charge_kept e w) (served w) (usage_records (ledger (svc w)))"
  shows "kept e w"
  unfolding kept_def using assms by blast

lemma keptD:
  assumes "kept e w"
  shows "jobs w t = Some j \<Longrightarrow> \<not> is_done (job_phase j) \<Longrightarrow> in_books e (svc w) (user_id (job_request j)) (hold_entry j)"
    and "list_all2 (charge_kept e w) (served w) (usage_records (ledger (svc w)))"
  using assms by (simp_all add: kept_def)

text \<open>A job goes on under the same request and reservation.\<close>

definition same_claim :: "job \<Rightarrow> job \<Rightarrow> bool" where
  "same_claim j k \<longleftrightarrow> job_request k = job_request j \<and> job_decision k = job_decision j \<and>
     res_id (job_reservation k) = res_id (job_reservation j) \<and>
     res_created_at (job_reservation k) = res_created_at (job_reservation j)"

lemma same_claim_entries: "same_claim j k \<Longrightarrow> hold_entry k = hold_entry j" "same_claim j k \<Longrightarrow> charge_entry k r = charge_entry j r"
  by (simp_all add: same_claim_def hold_entry_def charge_entry_def)

lemma charges_kept:
  assumes "list_all2 (charge_kept e w) ts rs"
    and "\<And>t j r. t \<in> set ts \<Longrightarrow> jobs w t = Some j \<Longrightarrow> in_books e (svc w) (user_id (job_request j)) (charge_entry j r) \<Longrightarrow>
      charge_kept e w' t r"
  shows "list_all2 (charge_kept e w') ts rs"
  using assms(1) by (rule list.rel_mono_strong) (use assms(2) in blast)

lemma kept_put:
  assumes "kept e w" "jobs w t = Some j" "same_claim j k" "\<not> is_done (job_phase j)"
    and "ledger v = ledger (svc w)" "reads (svc w) \<le> reads v"
    and "jobs w' = (jobs w)(t \<mapsto> k)" "svc w' = v" "served w' = served w"
  shows "kept e w'"
proof (rule keptI)
  note st = in_books_same [OF _ assms(5,6)]
  fix t' k'
  assume k': "jobs w' t' = Some k'" "\<not> is_done (job_phase k')"
  show "in_books e (svc w') (user_id (job_request k')) (hold_entry k')"
  proof (cases "t' = t")
    case True
    with k'(1) assms(7) have "k' = k" by simp
    with st [OF keptD(1) [OF assms(1,2,4)]] same_claim_entries(1) [OF assms(3)] assms(3,8) show ?thesis
      by (simp add: same_claim_def)
  next
    case False
    with k' assms(7) have "jobs w t' = Some k'" by simp
    from st [OF keptD(1) [OF assms(1) this k'(2)]] assms(8) show ?thesis by simp
  qed
next
  have "charge_kept e w' t' r"
    if "jobs w t' = Some k'" "in_books e (svc w) (user_id (job_request k')) (charge_entry k' r)" for t' k' r
  proof (cases "t' = t")
    case True
    with that assms(2) in_books_same [OF that(2) assms(5,6)] same_claim_entries(2) [OF assms(3)] assms(3,7,8)
    show ?thesis by (simp add: same_claim_def)
  next
    case False
    with that in_books_same [OF that(2) assms(5,6)] assms(7,8) show ?thesis by simp
  qed
  then have "list_all2 (charge_kept e w') (served w) (usage_records (ledger (svc w)))"
    by (intro charges_kept [OF keptD(2) [OF assms(1)]])
  then show "list_all2 (charge_kept e w') (served w') (usage_records (ledger (svc w')))"
    unfolding assms(5,8,9) .
qed

text \<open>No job changes, and the entries stay.\<close>

lemma kept_world:
  assumes "kept e w" "\<And>u x. in_books e (svc w) u x \<Longrightarrow> in_books e (svc w') u x"
    and "jobs w' = jobs w" "served w' = served w" "usage_records (ledger (svc w')) = usage_records (ledger (svc w))"
  shows "kept e w'"
proof (rule keptI)
  show "jobs w' t = Some j \<Longrightarrow> \<not> is_done (job_phase j) \<Longrightarrow> in_books e (svc w') (user_id (job_request j)) (hold_entry j)" for t j
    using keptD(1) [OF assms(1), of t j] assms(2,3) by simp
  show "list_all2 (charge_kept e w') (served w') (usage_records (ledger (svc w')))"
    using charges_kept [OF keptD(2) [OF assms(1)], of w'] assms(2-5) by auto
qed

lemma kept_answered:
  assumes "kept e w" "arrive e s (svc w) r = (out, sv)" "\<not> (\<exists>d rv. out = Holding d rv)"
  shows "kept e (w\<lparr>svc := sv, answers := a\<rparr>)"
proof (rule kept_world [OF assms(1)])
  have q: "reads (svc w) \<le> reads sv" using arrive_effect(1) [OF assms(2)] by (simp add: quiet_def)
  have L: "ledger sv = ledger (svc w) \<or> (\<exists>n < reads sv. ledger sv = prune (wall e n) (ledger (svc w)) (user_id r))"
    using arrive_ledger [OF assms(2)] assms(3) by (cases out) auto
  show "in_books e (svc (w\<lparr>svc := sv, answers := a\<rparr>)) u x" if x: "in_books e (svc w) u x" for u x
    using L
  proof (elim disjE exE conjE)
    assume "ledger sv = ledger (svc w)"
    from in_books_same [OF x this q] show ?thesis by simp
  next
    fix n assume n: "n < reads sv" "ledger sv = prune (wall e n) (ledger (svc w)) (user_id r)"
    have "in_books e sv u x" by (rule in_books_prune [OF x _ _ q n(1), of "user_id r" "[]"]) (simp_all add: n(2))
    then show ?thesis by simp
  qed
  show "usage_records (ledger (svc (w\<lparr>svc := sv, answers := a\<rparr>))) = usage_records (ledger (svc w))" using L by auto
qed simp_all

lemma kept_held:
  assumes "kept e w" "arrive e s (svc w) r = (Holding d rv, sv)" "jobs w t = None" "t \<notin> set (served w)"
    and "j = \<lparr>job_request = r, job_decision = d, job_reservation = rv, job_phase = Reserved\<rparr>"
  shows "kept e (put_job (w\<lparr>svc := sv\<rparr>) t j)"
proof -
  have q: "reads (svc w) \<le> reads sv" using arrive_effect(1) [OF assms(2)] by (simp add: quiet_def)
  obtain n rid where n: "n < reads sv"
    and rs: "reserve (wall e n) rid (ledger (svc w)) (user_id r) (projected_cost d) (user_limit s r) = (Inr rv, ledger sv)"
    using arrive_ledger [OF assms(2)] by auto
  note g = reserve_granted [OF rs]
  have st: "in_books e sv u x" if x: "in_books e (svc w) u x" for u x
    by (rule in_books_prune [OF x _ _ q n, of "user_id r" "if u = user_id r then [(wall e n, projected_cost d, rid)] else []"])
      (simp_all add: g(2) set_spend_def)
  have new: "in_books e sv (user_id (job_request j)) (hold_entry j)"
    by (simp add: in_books_def hold_entry_def assms(5) g(1,2))
  show ?thesis
  proof (rule keptI)
    fix t' k
    assume k: "jobs (put_job (w\<lparr>svc := sv\<rparr>) t j) t' = Some k" "\<not> is_done (job_phase k)"
    show "in_books e (svc (put_job (w\<lparr>svc := sv\<rparr>) t j)) (user_id (job_request k)) (hold_entry k)"
    proof (cases "t' = t")
      case True
      with k(1) new show ?thesis by simp
    next
      case False
      with k(1) have "jobs w t' = Some k" by simp
      from st [OF keptD(1) [OF assms(1) this k(2)]] show ?thesis by simp
    qed
  next
    have "charge_kept e (put_job (w\<lparr>svc := sv\<rparr>) t j) t' x"
      if "t' \<in> set (served w)" "jobs w t' = Some k" "in_books e (svc w) (user_id (job_request k)) (charge_entry k x)" for t' k x
    proof -
      have "t' \<noteq> t" using that(1) assms(4) by auto
      with that(2) st [OF that(3)] show ?thesis by simp
    qed
    then have "list_all2 (charge_kept e (put_job (w\<lparr>svc := sv\<rparr>) t j)) (served w) (usage_records (ledger (svc w)))"
      by (intro charges_kept [OF keptD(2) [OF assms(1)]])
    moreover have "usage_records (ledger sv) = usage_records (ledger (svc w))" by (simp add: g(2))
    ultimately show "list_all2 (charge_kept e (put_job (w\<lparr>svc := sv\<rparr>) t j)) (served (put_job (w\<lparr>svc := sv\<rparr>) t j))
        (usage_records (ledger (svc (put_job (w\<lparr>svc := sv\<rparr>) t j))))" by simp
  qed
qed

text \<open>A reservation that is closed: the entries of the other jobs stay, and a charge is there.\<close>

lemma kept_close:
  assumes "kept e w" "books_ok e s w" "jobs w t = Some j" "\<not> is_done (job_phase j)"
    and "same_claim j k" "is_done (job_phase k)" "jobs w' = (jobs w)(t \<mapsto> k)" "svc w' = v" "reads (svc w) \<le> reads v"
    and "ledger v = fst (Ledger.release (ledger (svc w)) (job_reservation j)) \<and> served w' = served w \<or>
      (\<exists>now c m i out. ledger v = fst (settle now (ledger (svc w)) (job_reservation j) c m i out) \<and> served w' = served w @ [t])"
  shows "kept e w'"
proof -
  let ?rid = "res_id (job_reservation j)"
  have b: "ids_ok e w" "entries_ok s w" "records_ok s w" using assms(2) by (simp_all add: books_ok_def)
  note wf = entries_okD(1) [OF b(2)] and ids = ids_okD [OF b(1) assms(3)]
  have open': "\<not> res_closed (job_reservation j)" using ids(1) assms(4) by simp
  have win: "window_seconds (ledger v) = window_seconds (ledger (svc w))" using assms(10) by auto
  have st: "in_books e v u x" if "in_books e (svc w) u x" "entry_id x \<noteq> ?rid" for u x
    using assms(10)
  proof (elim disjE exE conjE)
    assume "ledger v = fst (Ledger.release (ledger (svc w)) (job_reservation j))"
    then show ?thesis
      using in_books_close [OF that(1) wf that(2) assms(9) win, of "res_user (job_reservation j)" "[]"] release_open(1) [OF open'] by simp
  next
    fix now c m i out
    assume "ledger v = fst (settle now (ledger (svc w)) (job_reservation j) c m i out)"
    then show ?thesis
      using in_books_close [OF that(1) wf that(2) assms(9) win, of "res_user (job_reservation j)" "[(now, c, ?rid)]"] settle_open(1) [OF open'] by simp
  qed
  have other: "res_id (job_reservation k') \<noteq> ?rid" if "jobs w t' = Some k'" "t' \<noteq> t" for t' k'
    using ids(3) [OF that(1)] that(2) by auto
  have t: "t \<notin> set (served w)"
    using b(3) assms(4) by (cases "job_phase j") (auto simp: records_ok_def in_phase_iff [OF assms(3)])
  have old: "list_all2 (charge_kept e w') (served w) (usage_records (ledger (svc w)))"
  proof (rule charges_kept [OF keptD(2) [OF assms(1)]])
    fix t' k' r
    assume k': "t' \<in> set (served w)" "jobs w t' = Some k'" "in_books e (svc w) (user_id (job_request k')) (charge_entry k' r)"
    then have "t' \<noteq> t" using t by auto
    with k' st [OF k'(3)] other [OF k'(2)] assms(7,8) show "charge_kept e w' t' r" by (simp add: charge_entry_def)
  qed
  show ?thesis
  proof (rule keptI)
    fix t' k'
    assume k': "jobs w' t' = Some k'" "\<not> is_done (job_phase k')"
    then have "t' \<noteq> t" "jobs w t' = Some k'" using assms(6,7) by (auto split: if_splits)
    with st [OF keptD(1) [OF assms(1) _ k'(2)]] other assms(8)
    show "in_books e (svc w') (user_id (job_request k')) (hold_entry k')" by (simp add: hold_entry_def)
  next
    show "list_all2 (charge_kept e w') (served w') (usage_records (ledger (svc w')))" using assms(10)
    proof (elim disjE exE conjE)
      assume "ledger v = fst (Ledger.release (ledger (svc w)) (job_reservation j))" "served w' = served w"
      with old assms(8) release_open(2) [OF open'] show ?thesis by simp
    next
      fix now c m i out
      assume a: "ledger v = fst (settle now (ledger (svc w)) (job_reservation j) c m i out)" "served w' = served w @ [t]"
      have "charge_kept e w' t \<lparr>rec_user = res_user (job_reservation j), rec_model = m, rec_input_tokens = i,
          rec_output_tokens = out, rec_cost = c, rec_at = now\<rparr>"
        using assms(5,7,8) ids(2) settle_open(1) [OF open']
        by (simp add: in_books_def charge_entry_def a(1) same_claim_def)
      with old a assms(8) settle_open(2) [OF open'] show ?thesis by (simp add: list_all2_appendI)
    qed
  qed
qed

lemma kept_land:
  assumes "kept e w" "books_ok e s w" "jobs w t = Some j" "\<not> is_done (job_phase j)"
    and "effect s sv (job_reservation j) out" "ledger sv = ledger (svc w)" "reads sv = reads (svc w)"
  shows "kept e (land w t j out)"
proof -
  have open': "\<not> res_closed (job_reservation j)"
    using ids_okD(1) [OF _ assms(3), of e] assms(2,4) by (simp add: books_ok_def)
  show ?thesis using assms(5)
  proof cases
    case (keeps sv' d ex)
    let ?k = "j\<lparr>job_phase := Calling d ex\<rparr>"
    have "same_claim j ?k" by (simp add: same_claim_def)
    from kept_put [OF assms(1,3) this assms(4), of sv' "land w t j out"] keeps assms(6,7) show ?thesis
      by (simp add: land_def same_books_def)
  next
    case (aborts sv' rv' x)
    let ?k = "j\<lparr>job_reservation := rv', job_phase := Done (Inl x)\<rparr>"
    have "same_claim j ?k" using aborts(3) release_open(3) [OF open'] by (simp add: same_claim_def)
    from kept_close [OF assms(1-4) this, of "land w t j out" sv'] aborts assms(6,7) show ?thesis
      by (simp add: land_def)
  next
    case (serves m res sv' now rv')
    let ?k = "j\<lparr>job_reservation := rv', job_phase := Done (Inr res)\<rparr>"
    have k: "same_claim j ?k" using serves(5) settle_open(3) [OF open'] by (simp add: same_claim_def)
    have "ledger sv' = fst (settle now (ledger (svc w)) (job_reservation j)
        (cost m (result_in res) (result_out res)) (name m) (result_in res) (result_out res)) \<and>
        served (land w t j out) = served w @ [t]"
      using serves assms(6) by (simp add: land_def)
    then have l: "\<exists>now c m i o'. ledger sv' = fst (settle now (ledger (svc w)) (job_reservation j) c m i o') \<and>
        served (land w t j out) = served w @ [t]" by blast
    show ?thesis
      by (rule kept_close [OF assms(1-4) k _ _ _ _ disjI2 [OF l]])
        (use serves assms(7) in \<open>simp_all add: land_def\<close>)
  qed
qed

lemma kept_shed:
  assumes "kept e w" "books_ok e s w" "jobs w t = Some j" "\<not> is_done (job_phase j)"
  shows "kept e (leave_shed s (set_gate w g) t j)"
proof -
  have open': "\<not> res_closed (job_reservation j)"
    using ids_okD(1) [OF _ assms(3), of e] assms(2,4) by (simp add: books_ok_def)
  let ?rv = "snd (Ledger.release (ledger (svc w)) (job_reservation j))"
  let ?k = "j\<lparr>job_reservation := ?rv, job_phase := Done (Inl (AdmissionTimeoutError (admission_timeout_s s)))\<rparr>"
  obtain v where l: "leave_shed s (set_gate w g) t j = put_job (set_gate w g\<lparr>svc := v\<rparr>) t ?k"
    and v: "ledger v = fst (Ledger.release (ledger (svc w)) (job_reservation j))" "reads v = reads (svc w)"
    using leave_shed_eq [of s "set_gate w g" t j] by auto
  have "same_claim j ?k" using release_open(3) [OF open'] by (simp add: same_claim_def)
  from kept_close [OF assms this, of "leave_shed s (set_gate w g) t j" v] v show ?thesis by (simp add: l)
qed

lemma kept_phase:
  assumes "kept e w" "jobs w t = Some j" "\<not> is_done (job_phase j)" "jobs w' = (jobs w)(t \<mapsto> j\<lparr>job_phase := p\<rparr>)"
    and "ledger (svc w') = ledger (svc w)" "reads (svc w') = reads (svc w)" "served w' = served w"
  shows "kept e w'"
  by (rule kept_put [OF assms(1,2) _ assms(3,5) _ assms(4) refl assms(7)]) (simp_all add: same_claim_def assms(6))

lemma kept_at_gate:
  assumes "kept e w" "jobs w t = Some j" "\<not> is_done (job_phase j)"
  shows "kept e (at_gate w t j got)"
  by (rule kept_phase [OF assms, where p = "if fst got then Admitted else Queued"]) (simp_all add: at_gate_def Let_def)

lemma kept_step:
  assumes "svc_step e s w ev w'" "kept e w" "books_ok e s w"
  shows "kept e w'"
proof -
  have b: "records_ok s w" "calls_ok s w" using assms(3) by (simp_all add: books_ok_def)
  note shed = kept_shed [OF assms(2,3)] and ph = kept_phase [OF assms(2)]
  show ?thesis
  using assms(1)
proof cases
  case (step_refused t r x sv)
  with kept_answered [OF assms(2) step_refused(5)] show ?thesis by simp
next
  case (step_cached t r res sv)
  with kept_answered [OF assms(2) step_cached(5)] show ?thesis by simp
next
  case (step_holding t r d rv sv)
  have "t \<notin> set (served w)" using b(1) step_holding(3) in_phase_none by (simp add: records_ok_def)
  from kept_held [OF assms(2) step_holding(5,3) this refl] step_holding show ?thesis by simp
next
  case (step_enter t j)
  with kept_at_gate [OF assms(2) step_enter(3)] show ?thesis by simp
next
  case (step_wake_up t j)
  with kept_at_gate [OF assms(2) step_wake_up(3)] show ?thesis by simp
next
  case (step_expire_entering t j)
  then have "\<not> is_done (job_phase j)" by simp
  from shed [OF step_expire_entering(3) this, of "gate (svc w)"] step_expire_entering show ?thesis by (simp add: set_gate_def)
next
  case (step_expire_waiting t j)
  show ?thesis
    by (rule kept_world [OF assms(2)]) (use step_expire_waiting in_books_same in \<open>auto\<close>)
next
  case (step_shed t j)
  then have "\<not> is_done (job_phase j)" by simp
  from shed [OF step_shed(3) this] step_shed show ?thesis by simp
next
  case (step_begin t j)
  let ?w = "w\<lparr>calling := t # calling w\<rparr>"
  have "kept e (land w t j (begin_generation e s (svc w) (job_request j) (job_reservation j) (job_decision j)))"
    by (rule kept_land [OF assms(2,3) step_begin(3) _ effect_begin]) (simp_all add: step_begin(4) count_def)
  then show ?thesis
    by (rule kept_world) (use step_begin in \<open>auto simp: land_def split: prod.splits progress.splits sum.splits\<close>)
next
  case (step_reply t j d ex c)
  have "Router.model d \<in> set (catalog s)"
    using calling_fits [OF b(2) step_reply(3,4)] by (simp add: decision_fits_def)
  from kept_land [OF assms(2,3) step_reply(3) _ effect_returned [OF this]] step_reply show ?thesis by simp
next
  case (step_fault t j d ex x)
  from kept_land [OF assms(2,3) step_fault(3) _ effect_failed] step_fault show ?thesis by simp
next
  case (step_cancel_call t j d ex)
  show ?thesis
    by (rule ph [OF step_cancel_call(3)]) (use step_cancel_call in \<open>auto simp: drop_call_def provider_cancelled_def\<close>)
next
  case (step_give_up_entering t j)
  show ?thesis
    by (rule ph [OF step_give_up_entering(3)]) (use step_give_up_entering in auto)
next
  case (step_give_up_waiting t j)
  show ?thesis
    by (rule ph [OF step_give_up_waiting(3)]) (use step_give_up_waiting in auto)
next
  case (step_leave t j)
  show ?thesis
    by (rule ph [OF step_leave(3)]) (use step_leave in auto)
next
  case (step_open_stream t j)
  show ?thesis
    by (rule ph [OF step_open_stream(3)]) (use step_open_stream in \<open>auto simp: count_def\<close>)
next
  case (step_stream t j st i st')
  show ?thesis
    by (rule ph [OF step_stream(3)]) (use step_stream in auto)
next
  case (step_settle_stream t j st u)
  from kept_land [OF assms(2,3) step_settle_stream(3) _ effect_settle_stream [OF held_model [OF b(2) step_settle_stream(3)]]]
    step_settle_stream show ?thesis by simp
next
  case step_tick
  show ?thesis
    by (rule kept_world [OF assms(2)])
      (use step_tick in_books_same [OF _ tick_frame(1,4)] in \<open>auto simp: tick_frame\<close>)
qed
qed

lemma kept_reachable: "reachable e s w \<Longrightarrow> inj (fresh_id e) \<Longrightarrow> kept e w"
proof (induction rule: reachable.induct)
  case reach_new
  then show ?case by (simp add: kept_def new_svc_world_def new_service_def new_ledger_def)
next
  case (reach_step w ev w')
  with kept_step books_ok_reachable show ?case by blast
qed

end
