(* ===== verification/Guarantees.thy ===== *)
theory Guarantees
  imports Holdings
begin

text \<open>
  What the interleaved service guarantees, drawn from the invariants of \<open>Interleaving.thy\<close> and \<open>Holdings.thy\<close>: money, slots and
  counters in every reachable world, the models a request is sent to, what a provider's failure does and does
  not do, the price and the source of a cached answer, and the capacity that the autoscaler gives the gate.
\<close>

section \<open>Capacity follows the replicas\<close>

definition scale_part :: "settings \<Rightarrow> service \<Rightarrow> bool" where
  "scale_part s sv \<longleftrightarrow> replicas_ok s (autoscaler sv) \<and> capacity (gate sv) = capacity_for s (replicas (autoscaler sv))"

lemma capacity_for_pos: "1 \<le> capacity_for s n"
  by (simp add: capacity_for_def)

lemma gate_capacity_ops [simp]:
  "capacity (snd (acquire t g)) = capacity g" "capacity (snd (wake t g)) = capacity g"
  "capacity (unwind t g) = capacity g" "capacity (Gate.release g) = capacity g"
  "capacity (resize n g) = max 1 n"
  by (simp_all add: acquire_def wake_def unwind_def Gate.release_def resize_def Let_def)

lemma scale_part_same:
  "scale_part s sv \<Longrightarrow> autoscaler sv' = autoscaler sv \<Longrightarrow> capacity (gate sv') = capacity (gate sv) \<Longrightarrow> scale_part s sv'"
  by (simp add: scale_part_def)

lemma scale_part_land:
  assumes "scale_part s sv" "effect s sv rv out"
  shows "scale_part s (snd (snd out))"
  using assms(2)
proof cases
  case (keeps sv' d ex)
  with assms(1) show ?thesis by (simp add: same_books_def scale_part_def)
qed (use assms(1) in \<open>simp_all add: scale_part_def\<close>)

lemma svc_land: "svc (land w t j out) = snd (snd out)"
  by (auto simp: land_def split: prod.splits progress.splits)

lemma step_keeps_gate_frame:
  "svc (at_gate w t j got) = (svc w)\<lparr>gate := snd got\<rparr>"
  by (simp add: at_gate_def Let_def)

lemma leave_shed_frame:
  "autoscaler (svc (leave_shed s w t j)) = autoscaler (svc w)" "gate (svc (leave_shed s w t j)) = gate (svc w)"
  by (simp_all add: leave_shed_def shed_def Let_def count_def split: prod.splits)

lemma scale_part_tick:
  assumes "scale_part s sv"
  shows "scale_part s (snd (autoscale_tick e s sv))"
proof -
  define n where "n = reads sv"
  define load where "load = load_sample.make (active (gate sv)) (waiting (gate sv))"
  obtain out a where st: "scale_step s (mono e n) (mono e (Suc n)) (autoscaler sv) load = (out, a)" by fastforce
  have ok: "replicas_ok s a"
    using scale_step_ok [of s "autoscaler sv" "mono e n" "mono e (Suc n)" load] assms st
    by (simp add: scale_part_def)
  have moved: "replicas a = (case out of Inl _ \<Rightarrow> replicas (autoscaler sv) | Inr d \<Rightarrow>
      if changed d then desired_replicas d else replicas (autoscaler sv))"
    using st by (auto simp: scale_step_def apply_decision_def Let_def split: sum.splits)
  have max: "max 1 (capacity_for s m) = capacity_for s m" for m
    using capacity_for_pos [of s m] by simp
  show ?thesis
    using assms ok moved
    by (auto simp: scale_part_def autoscale_tick_def Let_def read_clock_def count_def current_load_def
        st n_def [symmetric] load_def [symmetric] max split: sum.splits)
qed

lemma scale_part_step:
  assumes "svc_step e s w ev w'" "scale_part s (svc w)" "calls_ok s w"
  shows "scale_part s (svc w')"
  using assms(1)
proof cases
  case (step_refused t r x sv)
  with arrive_effect(1) [OF step_refused(5)] show ?thesis
    by (simp add: scale_part_same [OF assms(2)] quiet_def)
next
  case (step_cached t r res sv)
  with arrive_effect(1) [OF step_cached(5)] show ?thesis
    by (simp add: scale_part_same [OF assms(2)] quiet_def)
next
  case (step_holding t r d rv sv)
  with arrive_effect(1) [OF step_holding(5)] show ?thesis
    by (simp add: scale_part_same [OF assms(2)] quiet_def)
next
  case (step_enter t j)
  then show ?thesis by (simp add: scale_part_same [OF assms(2)] step_keeps_gate_frame)
next
  case (step_wake_up t j)
  then show ?thesis by (simp add: scale_part_same [OF assms(2)] step_keeps_gate_frame)
next
  case (step_expire_entering t j)
  then show ?thesis by (simp add: scale_part_same [OF assms(2)] leave_shed_frame)
next
  case (step_expire_waiting t j)
  then show ?thesis by (simp add: scale_part_same [OF assms(2)])
next
  case (step_shed t j)
  then show ?thesis by (simp add: scale_part_same [OF assms(2)] leave_shed_frame)
next
  case (step_begin t j)
  have "scale_part s (count request_started (svc w))"
    by (simp add: scale_part_same [OF assms(2)] count_def)
  from scale_part_land [OF this effect_begin] step_begin show ?thesis by (simp add: svc_land)
next
  case (step_reply t j d ex c)
  have "Router.model d \<in> set (catalog s)"
    using calling_fits [OF assms(3) step_reply(3,4)] by (simp add: decision_fits_def)
  from scale_part_land [OF assms(2) effect_returned [OF this]] step_reply show ?thesis by (simp add: svc_land)
next
  case (step_fault t j d ex x)
  with scale_part_land [OF assms(2) effect_failed] show ?thesis by (simp add: svc_land)
next
  case (step_cancel_call t j d ex)
  then show ?thesis by (simp add: scale_part_same [OF assms(2)] provider_cancelled_def Gate.release_def)
next
  case (step_give_up_entering t j)
  with assms(2) show ?thesis by simp
next
  case (step_give_up_waiting t j)
  then show ?thesis by (simp add: scale_part_same [OF assms(2)])
next
  case (step_leave t j)
  then show ?thesis by (simp add: scale_part_same [OF assms(2)])
next
  case (step_open_stream t j)
  then show ?thesis by (simp add: scale_part_same [OF assms(2)] count_def)
next
  case (step_stream t j st i st')
  with assms(2) show ?thesis by simp
next
  case (step_settle_stream t j st u)
  from scale_part_land [OF assms(2) effect_settle_stream [OF held_model [OF assms(3) step_settle_stream(3)]]]
    step_settle_stream show ?thesis by (simp add: svc_land)
next
  case step_tick
  with scale_part_tick [OF assms(2)] show ?thesis by simp
qed

lemma scale_part_new: "scale_part s (new_service s)"
  using capacity_for_pos [of s "min_replicas s"] new_autoscaler_ok [of s]
  by (simp add: scale_part_def new_service_def new_gate_def new_autoscaler_def)

lemma scale_part_reachable: "reachable e s w \<Longrightarrow> inj (fresh_id e) \<Longrightarrow> scale_part s (svc w)"
proof (induction rule: reachable.induct)
  case reach_new
  then show ?case by (simp add: new_svc_world_def scale_part_new)
next
  case (reach_step w ev w')
  have "calls_ok s w" using books_ok_reachable [OF reach_step(1,4)] by (simp add: books_ok_def)
  with reach_step scale_part_step show ?case by blast
qed

section \<open>Cached answers\<close>

text \<open>Every cached entry is under the key of the model that produced it.\<close>

definition cache_part :: "env \<Rightarrow> service \<Rightarrow> bool" where
  "cache_part e sv \<longleftrightarrow>
     (\<forall>c. cache sv = Some c \<longrightarrow> distinct (map fst (data c)) \<and>
        (\<forall>k en x. map_of (data c) k = Some (en, x) \<longrightarrow>
           (\<exists>p n. k = make_cache_key (digest e) (Cache.model en) p n CACHE_KEY_VERSION)))"

lemma cache_part_same: "cache_part e sv \<Longrightarrow> cache sv' = cache sv \<Longrightarrow> cache_part e sv'"
  by (simp add: cache_part_def)

lemma cache_part_update [simp]:
  "cache_part e (sv\<lparr>gate := g\<rparr>) = cache_part e sv" "cache_part e (sv\<lparr>ledger := L\<rparr>) = cache_part e sv"
  "cache_part e (sv\<lparr>metrics := m\<rparr>) = cache_part e sv" "cache_part e (sv\<lparr>breakers := B\<rparr>) = cache_part e sv"
  "cache_part e (sv\<lparr>reads := n\<rparr>) = cache_part e sv"
  by (simp_all add: cache_part_def)

lemma cache_part_lookup:
  assumes "cache_part e sv" "lookup_cache e sv d p = (out, sv')"
  shows "cache_part e sv'"
proof (cases "cache sv")
  case None
  with assms show ?thesis by (simp add: lookup_cache_def)
next
  case (Some c)
  let ?k = "cache_key e d p"
  have sv': "cache sv' = Some (snd (cache_get (mono e (reads sv)) c ?k))"
    using assms(2) Some by (auto simp: lookup_cache_def read_clock_def count_def split: prod.splits option.splits)
  have d: "distinct (map fst (data c))" using assms(1) Some by (simp add: cache_part_def)
  have "distinct (map fst (data (snd (cache_get t c k))))" for t k
    using d by (auto simp: cache_get_def distinct_dict_del distinct_move_to_end split: option.splits)
  moreover have "map_of (data (snd (cache_get t c k))) j = Some r \<Longrightarrow> map_of (data c) j = Some r" for t k j r
    by (auto simp: cache_get_def split: option.splits if_splits)
  moreover have "\<exists>p n. k = make_cache_key (digest e) (Cache.model en) p n CACHE_KEY_VERSION"
    if "map_of (data c) k = Some (en, x)" for k en x
    using assms(1) Some that by (simp add: cache_part_def)
  ultimately show ?thesis
    unfolding cache_part_def sv' by simp blast
qed

lemma cache_part_store:
  assumes "cache_part e sv"
  shows "cache_part e (cache_store e s sv d p txt u)"
proof (cases "cache sv")
  case None
  with assms show ?thesis by (simp add: cache_store_def)
next
  case (Some k)
  let ?en = "\<lparr>entry_text = txt, Cache.cache_entry.input_tokens = usage_in u,
    Cache.cache_entry.output_tokens = usage_out u, Cache.cache_entry.model = name (Router.model d)\<rparr>"
  have sv': "cache (cache_store e s sv d p txt u) =
      Some (cache_set (mono e (reads sv)) k (cache_key e d p) ?en (cache_ttl_s s))"
    by (simp add: cache_store_def read_clock_def Some)
  have dk: "distinct (map fst (data k))" using assms Some by (simp add: cache_part_def)
  have d: "distinct (map fst (data (cache_set t k key en ttl)))" for t key en ttl
    using dk by (auto simp: cache_set_def intro!: distinct_evict distinct_move_to_end distinct_dict_set)
  have m: "map_of (data (cache_set t k key en ttl)) j = Some r \<Longrightarrow>
      j = key \<and> fst r = en \<or> map_of (data k) j = Some r" for t key en ttl j r
  proof -
    assume "map_of (data (cache_set t k key en ttl)) j = Some r"
    then show "j = key \<and> fst r = en \<or> map_of (data k) j = Some r"
      using map_of_evict [of "move_to_end key (dict_set key (en, fadd t ttl) (data k))" "max_entries k" j r] dk
      by (auto simp: cache_set_def distinct_move_to_end distinct_dict_set split: if_splits)
  qed
  show ?thesis
    unfolding cache_part_def sv'
  proof (intro allI impI conjI)
    fix c' k' en x
    assume c': "Some (cache_set (mono e (reads sv)) k (cache_key e d p) ?en (cache_ttl_s s)) = Some c'"
    show "distinct (map fst (data c'))" using c' d by auto
    assume "map_of (data c') k' = Some (en, x)"
    then have "k' = cache_key e d p \<and> en = ?en \<or> map_of (data k) k' = Some (en, x)"
      using c' m [of _ _ _ _ k' "(en, x)"] by auto
    then show "\<exists>p n. k' = make_cache_key (digest e) (Cache.model en) p n CACHE_KEY_VERSION"
    proof (elim disjE conjE)
      assume "k' = cache_key e d p" "en = ?en"
      then show ?thesis
        by (intro exI [of _ p] exI [of _ "projected_output_tokens d"]) (simp add: cache_key_def)
    next
      assume "map_of (data k) k' = Some (en, x)"
      with assms Some show ?thesis unfolding cache_part_def by blast
    qed
  qed
qed

lemma cache_part_arrive:
  assumes "cache_part e sv" "arrive e s sv r = (out, sv')"
  shows "cache_part e sv'"
proof -
  have rl: "check_rate_limit e v u = (o1, v') \<Longrightarrow> cache v' = cache v" for v u o1 v'
    by (auto simp: check_rate_limit_def read_clock_def count_def split: option.splits prod.splits sum.splits)
  have rr: "route_request e s v r = (o1, v') \<Longrightarrow> cache v' = cache v" for v o1 v'
    by (auto simp: route_request_def count_def split: sum.splits)
  have rb: "reserve_budget e s v d r = (o1, v') \<Longrightarrow> cache v' = cache v" for v d o1 v'
    by (auto simp: reserve_budget_def read_clock_def count_def split: prod.splits sum.splits)
  show ?thesis
    using assms unfolding arrive_def
    by (auto split: prod.splits sum.splits option.splits dest!: rl rr rb intro: cache_part_same)
      (metis cache_part_lookup cache_part_same)+
qed

lemma cache_part_step:
  assumes "svc_step e s w ev w'" "cache_part e (svc w)"
  shows "cache_part e (svc w')"
proof -
  have eff: "cache_part e (snd (snd out))"
    if "effect s sv rv out" "cache sv = cache (svc w)" "\<nexists>res. fst out = Finish (Inr res)" for sv rv out
    using that(1)
  proof cases
    case (keeps sv' d ex)
    with that assms(2) show ?thesis by (simp add: same_books_def cache_part_def)
  qed (use that assms(2) in \<open>auto simp: cache_part_def\<close>)
  have shed: "cache (svc (leave_shed s v t j)) = cache (svc v)" for v t j
    by (simp add: leave_shed_def shed_def Let_def count_def split: prod.splits)
  have no_reply: "\<nexists>res. fst (begin_generation e s v r rv d) = Finish (Inr res)"
    "\<nexists>res. fst (provider_failed e s v r rv d ex x) = Finish (Inr res)" for v r rv d ex x
    by (auto simp: begin_generation_def provider_failed_def proceed_def abort_def Let_def read_clock_def
        split: prod.splits sum.splits option.splits if_splits)
  show ?thesis
    using assms(1)
  proof cases
    case (step_begin t j)
    have "cache (count request_started (svc w)) = cache (svc w)" by (simp add: count_def)
    from eff [OF effect_begin this] no_reply step_begin show ?thesis by (simp add: svc_land)
  next
    case (step_fault t j d ex x)
    with eff [OF effect_failed refl] no_reply show ?thesis by (simp add: svc_land)
  next
    case (step_reply t j d ex c)
    have "cache_part e (snd (snd (provider_returned e s (svc w) (job_request j) (job_reservation j) d c)))"
      by (auto simp: provider_returned_def Let_def read_clock_def count_def assms(2) split: prod.splits
          intro!: cache_part_store)
    with step_reply show ?thesis by (simp add: svc_land)
  next
    case (step_settle_stream t j st u)
    have "cache_part e (snd (snd (settle_stream e s (svc w) (job_request j) (job_reservation j) (job_decision j) st u)))"
      by (auto simp: settle_stream_def Let_def read_clock_def count_def assms(2) split: prod.splits
          intro!: cache_part_store)
    with step_settle_stream show ?thesis by (simp add: svc_land)
  next
    case step_tick
    have "cache (snd (autoscale_tick e s (svc w))) = cache (svc w)"
      by (auto simp: autoscale_tick_def Let_def read_clock_def count_def split: prod.splits sum.splits)
    with step_tick assms(2) show ?thesis by (simp add: cache_part_def)
  qed (use assms(2) cache_part_arrive shed in
      \<open>auto simp: step_keeps_gate_frame count_def provider_cancelled_def intro: cache_part_same\<close>)
qed

lemma cache_part_reachable: "reachable e s w \<Longrightarrow> cache_part e (svc w)"
proof (induction rule: reachable.induct)
  case reach_new
  then show ?case by (auto simp: new_svc_world_def new_service_def cache_part_def new_cache_def)
qed (rule cache_part_step)

section \<open>A concrete service\<close>

text \<open>Runs of the service with a one-model catalogue, for the witnesses: every step is computed from the
  definitions.\<close>

definition demo_env :: env where
  "demo_env = \<lparr>tokenizer = Some (\<lambda>_. Some 1000), digest = id, mono = (\<lambda>n. of_nat n), wall = (\<lambda>n. of_nat n), fresh_id = show_nat\<rparr>"

lemma demo_ids: "inj (fresh_id demo_env)"
  by (rule injI) (metis demo_env_def env.select_convs(5) read_show_nat)

definition demo_small :: model_spec where
  "demo_small = \<lparr>name = ''small'', provider = ''mock'', tier = SIMPLE, input_price_per_1k = 1/8,
     output_price_per_1k = 1/4, max_context_tokens = 16000, speed = 3\<rparr>"

definition demo_large :: model_spec where
  "demo_large = \<lparr>name = ''large'', provider = ''mock'', tier = COMPLEX, input_price_per_1k = 1/4,
     output_price_per_1k = 1/2, max_context_tokens = 200000, speed = 1\<rparr>"

definition demo_settings :: settings where
  "demo_settings = default_settings\<lparr>catalog := [demo_small], rate_limit_enabled := False\<rparr>"

definition demo_request :: request where
  "demo_request = \<lparr>prompt = ''hi'', user_id = ''u'', task_type = Some ''simple'', max_output_tokens = Some 1333,
     budget_usd = Some 1, user_daily_budget_usd = None, force_model = None\<rparr>"

definition demo_completion :: completion where
  "demo_completion = \<lparr>completion_text = ''ok'', completion_in = 1000, completion_out = 500,
     completion_model = ''small''\<rparr>"

definition demo_world :: "svc_event list \<Rightarrow> world" where
  "demo_world evs = the (svc_exec demo_env demo_settings evs (new_svc_world demo_settings))"

lemma demo_reachable:
  "svc_exec demo_env demo_settings evs (new_svc_world demo_settings) \<noteq> None \<Longrightarrow>
   reachable demo_env demo_settings (demo_world evs)"
  unfolding demo_world_def by (rule svc_exec_reachable [OF reach_new]) simp

abbreviation demo_called :: "svc_event list" where
  "demo_called \<equiv> [Arrive 0 demo_request, Enter 0, Begin 0]"

abbreviation demo_served :: "svc_event list" where
  "demo_served \<equiv> [Arrive 0 demo_request, Enter 0, Begin 0, Reply 0 demo_completion]"

lemma demo_called_reachable: "reachable demo_env demo_settings (demo_world demo_called)"
  by (rule demo_reachable) code_simp

lemma demo_served_reachable: "reachable demo_env demo_settings (demo_world demo_served)"
  by (rule demo_reachable) code_simp

section \<open>Properties\<close>

text \<open>C1. Every exit refunds or charges exactly once, whatever the interleaving of buffered and streamed requests,
  timeouts, failures, cancelled requests, lost streams and autoscaler ticks. Nothing is in the ledger that is not owed:
  the entries of a user have different ids, and each is the hold of a request that has not finished, for its
  projected cost, or the charge of one that was served, at the price of the model that served it (so a
  request that was shed or failed leaves nothing behind, while a cancelled request counts as not finished for ever).
  And what is owed is in the ledger: as long as its time is within the window at every clock reading so far, the hold
  of an unfinished request and the charge of a served one are among the entries. A reservation is closed exactly when
  its request is finished, and the usage records are, in order and without repetition, the bills of the served
  requests.\<close>

theorem every_exit_settles_once:
  assumes "reachable e s w" "inj (fresh_id e)"
  shows "(\<forall>u. distinct (map entry_id (spend (ledger (svc w)) u)) \<and>
      (\<forall>en \<in> set (spend (ledger (svc w)) u). entry_of s w u (entry_id en) (entry_amount en))) \<and>
    (\<forall>t j. jobs w t = Some j \<longrightarrow> res_closed (job_reservation j) = is_done (job_phase j) \<and>
      (\<not> is_done (job_phase j) \<longrightarrow> in_books e (svc w) (user_id (job_request j)) (hold_entry j))) \<and>
    distinct (served w) \<and> set (served w) = in_phase w is_served \<and>
    list_all2 (\<lambda>t r. \<exists>j. jobs w t = Some j \<and> billed s j r \<and>
        in_books e (svc w) (user_id (job_request j)) (charge_entry j r))
      (served w) (usage_records (ledger (svc w)))"
proof -
  have b: "ids_ok e w" "entries_ok s w" "records_ok s w"
    using books_ok_reachable [OF assms] by (simp_all add: books_ok_def)
  note k = kept_reachable [OF assms]
  have en: "\<forall>u. distinct (map entry_id (spend (ledger (svc w)) u)) \<and>
      (\<forall>en \<in> set (spend (ledger (svc w)) u). entry_of s w u (entry_id en) (entry_amount en))"
    using entries_okD [OF b(2)] unfolding wf_ledger_def by blast
  have jb: "\<forall>t j. jobs w t = Some j \<longrightarrow> res_closed (job_reservation j) = is_done (job_phase j) \<and>
      (\<not> is_done (job_phase j) \<longrightarrow> in_books e (svc w) (user_id (job_request j)) (hold_entry j))"
    using ids_okD(1) [OF b(1)] keptD(1) [OF k] by blast
  have "list_all2 (\<lambda>t r. \<exists>j. jobs w t = Some j \<and> billed s j r) (served w) (usage_records (ledger (svc w)))"
    using b(3) by (simp add: records_ok_def)
  then have "list_all2 (\<lambda>t r. \<exists>j. jobs w t = Some j \<and> billed s j r \<and>
        in_books e (svc w) (user_id (job_request j)) (charge_entry j r))
      (served w) (usage_records (ledger (svc w)))"
    using keptD(2) [OF k] unfolding list_all2_conv_all_nth by (metis option.inject)
  with b(3) en jb show ?thesis unfolding records_ok_def by blast
qed

text \<open>One request served: its charge is in the ledger, as the service's clock has not passed the window.\<close>

theorem every_exit_settles_once_witness:
  "\<exists>r j. usage_records (ledger (svc (demo_world demo_served))) = [r] \<and> jobs (demo_world demo_served) 0 = Some j \<and>
     in_books demo_env (svc (demo_world demo_served)) (user_id (job_request j)) (charge_entry j r)"
proof -
  have s: "served (demo_world demo_served) = [0]" by code_simp
  have "list_all2 (\<lambda>t r. \<exists>j. jobs (demo_world demo_served) t = Some j \<and> billed demo_settings j r \<and>
        in_books demo_env (svc (demo_world demo_served)) (user_id (job_request j)) (charge_entry j r))
      (served (demo_world demo_served)) (usage_records (ledger (svc (demo_world demo_served))))"
    using every_exit_settles_once [OF demo_served_reachable demo_ids] by blast
  then show ?thesis unfolding s list_all2_Cons1 list_all2_Nil by auto
qed

text \<open>C2. A slot is never leaked and the counters never drift: in every reachable world the gate's \<open>active\<close> is the
  number of requests between admission and answer, its \<open>waiting\<close> the number of requests in the queue, and
  the \<open>in_flight\<close> metric the number of requests at the provider, with the cancelled ones, which are never
  counted off.\<close>

theorem slots_and_counters_are_exact:
  assumes "reachable e s w" "inj (fresh_id e)"
  shows "active (gate (svc w)) = int (card (in_phase w has_slot)) \<and>
    waiting (gate (svc w)) = int (card (in_phase w in_queue)) \<and>
    Metrics.in_flight (metrics (svc w)) = int (card (in_phase w is_calling))"
proof -
  have g: "gate_part w" and c: "count_part w"
    using books_ok_reachable [OF assms] by (simp_all add: books_ok_def)
  have "card (in_phase w has_slot) = length (holding w)"
    using g by (metis distinct_append distinct_card gate_ok_def gate_part_def gate_world.select_convs(2))
  moreover have "card (in_phase w in_queue) = length (waiters (gate (svc w)))"
  proof -
    have d: "distinct (map fst (waiters (gate (svc w))))" and
      q: "set (map fst (waiters (gate (svc w)))) = in_phase w in_queue"
      using g by (simp_all add: gate_part_def gate_ok_def)
    show ?thesis using distinct_card [OF d] by (simp only: q length_map)
  qed
  moreover have "card (in_phase w is_calling) = length (calling w)"
    using c by (metis count_part_def distinct_card)
  ultimately show ?thesis using g c by (simp add: gate_part_def gate_ok_def count_part_def)
qed

theorem slots_and_counters_are_exact_witness:
  "card (in_phase (demo_world demo_called) is_calling) = 1"
proof -
  have "Metrics.in_flight (metrics (svc (demo_world demo_called))) = 1" by code_simp
  with slots_and_counters_are_exact [OF demo_called_reachable demo_ids] show ?thesis by simp
qed

text \<open>The money metric is the money: the total cost reported is the float sum, in order, of the costs billed,
  failures and cache hits adding nothing.\<close>

theorem cost_metric_is_the_sum_of_bills:
  assumes "reachable e s w" "inj (fresh_id e)"
  shows "total_cost_usd (metrics (svc w)) = fsum (map rec_cost (usage_records (ledger (svc w))))"
  using books_ok_reachable [OF assms] by (simp add: books_ok_def records_ok_def)

theorem cost_metric_is_the_sum_of_bills_witness:
  "total_cost_usd (metrics (svc (demo_world demo_served))) =
   fsum (map rec_cost (usage_records (ledger (svc (demo_world demo_served)))))"
  by (rule cost_metric_is_the_sum_of_bills [OF demo_served_reachable demo_ids])

text \<open>The decision of every request is what routing answered it.\<close>

definition routed :: "env \<Rightarrow> settings \<Rightarrow> job \<Rightarrow> bool" where
  "routed e s j \<longleftrightarrow> route (tokenizer e) (prompt (job_request j)) s (task_type (job_request j))
     (max_output_tokens (job_request j)) (budget_usd (job_request j)) (force_model (job_request j)) {} = Inr (job_decision j)"

lemma routed_update [simp]: "routed e s (j\<lparr>job_phase := p\<rparr>) = routed e s j"
  "routed e s (j\<lparr>job_reservation := rv\<rparr>) = routed e s j"
  by (simp_all add: routed_def)

lemma routed_step:
  assumes "svc_step e s w ev w'" "\<forall>t j. jobs w t = Some j \<longrightarrow> routed e s j" "jobs w' t = Some j"
  shows "routed e s j"
  using assms(1)
proof cases
  case (step_holding t' r d rv sv)
  have "routed e s \<lparr>job_request = r, job_decision = d, job_reservation = rv, job_phase = Reserved\<rparr>"
    using arrive_effect(3) [OF step_holding(5) refl] by (simp add: routed_def)
  with step_holding assms(2,3) show ?thesis by (auto split: if_splits)
next
  case (step_expire_entering t' j')
  with assms(2,3) leave_shed_jobs [of s w t' j'] show ?thesis by (auto split: if_splits)
next
  case (step_shed t' j')
  with assms(2,3) leave_shed_jobs [of s "set_gate w (unwind t' (gate (svc w)))" t' j'] show ?thesis
    by (auto split: if_splits)
qed (use assms(2,3) in \<open>auto simp: land_jobs at_gate_def Let_def split: if_splits\<close>)

lemma routed_reachable: "reachable e s w \<Longrightarrow> jobs w t = Some j \<Longrightarrow> routed e s j"
proof (induction arbitrary: t j rule: reachable.induct)
  case reach_new
  then show ?case by (simp add: new_svc_world_def)
next
  case (reach_step w ev w')
  from routed_step [OF reach_step(2) _ reach_step(4)] reach_step(3) show ?case by blast
qed

text \<open>The provider is working for the request on this decision: as a buffered call, after the models already
  tried, or as a stream.\<close>

definition sent_on :: "job \<Rightarrow> routing_decision \<Rightarrow> string set \<Rightarrow> bool" where
  "sent_on j d tried \<longleftrightarrow> job_phase j = Calling d tried \<or> (\<exists>st. job_phase j = Streaming st) \<and> d = job_decision j \<and> tried = {}"

text \<open>C26. Whatever model a request is sent to, originally or by failover, buffered or streamed, it fits: it is in the
  catalogue, it has not failed this request before, prompt and answer fit its context window and its projected cost is
  within the request's budget. A request that pins its model is only ever sent to the model of that name; with
  failover disabled, and for every stream, it is only ever sent to the model that routing answered.\<close>

theorem failover_respects_the_request:
  assumes "reachable e s w" "inj (fresh_id e)" "jobs w t = Some j" "sent_on j d tried"
  shows "decision_fits s (job_request j) tried d \<and> tried \<subseteq> name ` set (catalog s) \<and>
    (forced (force_model (job_request j)) \<longrightarrow> Some (name (Router.model d)) = force_model (job_request j)) \<and>
    (forced (force_model (job_request j)) \<or> \<not> fallback_enabled s \<longrightarrow> tried = {} \<and>
      route (tokenizer e) (prompt (job_request j)) s (task_type (job_request j)) (max_output_tokens (job_request j))
        (budget_usd (job_request j)) (force_model (job_request j)) {} = Inr d)"
proof -
  have c: "calls_ok s w" using books_ok_reachable [OF assms(1,2)] by (simp add: books_ok_def)
  have fits: "decision_fits s (job_request j) tried d \<and> tried \<subseteq> name ` set (catalog s) \<and>
      (forced (force_model (job_request j)) \<or> \<not> fallback_enabled s \<longrightarrow> d = job_decision j \<and> tried = {})"
    using assms(4) calling_fits [OF c assms(3)] held_fits [OF c assms(3)] unfolding sent_on_def by blast
  have r: "routed e s j" by (rule routed_reachable [OF assms(1,3)])
  have "Some (name (Router.model (job_decision j))) = force_model (job_request j)" if "forced (force_model (job_request j))"
  proof -
    obtain f where f: "force_model (job_request j) = Some f" "f \<noteq> []" using \<open>forced (force_model (job_request j))\<close>
      by (cases "force_model (job_request j)") (auto simp: forced_def)
    from r have "route (tokenizer e) (prompt (job_request j)) s (task_type (job_request j))
        (max_output_tokens (job_request j)) (budget_usd (job_request j)) (Some f) {} = Inr (job_decision j)"
      by (simp add: routed_def f(1))
    from route_force_model [OF f(2) this] f(1) show ?thesis by simp
  qed
  with fits r show ?thesis unfolding routed_def by metis
qed

text \<open>The request of the demonstration at the provider.\<close>

lemma demo_called_job:
  "\<exists>j d. jobs (demo_world demo_called) 0 = Some j \<and> job_phase j = Calling d {} \<and> job_request j = demo_request \<and>
     Router.model d = demo_small"
proof -
  have "(case jobs (demo_world demo_called) 0 of Some j \<Rightarrow>
      (case job_phase j of Calling d tried \<Rightarrow> tried = {} \<and> job_request j = demo_request \<and> Router.model d = demo_small
       | _ \<Rightarrow> False) | None \<Rightarrow> False)" by code_simp
  then show ?thesis by (auto split: option.splits phase.splits)
qed

theorem failover_respects_the_request_witness:
  "\<exists>j d. jobs (demo_world demo_called) 0 = Some j \<and> decision_fits demo_settings demo_request {} d"
proof -
  obtain j d where j: "jobs (demo_world demo_called) 0 = Some j" "job_phase j = Calling d {}"
    "job_request j = demo_request"
    using demo_called_job by blast
  have "sent_on j d {}" by (simp add: sent_on_def j(2))
  from failover_respects_the_request [OF demo_called_reachable demo_ids j(1) this] j show ?thesis by auto
qed

lemma seek_untried:
  "seek e s sv r d ex = (Inr (d', ex'), sv') \<Longrightarrow> ex \<subseteq> ex' \<and> (d' = d \<and> ex' = ex \<or> name (Router.model d') \<notin> ex')"
proof (induction e s sv r d ex rule: seek.induct)
  case (1 e s sv r d ex)
  obtain ok b sv1 where ask: "ask_breaker e sv (name (Router.model d)) = (ok, b, sv1)"
    by (cases "ask_breaker e sv (name (Router.model d))") auto
  obtain x sv2 where skip: "circuit_skip e sv1 (name (Router.model d)) b = (x, sv2)"
    by fastforce
  show ?case
  proof (cases ok)
    case True
    with "1.prems" show ?thesis by (simp add: ask seek.simps [of e s sv r d ex])
  next
    case False
    with "1.prems" obtain d1 ex1 where f: "fail_over e s r d ex = Some (d1, ex1)"
      and k: "seek e s (count request_failover sv2) r d1 ex1 = (Inr (d', ex'), sv')"
      by (auto simp: ask skip seek.simps [of e s sv r d ex] split: option.splits)
    have "ex1 \<subseteq> ex' \<and> (d' = d1 \<and> ex' = ex1 \<or> name (Router.model d') \<notin> ex')"
      using "1.IH" ask False skip f k by auto
    with fail_over_Some(1,2) [OF f] show ?thesis by (auto simp: available_set)
  qed
qed

lemma untried_mono: "ex \<subseteq> ex' \<Longrightarrow> untried s ex' \<le> untried s ex"
  unfolding untried_def by (intro card_mono) auto

lemma failed_call:
  assumes "provider_failed e s sv r rv d tried x = (Call d' tried', rv', sv')"
  shows "server_fault x" "insert (name (Router.model d)) tried \<subseteq> tried'" "name (Router.model d') \<notin> tried'"
proof -
  obtain d1 ex1 sv1 where sf: "server_fault x" and f: "fail_over e s r d tried = Some (d1, ex1)"
    and k: "seek e s sv1 r d1 ex1 = (Inr (d', tried'), sv')"
    using assms
    by (auto simp: provider_failed_def Let_def read_clock_def proceed_def abort_not_call
        split: sum.splits prod.splits if_splits option.splits)
  show "server_fault x" by (rule sf)
  show "insert (name (Router.model d)) tried \<subseteq> tried'" "name (Router.model d') \<notin> tried'"
    using seek_untried [OF k] fail_over_Some(1,2) [OF f] by (auto simp: available_set)
qed

text \<open>The models a request is sent to along a sequence of events: where a segment of its task ends with a call, and
  where its stream is opened.\<close>

fun may_call :: "task \<Rightarrow> svc_event \<Rightarrow> bool" where
  "may_call t (Begin t') = (t' = t)"
| "may_call t (OpenStream t') = (t' = t)"
| "may_call t (Fault t' x) = (t' = t)"
| "may_call t _ = False"

definition call_made :: "world \<Rightarrow> task \<Rightarrow> svc_event \<Rightarrow> string list" where
  "call_made w t ev =
     (if may_call t ev
      then (case jobs w t of None \<Rightarrow> [] | Some j \<Rightarrow> (case job_phase j of
          Calling d tried \<Rightarrow> [name (Router.model d)] | Streaming st \<Rightarrow> [name (Router.model (job_decision j))] | _ \<Rightarrow> []))
      else [])"

fun models_sent :: "env \<Rightarrow> settings \<Rightarrow> task \<Rightarrow> svc_event list \<Rightarrow> world \<Rightarrow> string list" where
  "models_sent e s t [] w = []"
| "models_sent e s t (ev # evs) w =
     (case svc_do e s ev w of None \<Rightarrow> [] | Some v \<Rightarrow> call_made v t ev @ models_sent e s t evs v)"

text \<open>The models a request will not be sent to again: those it was sent to, and all once it streams or is over.\<close>

definition used_up :: "world \<Rightarrow> task \<Rightarrow> string set" where
  "used_up w t = (case jobs w t of None \<Rightarrow> {} | Some j \<Rightarrow> (case job_phase j of
     Calling d tried \<Rightarrow> insert (name (Router.model d)) tried
   | Streaming st \<Rightarrow> UNIV | Dropped c \<Rightarrow> UNIV | Done a \<Rightarrow> UNIV | _ \<Rightarrow> {}))"

lemma used_up_same: "jobs w' t = jobs w t \<Longrightarrow> used_up w' t = used_up w t"
  by (simp add: used_up_def)

lemma answer_no_call:
  "fst (provider_returned e s sv r rv d c) \<noteq> Call d' ex" "fst (settle_stream e s sv r rv d st u) \<noteq> Call d' ex"
  by (auto simp: provider_returned_def settle_stream_def Let_def read_clock_def split: prod.splits)

lemma used_up_step:
  assumes "svc_step e s w ev w'"
  shows "used_up w t \<subseteq> used_up w' t \<and> (call_made w' t ev = [] \<or>
    (\<exists>n. call_made w' t ev = [n] \<and> n \<notin> used_up w t \<and> n \<in> used_up w' t))"
  using assms
proof cases
  case (step_begin t' j)
  then show ?thesis by (auto simp: used_up_def call_made_def land_jobs split: progress.splits)
next
  case (step_fault t' j d tried x)
  let ?out = "provider_failed e s (svc w) (job_request j) (job_reservation j) d tried x"
  show ?thesis
  proof (cases "t' = t")
    case True
    obtain p rv' sv' where out: "?out = (p, rv', sv')" by (metis prod_cases3)
    show ?thesis
    proof (cases p)
      case (Call d' tried')
      from failed_call(2,3) [OF out [unfolded Call]] step_fault True out Call show ?thesis
        by (auto simp: used_up_def call_made_def land_jobs)
    next
      case (Finish a)
      with step_fault True out show ?thesis by (simp add: used_up_def call_made_def land_jobs)
    qed
  qed (use step_fault in \<open>auto simp: used_up_def call_made_def land_jobs\<close>)
next
  case (step_reply t' j d tried c)
  with answer_no_call(1) show ?thesis by (auto simp: used_up_def call_made_def land_jobs split: progress.splits)
next
  case (step_settle_stream t' j st u)
  with answer_no_call(2) show ?thesis by (auto simp: used_up_def call_made_def land_jobs split: progress.splits)
next
  case (step_expire_entering t' j')
  with leave_shed_jobs [of s w t' j'] show ?thesis by (auto simp: used_up_def call_made_def)
next
  case (step_shed t' j')
  with leave_shed_jobs [of s "set_gate w (unwind t' (gate (svc w)))" t' j'] show ?thesis
    by (auto simp: used_up_def call_made_def)
next
  case (step_enter t' j)
  then show ?thesis by (auto simp: used_up_def call_made_def at_gate_def Let_def)
next
  case (step_wake_up t' j)
  then show ?thesis by (auto simp: used_up_def call_made_def at_gate_def Let_def)
qed (auto simp: used_up_def call_made_def)

lemma call_made_cases:
  "call_made w t ev = [] \<or> (\<exists>j d tried. jobs w t = Some j \<and> job_phase j = Calling d tried \<and>
       call_made w t ev = [name (Router.model d)]) \<or>
   (\<exists>j. jobs w t = Some j \<and> call_made w t ev = [name (Router.model (job_decision j))])"
  by (simp add: call_made_def split: option.split phase.split)

lemma call_in_catalog:
  assumes "calls_ok s w"
  shows "set (call_made w t ev) \<subseteq> name ` set (catalog s)"
  using call_made_cases [of w t ev]
proof (elim disjE exE conjE)
  fix j d tried
  assume j: "jobs w t = Some j" "job_phase j = Calling d tried" "call_made w t ev = [name (Router.model d)]"
  from calling_fits(1) [OF assms j(1,2)] j(3) show ?thesis by (simp add: decision_fits_def)
next
  fix j
  assume j: "jobs w t = Some j" "call_made w t ev = [name (Router.model (job_decision j))]"
  from held_model [OF assms j(1)] j(2) show ?thesis by simp
qed simp

lemma models_sent_distinct:
  "reachable e s w \<Longrightarrow> inj (fresh_id e) \<Longrightarrow>
   distinct (models_sent e s t evs w) \<and> set (models_sent e s t evs w) \<inter> used_up w t = {} \<and>
   set (models_sent e s t evs w) \<subseteq> name ` set (catalog s)"
proof (induction evs arbitrary: w)
  case Nil
  then show ?case by simp
next
  case (Cons ev evs)
  show ?case
  proof (cases "svc_do e s ev w")
    case (Some v)
    have step: "svc_step e s w ev v" by (rule svc_do_step [OF Some])
    have r: "reachable e s v" by (rule reach_step [OF Cons.prems(1) step])
    have "calls_ok s v" using books_ok_reachable [OF r Cons.prems(2)] by (simp add: books_ok_def)
    then have "set (call_made v t ev) \<subseteq> name ` set (catalog s)" by (rule call_in_catalog)
    with used_up_step [OF step, of t] Cons.IH [OF r Cons.prems(2)] show ?thesis by (auto simp: Some)
  qed simp
qed

text \<open>C27. A request reaches a model at most once: in every run of the service, whatever the events, the models a request
  is sent to (the one it starts with and those it fails over to, or the one its stream is opened on) are different
  models of the catalogue, so it makes at most as many calls as the catalogue has names. In particular failover ends.\<close>

theorem failover_uses_up_models:
  assumes "inj (fresh_id e)"
  shows "distinct (models_sent e s t evs (new_svc_world s)) \<and>
    set (models_sent e s t evs (new_svc_world s)) \<subseteq> name ` set (catalog s) \<and>
    length (models_sent e s t evs (new_svc_world s)) \<le> card (name ` set (catalog s))"
proof -
  note m = models_sent_distinct [OF reach_new assms, of s t evs]
  have "length (models_sent e s t evs (new_svc_world s)) = card (set (models_sent e s t evs (new_svc_world s)))"
    using m distinct_card by metis
  also have "\<dots> \<le> card (name ` set (catalog s))" using m by (intro card_mono) auto
  finally show ?thesis using m by blast
qed

text \<open>A failover from \<open>small\<close> to \<open>large\<close>, for the witness.\<close>

definition two_settings :: settings where
  "two_settings = demo_settings\<lparr>catalog := [demo_small, demo_large]\<rparr>"

definition small_call :: routing_decision where
  "small_call = routing_decision.make demo_small \<lparr>result_tier = SIMPLE, score = 0, reasons = []\<rparr> 1000 1000
     (cost demo_small 1000 1000) False []"

definition demo_hold :: reservation where
  "demo_hold = \<lparr>res_user = ''u'', res_amount = 0, res_created_at = 0, res_id = ''0'', res_closed = False\<rparr>"

lemma small_call_fits: "decision_fits two_settings demo_request {} small_call"
proof -
  have "demo_small \<in> set (catalog two_settings)" by (simp add: two_settings_def)
  moreover have "cost demo_small 1000 1000 \<le> request_budget two_settings (budget_usd demo_request)" by code_simp
  ultimately show ?thesis
    by (simp add: decision_fits_def small_call_def routing_decision.defs context_fits_def demo_small_def)
qed

theorem failover_uses_up_models_witness:
  "distinct (models_sent demo_env two_settings 0
       [Arrive 0 demo_request, Enter 0, Begin 0, Fault 0 ProviderTimeoutError] (new_svc_world two_settings)) \<and>
   models_sent demo_env two_settings 0
       [Arrive 0 demo_request, Enter 0, Begin 0, Fault 0 ProviderTimeoutError] (new_svc_world two_settings) = [''small'', ''large'']"
proof -
  have "models_sent demo_env two_settings 0
      [Arrive 0 demo_request, Enter 0, Begin 0, Fault 0 ProviderTimeoutError] (new_svc_world two_settings) = [''small'', ''large'']"
    by code_simp
  with failover_uses_up_models [OF demo_ids, of two_settings 0] show ?thesis by blast
qed

text \<open>Only server faults fail over or trip a breaker: when the provider raises anything else, the request ends with
  that very exception, its hold is refunded and its slot given back, and no breaker and no failover counter
  changes.\<close>

theorem client_fault_ends_request:
  assumes "\<not> server_fault x"
  shows "\<exists>sv' rv'. provider_failed e s sv r rv d tried x = (Finish (Inl x), rv', sv') \<and>
    breakers sv' = breakers sv \<and> total_failovers (metrics sv') = total_failovers (metrics sv) \<and>
    (ledger sv', rv') = Ledger.release (ledger sv) rv \<and> gate sv' = Gate.release (gate sv)"
  using assms
  by (auto simp: provider_failed_def abort_def count_def metrics_simps split: prod.splits)

theorem client_fault_ends_request_witness:
  "\<exists>sv' :: service. breakers sv' = breakers (new_service demo_settings) \<and>
     gate sv' = Gate.release (gate (new_service demo_settings))"
  using client_fault_ends_request [of ProviderError demo_env demo_settings "new_service demo_settings"
      demo_request demo_hold small_call "{}"]
  by (simp add: server_fault_def) blast

text \<open>C38. A failure that is not a server fault, raised for the one request that was let through as the probe of a
  half-open circuit, is reported to nobody: the breaker of that model stays half-open with its probe taken, and
  refuses every call that asks it, however many ask and at whatever times, without changing. It takes the outcome of another
  call of that model, one let through before the circuit opened, to move it: a success closes it, a server fault opens it again.\<close>

theorem client_fault_on_probe_blocks_model:
  assumes "\<not> server_fault x" "get_breaker (breakers sv) (name (Router.model d)) = (b, R)"
    and "breaker_state b = HALF_OPEN" "probe_taken b"
    and "provider_failed e s sv r rv d tried x = (out, rv', sv')"
  shows "fst (get_breaker (breakers sv') (name (Router.model d))) = b \<and>
    (\<forall>nows. ask_all allows nows b = (replicate (length nows) False, b)) \<and>
    breaker_state (record_success b) = CLOSED \<and> (\<forall>now. breaker_state (record_failure now b) = OPEN)"
proof -
  have "breakers sv' = breakers sv"
    using assms(1,5) by (auto simp: provider_failed_def abort_def count_def split: prod.splits)
  moreover have "probe_outstanding b" using assms(3,4) by (simp add: probe_outstanding_def)
  then have "\<forall>nows. ask_all allows nows b = (replicate (length nows) False, b)"
    using cb.probing_refuses_all by blast
  ultimately show ?thesis using assms(2,3) by (simp add: record_success_def record_failure_def trip_def Let_def)
qed

theorem client_fault_on_probe_blocks_model_witness:
  "\<exists>sv out rv' sv'. provider_failed demo_env demo_settings sv demo_request demo_hold small_call {} ProviderError =
       (out, rv', sv') \<and>
     fst (ask_all allows [100, 1000000] (fst (get_breaker (breakers sv') ''small''))) = [False, False]"
proof -
  define b where "b = \<lparr>breaker_name = ''small'', failure_threshold = 5, recovery_timeout_s = 30,
    breaker_state = HALF_OPEN, consecutive_failures = 5, opened_at = 0, probe_taken = True\<rparr>"
  define R where "R = put_breaker (new_registry 5 30) ''small'' b"
  define sv where "sv = (new_service demo_settings)\<lparr>breakers := R\<rparr>"
  obtain out rv' sv' where p: "provider_failed demo_env demo_settings sv demo_request demo_hold small_call {}
      ProviderError = (out, rv', sv')" by (metis prod_cases3)
  have n: "name (Router.model small_call) = ''small''"
    by (simp add: small_call_def demo_small_def routing_decision.defs)
  have g: "get_breaker (breakers sv) (name (Router.model small_call)) = (b, R)"
    by (simp add: n sv_def R_def get_breaker_def put_breaker_def)
  have h: "\<not> server_fault ProviderError" "breaker_state b = HALF_OPEN" "probe_taken b"
    by (simp_all add: b_def server_fault_def)
  note c = client_fault_on_probe_blocks_model [OF h(1) g h(2,3) p]
  have "fst (get_breaker (breakers sv') ''small'') = b" using c n by simp
  moreover have "ask_all allows [100, 1000000] b = (replicate (length [100, 1000000 :: f64]) False, b)" using c by blast
  ultimately have "fst (ask_all allows [100, 1000000] (fst (get_breaker (breakers sv') ''small''))) = [False, False]"
    by simp
  with p show ?thesis by blast
qed

text \<open>A cancelled request keeps its hold: when the task is cancelled while the provider works, the slot is given
  back but the reservation is neither settled nor released, so its amount stays charged against the user
  until it leaves the accounting window, and the request stays counted as in flight.\<close>

theorem cancelled_request_keeps_its_hold:
  "ledger (provider_cancelled sv) = ledger sv \<and> metrics (provider_cancelled sv) = metrics sv \<and>
   active (gate (provider_cancelled sv)) = max 0 (active (gate sv) - 1)"
  by (simp add: provider_cancelled_def Gate.release_def)

lemma dropped_stays:
  "svc_exec e s evs w = Some w' \<Longrightarrow> jobs w t = Some j \<Longrightarrow> job_phase j = Dropped c \<Longrightarrow> jobs w' t = Some j"
proof (induction evs arbitrary: w)
  case (Cons ev evs)
  then obtain v where v: "svc_do e s ev w = Some v" "svc_exec e s evs v = Some w'" by (auto split: option.splits)
  have "jobs v t = Some j"
    using svc_do_step [OF v(1)]
  proof cases
    case (step_expire_entering t' j')
    with Cons.prems show ?thesis using leave_shed_jobs [of s w t' j'] by (cases "t' = t") auto
  next
    case (step_shed t' j')
    with Cons.prems show ?thesis
      using leave_shed_jobs [of s "set_gate w (unwind t' (gate (svc w)))" t' j'] by (cases "t' = t") auto
  qed (use Cons.prems in \<open>auto simp: land_jobs at_gate_def Let_def\<close>)
  from Cons.IH [OF v(2) this Cons.prems(3)] show ?case .
qed simp

lemma arrive_from_cache:
  assumes "arrive e s sv r = (FromCache res, sv')"
  obtains d hit sv1 sv2 where
    "route (tokenizer e) (prompt r) s (task_type r) (max_output_tokens r) (budget_usd r) (force_model r) {} = Inr d"
    "lookup_cache e sv1 d (prompt r) = (Some hit, sv2)" "sv' = sv2" "res = cached_result d hit"
    "cache sv1 = cache sv" "quiet sv sv'" "ledger sv' = ledger sv"
proof -
  obtain o1 s1 where 1: "check_rate_limit e sv (user_id r) = (o1, s1)" by fastforce
  obtain o2 s2 where 2: "route_request e s s1 r = (o2, s2)" by fastforce
  from assms obtain d hit where d: "o2 = Inr d" "lookup_cache e s2 d (prompt r) = (Some hit, sv')"
    "res = cached_result d hit"
    unfolding arrive_def by (auto simp: 1 2 split: sum.splits prod.splits option.splits)
  have "cache s2 = cache sv"
    using 1 2 by (auto simp: check_rate_limit_def route_request_def read_clock_def count_def
        split: option.splits prod.splits sum.splits if_splits)
  moreover have "quiet sv sv'" by (rule arrive_effect(1) [OF assms])
  moreover have "ledger sv' = ledger sv"
    using quiet_rate_limit [OF 1] quiet_route [OF 2] quiet_lookup [OF d(2)] by simp
  ultimately show thesis using that quiet_route [OF 2] d by blast
qed

text \<open>A cached answer costs nothing and comes from the model that was asked: a request answered from the cache
  changes neither ledger nor gate, reports cost 0, and, unless the hash function collides, its answer was
  produced by the very model its routing decision names, never by the stand-in of a failover.\<close>

theorem cached_answer_is_free_and_right:
  assumes "reachable e s w" "inj (digest e)" "arrive e s (svc w) r = (FromCache res, sv')"
  shows "ledger sv' = ledger (svc w) \<and> gate sv' = gate (svc w) \<and> result_cost_usd res = 0 \<and> result_cached res \<and>
    (\<exists>d. route (tokenizer e) (prompt r) s (task_type r) (max_output_tokens r) (budget_usd r) (force_model r) {} = Inr d \<and>
       result_model res = name (Router.model d))"
proof -
  obtain d hit sv1 sv2 where d:
    "route (tokenizer e) (prompt r) s (task_type r) (max_output_tokens r) (budget_usd r) (force_model r) {} = Inr d"
    "lookup_cache e sv1 d (prompt r) = (Some hit, sv2)" "res = cached_result d hit"
    "cache sv1 = cache (svc w)" "quiet (svc w) sv'" "ledger sv' = ledger (svc w)"
    using arrive_from_cache [OF assms(3)] by metis
  obtain c x where c: "cache (svc w) = Some c" "map_of (data c) (cache_key e d (prompt r)) = Some (hit, x)"
    using d(2,4) by (auto simp: lookup_cache_def read_clock_def cache_get_def split: option.splits prod.splits if_splits)
  from cache_part_reachable [OF assms(1)] c obtain p n where
    "cache_key e d (prompt r) = make_cache_key (digest e) (Cache.model hit) p n CACHE_KEY_VERSION"
    unfolding cache_part_def by metis
  then have "cache_payload (name (Router.model d)) (prompt r) (projected_output_tokens d) CACHE_KEY_VERSION =
      cache_payload (Cache.model hit) p n CACHE_KEY_VERSION"
    using assms(2) by (auto simp: cache_key_def make_cache_key_def dest: injD)
  then have "Cache.model hit = name (Router.model d)" using cache_payload_inj by metis
  with d show ?thesis by (auto simp: cached_result_def quiet_def)
qed

theorem cached_answer_is_free_and_right_witness:
  "\<exists>res sv'. arrive demo_env demo_settings (svc (demo_world demo_served)) demo_request = (FromCache res, sv') \<and>
     result_cost_usd res = 0"
proof -
  have "case arrive demo_env demo_settings (svc (demo_world demo_served)) demo_request of
      (FromCache res, sv') \<Rightarrow> True | _ \<Rightarrow> False" by code_simp
  then obtain res sv' where a: "arrive demo_env demo_settings (svc (demo_world demo_served)) demo_request =
      (FromCache res, sv')" by (auto split: arrival.splits prod.splits)
  have "inj (digest demo_env)" by (simp add: demo_env_def)
  from cached_answer_is_free_and_right [OF demo_served_reachable this a] a show ?thesis by blast
qed

text \<open>The gate's capacity follows the autoscaler: in every reachable world it is the capacity of the current
  number of replicas, that number is within the configured range, and at least one slot exists.\<close>

theorem gate_capacity_follows_replicas:
  assumes "reachable e s w" "inj (fresh_id e)"
  shows "capacity (gate (svc w)) = capacity_for s (replicas (autoscaler (svc w))) \<and>
    1 \<le> capacity (gate (svc w)) \<and> min_replicas s \<le> replicas (autoscaler (svc w)) \<and>
    replicas (autoscaler (svc w)) \<le> max (min_replicas s) (max_replicas s)"
  using scale_part_reachable [OF assms] capacity_for_pos [of s] by (simp add: scale_part_def replicas_ok_def)

theorem gate_capacity_follows_replicas_witness:
  "1 \<le> capacity (gate (svc (demo_world demo_called)))"
  using gate_capacity_follows_replicas [OF demo_called_reachable demo_ids] by blast

end
