(* ===== verification/Admission.thy ===== *)
theory Admission
  imports Guarantees
begin

text \<open>
  The gate as the service uses it: every step of the service, seen from the gate, is a step of the gate's own
  protocol, so what holds of the gate alone (\<open>Gate\<close>) holds of the gate inside the service, and with the invariant
  that ties the gate's capacity to the autoscaler it bounds the number of requests at the provider.
\<close>

section \<open>The gate inside the service\<close>

text \<open>A segment that gives its slot back does what \<open>Gate.release\<close> does for one holder; any other segment of a
  request in service leaves the gate alone.\<close>

lemma land_gate:
  assumes "effect s sv (job_reservation j) out" "gate sv = gate (svc w)" "t \<in> set (holding w)"
  shows "gate_step (gate_of w) (Release t) (gate_of (land w t j out)) \<or> gate_of (land w t j out) = gate_of w"
  using assms(1)
proof cases
  case (keeps sv' d ex)
  with assms(2) show ?thesis by (simp add: land_def same_books_def)
qed (use assms(2,3) gate_step.step_release [of t "gate_of w"] in \<open>simp_all add: land_def\<close>)

lemma svc_step_gate:
  assumes "svc_step e s w ev w'" "gate_part w" "calls_ok s w"
  shows "(\<exists>ge. gate_step (gate_of w) ge (gate_of w')) \<or> gate_of w' = gate_of w"
proof -
  have hold: "t \<in> set (holding w)" if "jobs w t = Some j" "has_slot (job_phase j)" for t j
    using assms(2) that by (simp add: gate_part_def in_phase_iff)
  show ?thesis
    using assms(1)
  proof cases
    case (step_refused t r x sv)
    with arrive_effect(1) [OF step_refused(5)] show ?thesis by (simp add: quiet_def)
  next
    case (step_cached t r res sv)
    with arrive_effect(1) [OF step_cached(5)] show ?thesis by (simp add: quiet_def)
  next
    case (step_holding t r d rv sv)
    with arrive_effect(1) [OF step_holding(5)] show ?thesis by (simp add: quiet_def)
  next
    case (step_enter t j)
    have "\<not> known t (gate_of w)"
      using assms(2) step_enter by (simp add: known_def gate_part_def in_phase_iff [OF step_enter(3)])
    from gate_step.step_acquire [OF this] have "gate_step (gate_of w) (Acquire t) (gate_of w')"
      using step_enter(2)
      by (cases "fst (acquire t (gate (svc w)))") (simp_all add: at_gate_def Let_def admit_def)
    then show ?thesis by blast
  next
    case (step_wake_up t j)
    from gate_step.step_wake [of t "gate_of w"] step_wake_up
    have "gate_step (gate_of w) (Wake t) (gate_of w')"
      by (cases "fst (wake t (gate (svc w)))") (simp_all add: at_gate_def Let_def admit_def)
    then show ?thesis by blast
  next
    case (step_expire_entering t j)
    then show ?thesis by (auto simp: leave_shed_def shed_def Let_def count_def split: prod.splits)
  next
    case (step_expire_waiting t j)
    have "t \<in> fst ` set (waiters (gate (svc w)))"
      using assms(2) step_expire_waiting by (simp add: gate_part_def in_phase_iff [OF step_expire_waiting(3)])
    with gate_step.step_cancel [of t "gate_of w"] step_expire_waiting(2)
    have "gate_step (gate_of w) (Cancel t) (gate_of w')" by simp
    then show ?thesis by blast
  next
    case (step_shed t j)
    have "gate_of w' = \<lparr>the_gate = unwind t (gate (svc w)), holders = holding w\<rparr>"
      using step_shed(2) by (auto simp: leave_shed_def shed_def Let_def count_def split: prod.splits)
    with gate_step.step_unwind [of t "gate_of w"] step_shed(5)
    have "gate_step (gate_of w) (Unwind t) (gate_of w')" by simp
    then show ?thesis by blast
  next
    case (step_begin t j)
    have "t \<in> set (holding (w\<lparr>calling := t # calling w\<rparr>))" using hold [of t j] step_begin by simp
    from land_gate [OF effect_begin _ this] step_begin show ?thesis by (force simp: count_def)
  next
    case (step_reply t j d ex c)
    have "Router.model d \<in> set (catalog s)"
      using calling_fits [OF assms(3) step_reply(3,4)] by (simp add: decision_fits_def)
    from land_gate [OF effect_returned [OF this] refl hold [of t j]] step_reply show ?thesis by force
  next
    case (step_fault t j d ex x)
    from land_gate [OF effect_failed refl hold [of t j]] step_fault show ?thesis by force
  next
    case (step_cancel_call t j d ex)
    have "t \<in> set (holding w)" using hold [of t j] step_cancel_call by simp
    from gate_step.step_release [of t "gate_of w"] this step_cancel_call(2)
    have "gate_step (gate_of w) (Release t) (gate_of w')" by (simp add: drop_call_def provider_cancelled_def)
    then show ?thesis by blast
  next
    case (step_give_up_entering t j)
    then show ?thesis by simp
  next
    case (step_give_up_waiting t j)
    have "t \<in> fst ` set (waiters (gate (svc w)))"
      using assms(2) step_give_up_waiting by (simp add: gate_part_def in_phase_iff [OF step_give_up_waiting(3)])
    with gate_step.step_cancel [of t "gate_of w"] step_give_up_waiting(2)
    have "gate_step (gate_of w) (Cancel t) (gate_of w')" by simp
    then show ?thesis by blast
  next
    case (step_leave t j)
    with gate_step.step_unwind [of t "gate_of w"] have "gate_step (gate_of w) (Unwind t) (gate_of w')" by simp
    then show ?thesis by blast
  next
    case (step_open_stream t j)
    then show ?thesis by (simp add: count_def)
  next
    case (step_stream t j st i st')
    then show ?thesis by simp
  next
    case (step_settle_stream t j st u)
    from land_gate [OF effect_settle_stream [OF held_model [OF assms(3) step_settle_stream(3)]] refl hold [of t j]]
      step_settle_stream show ?thesis by force
  next
    case step_tick
    have "gate (snd (autoscale_tick e s (svc w))) = gate (svc w) \<or>
        (\<exists>n. gate (snd (autoscale_tick e s (svc w))) = resize n (gate (svc w)))"
      by (auto simp: autoscale_tick_def Let_def read_clock_def count_def split: prod.splits sum.splits)
    then show ?thesis
    proof (elim disjE exE)
      fix n assume "gate (snd (autoscale_tick e s (svc w))) = resize n (gate (svc w))"
      with step_tick gate_step.step_resize [of "gate_of w" n]
      have "gate_step (gate_of w) (Resize n) (gate_of w')" by simp
      then show ?thesis by blast
    qed (use step_tick in simp)
  qed
qed

lemma capacity_for_mono:
  "0 \<le> target_concurrency_per_replica s \<Longrightarrow> 0 \<le> n \<Longrightarrow> m \<le> n \<Longrightarrow> capacity_for s m \<le> capacity_for s n"
  unfolding capacity_for_def fmul_def
  by (intro max.mono order_refl py_int_mono fl64_mono mult_right_mono fint_mono)

lemma active_bound:
  assumes "reachable e s w" "inj (fresh_id e)" "0 \<le> target_concurrency_per_replica s" "0 \<le> min_replicas s"
  shows "active (gate (svc w)) \<le> capacity_for s (max (min_replicas s) (max_replicas s))"
  using assms(1)
proof (induction rule: reachable.induct)
  case reach_new
  then show ?case
    using capacity_for_pos [of s "max (min_replicas s) (max_replicas s)"]
    by (simp add: new_svc_world_def new_service_def new_gate_def)
next
  case (reach_step w ev w')
  let ?m = "capacity_for s (max (min_replicas s) (max_replicas s))"
  have b: "gate_part w" "calls_ok s w"
    using books_ok_reachable [OF reach_step(1) assms(2)] by (simp_all add: books_ok_def)
  have "capacity (gate (svc w)) \<le> ?m"
    using scale_part_reachable [OF reach_step(1) assms(2)] assms(3,4)
    by (simp add: scale_part_def replicas_ok_def capacity_for_mono le_max_iff_disj)
  with svc_step_gate [OF reach_step(2) b] active_step_bound [of "gate_of w" _ "gate_of w'" ?m]
    reach_step.IH b(1)
  show ?case by (auto simp: gate_part_def)
qed

section \<open>More properties\<close>

text \<open>C32. The service uses the gate as the gate is meant to be used: seen from the gate, every step of the service
  is a step of the gate's own protocol (a task acquires that is neither holding nor waiting, only a holder
  releases, only a notified waiter wakes) or leaves the gate untouched.\<close>

theorem service_refines_gate:
  assumes "reachable e s w" "inj (fresh_id e)" "svc_step e s w ev w'"
  shows "(\<exists>ge. gate_step (gate_of w) ge (gate_of w')) \<or> gate_of w' = gate_of w"
  using svc_step_gate [OF assms(3)] books_ok_reachable [OF assms(1,2)] by (simp add: books_ok_def)

theorem service_refines_gate_witness:
  "(\<exists>ge. gate_step (gate_of (demo_world demo_called)) ge
       (gate_of ((demo_world demo_called)\<lparr>svc := snd (autoscale_tick demo_env demo_settings (svc (demo_world demo_called)))\<rparr>))) \<or>
   gate_of ((demo_world demo_called)\<lparr>svc := snd (autoscale_tick demo_env demo_settings (svc (demo_world demo_called)))\<rparr>) =
   gate_of (demo_world demo_called)"
  by (rule service_refines_gate [OF demo_called_reachable demo_ids step_tick])

text \<open>C33. The load on the provider is bounded by the configuration: in every reachable world at most as many requests
  are between admission and answer as the capacity of the largest number of replicas allows.\<close>

theorem concurrency_is_bounded:
  assumes "reachable e s w" "inj (fresh_id e)" "0 \<le> target_concurrency_per_replica s" "0 \<le> min_replicas s"
  shows "int (card (in_phase w has_slot)) \<le> capacity_for s (max (min_replicas s) (max_replicas s))"
proof -
  have g: "gate_part w" using books_ok_reachable [OF assms(1,2)] by (simp add: books_ok_def)
  then have "card (in_phase w has_slot) = length (holding w)"
    by (metis distinct_append distinct_card gate_ok_def gate_part_def gate_world.select_convs(2))
  with g active_bound [OF assms] show ?thesis by (simp add: gate_part_def gate_ok_def)
qed

theorem concurrency_is_bounded_witness:
  "int (card (in_phase (demo_world demo_called) has_slot)) \<le> capacity_for demo_settings 20"
proof -
  have "target_concurrency_per_replica demo_settings = 4" "min_replicas demo_settings = 1"
    "max_replicas demo_settings = 20"
    by (simp_all add: demo_settings_def default_settings_def)
  with concurrency_is_bounded [OF demo_called_reachable demo_ids] show ?thesis by simp
qed

end
