(* ===== verification/Delivery.thy ===== *)
theory Delivery
  imports Guarantees
begin

text \<open>
  Streams among the other requests of the service: what \<open>Streaming.thy\<close> shows of one stream, carried to every
  reachable world of \<open>Interleaving.thy\<close> with the ledger and the gate that the stream shares with them.
\<close>

lemma reachable_stream:
  assumes "reachable e s w" "jobs w t = Some j" "job_phase j = Streaming st"
  shows "stream_run e s (job_decision j) st"
  using streams_ok_reachable [OF assms(1)] assms(2,3) by (simp add: streams_ok_def)

lemma settle_stream_landed:
  assumes "reachable e s w" "inj (fresh_id e)" "jobs w t = Some j" "job_phase j = Streaming st"
    and "w' = land w t j (settle_stream e s (svc w) (job_request j) (job_reservation j) (job_decision j) st u)"
  shows "\<exists>j'. jobs w' t = Some j' \<and> job_phase j' = Done (Inr (stream_result (job_decision j) st u)) \<and>
      res_closed (job_reservation j')"
    and "t \<notin> set (holding w')"
    and "\<exists>now. usage_records (ledger (svc w')) = usage_records (ledger (svc w)) @
      [\<lparr>rec_user = user_id (job_request j), rec_model = name (Router.model (job_decision j)),
        rec_input_tokens = usage_in u, rec_output_tokens = usage_out u,
        rec_cost = cost (Router.model (job_decision j)) (usage_in u) (usage_out u), rec_at = now\<rparr>]"
proof -
  have b: "gate_part w" "ids_ok e w"
    using books_ok_reachable [OF assms(1,2)] by (simp_all add: books_ok_def)
  have open': "\<not> res_closed (job_reservation j)" using ids_okD(1) [OF b(2) assms(3)] assms(4) by simp
  let ?d = "job_decision j" and ?rv = "job_reservation j"
  let ?out = "settle_stream e s (svc w) (job_request j) ?rv ?d st u"
  have store: "ledger (cache_store e s v d p x u) = ledger v" for v d p x
    by (auto simp: cache_store_def read_clock_def split: option.splits)
  obtain L rv' where set: "settle (wall e (reads (svc w))) (ledger (svc w)) ?rv
      (cost (Router.model ?d) (usage_in u) (usage_out u)) (name (Router.model ?d)) (usage_in u) (usage_out u) =
      (L, rv')" by fastforce
  have out: "fst ?out = Finish (Inr (stream_result ?d st u))" "fst (snd ?out) = rv'" "ledger (snd (snd ?out)) = L"
    by (simp_all add: settle_stream_def Let_def read_clock_def set count_def store)
  have "res_closed rv'" using settle_closes [of "wall e (reads (svc w))" "ledger (svc w)" ?rv] set by (metis snd_conv)
  then show "\<exists>j'. jobs w' t = Some j' \<and> job_phase j' = Done (Inr (stream_result ?d st u)) \<and>
      res_closed (job_reservation j')"
    by (simp add: assms(5) land_jobs out)
  have "distinct (holding w)" using b(1) by (simp add: gate_part_def gate_ok_def)
  then show "t \<notin> set (holding w')"
    using out(1) by (cases ?out) (simp add: assms(5) land_def)
  show "\<exists>now. usage_records (ledger (svc w')) = usage_records (ledger (svc w)) @
      [\<lparr>rec_user = user_id (job_request j), rec_model = name (Router.model ?d),
        rec_input_tokens = usage_in u, rec_output_tokens = usage_out u,
        rec_cost = cost (Router.model ?d) (usage_in u) (usage_out u), rec_at = now\<rparr>]"
    using settle_open(2) [OF open'] set ids_okD(2) [OF b(2) assms(3)]
    by (simp add: assms(5) svc_land out) (metis fst_conv)
qed

section \<open>A concrete stream\<close>

abbreviation demo_streaming :: "svc_event list" where
  "demo_streaming \<equiv> [Arrive 0 demo_request, Enter 0, OpenStream 0, Stream 0 Pulled,
     Stream 0 (Chunk \<lparr>chunk_text = ''ok'', finish_reason = None,
       chunk_usage = Some \<lparr>usage_in = 1000, usage_out = 500\<rparr>\<rparr>)]"

lemma demo_streaming_reachable: "reachable demo_env demo_settings (demo_world demo_streaming)"
  by (rule demo_reachable) code_simp

lemma demo_streaming_job:
  "\<exists>j st. jobs (demo_world demo_streaming) 0 = Some j \<and> job_phase j = Streaming st \<and>
     last_usage st = Some \<lparr>usage_in = 1000, usage_out = 500\<rparr> \<and> suspended_at st = AtDelta"
proof -
  have "(case jobs (demo_world demo_streaming) 0 of
      Some j \<Rightarrow> (case job_phase j of
          Streaming st \<Rightarrow> last_usage st = Some \<lparr>usage_in = 1000, usage_out = 500\<rparr> \<and> suspended_at st = AtDelta
        | _ \<Rightarrow> False)
    | None \<Rightarrow> False)" by code_simp
  then show ?thesis by (auto split: option.splits phase.splits)
qed

lemma demo_per_token: "chars_per_token demo_settings \<noteq> 0"
  by (simp add: demo_settings_def default_settings_def)

section \<open>Properties\<close>

text \<open>A lost client costs no capacity: from every reachable world, wherever a stream stands, closing it (unless
  its bill was handed over already) and running its detached settlement are steps the service can take, and
  after them the stream's slot is free, its reservation closed and its bill written.\<close>

theorem stream_gives_slot_back:
  assumes "reachable e s w" "inj (fresh_id e)" "chars_per_token s \<noteq> 0"
    and "jobs w t = Some j" "job_phase j = Streaming st"
  shows "\<exists>w1 w2 j2 res. (w1 = w \<or> svc_step e s w (Stream t Closed) w1) \<and> svc_step e s w1 (SettleStream t) w2 \<and>
    t \<notin> set (holding w2) \<and> jobs w2 t = Some j2 \<and> job_phase j2 = Done (Inr res) \<and> res_closed (job_reservation j2)"
proof -
  have settle: "\<exists>w2 j2 res. svc_step e s w1 (SettleStream t) w2 \<and> t \<notin> set (holding w2) \<and>
      jobs w2 t = Some j2 \<and> job_phase j2 = Done (Inr res) \<and> res_closed (job_reservation j2)"
    if "reachable e s w1" "jobs w1 t = Some j1" "job_phase j1 = Streaming st1" "suspended_at st1 = Settling u"
    for w1 j1 st1 u
    using step_settle_stream [OF that(2-4)] settle_stream_landed(1,2) [OF that(1) assms(2) that(2,3) refl]
    by blast
  from stream_closes [OF reachable_stream [OF assms(1,4,5)] assms(3)]
  consider u where "suspended_at st = Settling u"
    | st' u where "stream_next e s (job_decision j) Closed st = Some st'" "suspended_at st' = Settling u"
    by blast
  then show ?thesis
  proof cases
    case 1
    from settle [OF assms(1,4,5) 1] show ?thesis by blast
  next
    case 2
    let ?w1 = "put_job w t (j\<lparr>job_phase := Streaming st'\<rparr>)"
    have st: "svc_step e s w (Stream t Closed) ?w1" by (rule step_stream [OF assms(4,5) 2(1)])
    have "jobs ?w1 t = Some (j\<lparr>job_phase := Streaming st'\<rparr>)" by simp
    from settle [OF reach_step [OF assms(1) st] this _ 2(2)] st show ?thesis by auto
  qed
qed

theorem stream_gives_slot_back_witness:
  "\<exists>w1 w2. (w1 = demo_world demo_streaming \<or>
       svc_step demo_env demo_settings (demo_world demo_streaming) (Stream 0 Closed) w1) \<and>
     svc_step demo_env demo_settings w1 (SettleStream 0) w2 \<and> 0 \<notin> set (holding w2)"
proof -
  obtain j st where "jobs (demo_world demo_streaming) 0 = Some j" "job_phase j = Streaming st"
    using demo_streaming_job by blast
  from stream_gives_slot_back [OF demo_streaming_reachable demo_ids demo_per_token this] show ?thesis by blast
qed

text \<open>C9. The bill of a stream is one usage record, for its user and the model it was started on, of the usage its
  provider reported last (or, without a report, of the estimate for the text delivered), and any end event
  the client received showed that usage and the price of the record, rounded to six digits.\<close>

theorem stream_record_is_its_end_event:
  assumes "reachable e s w" "inj (fresh_id e)" "jobs w t = Some j" "job_phase j = Streaming st"
    and "svc_step e s w (SettleStream t) w'"
  shows "\<exists>r. usage_records (ledger (svc w')) = usage_records (ledger (svc w)) @ [r] \<and>
    rec_user r = user_id (job_request j) \<and> rec_model r = name (Router.model (job_decision j)) \<and>
    (case last_usage st of Some u \<Rightarrow> rec_input_tokens r = usage_in u \<and> rec_output_tokens r = usage_out u
     | None \<Rightarrow> count_tokens (tokenizer e) (concat (map delta_text (emitted st))) (chars_per_token s) =
         Inr (rec_output_tokens r)) \<and>
    {ev \<in> set (emitted st). \<not> is_start ev \<and> \<not> is_delta ev} \<subseteq>
      insert (EndEvent (rec_model r) (rec_input_tokens r) (rec_output_tokens r) (round_dec 6 (rec_cost r))
        (downgraded (job_decision j)) False) (range ErrorEvent)"
  using assms(5)
proof cases
  case (step_settle_stream j' st' u)
  with assms(3,4) have u: "suspended_at st = Settling u"
    and w': "w' = land w t j (settle_stream e s (svc w) (job_request j) (job_reservation j) (job_decision j) st u)"
    by auto
  note run = reachable_stream [OF assms(1,3,4)]
  note sent = stream_end_sent [OF run u]
  obtain now where r: "usage_records (ledger (svc w')) = usage_records (ledger (svc w)) @
      [\<lparr>rec_user = user_id (job_request j), rec_model = name (Router.model (job_decision j)),
        rec_input_tokens = usage_in u, rec_output_tokens = usage_out u,
        rec_cost = cost (Router.model (job_decision j)) (usage_in u) (usage_out u), rec_at = now\<rparr>]"
    using settle_stream_landed(3) [OF assms(1-4) w'] by blast
  show ?thesis
    unfolding r using sent(2) stream_billed_usage [OF run sent(3)]
    by (intro exI [of _ "\<lparr>rec_user = user_id (job_request j), rec_model = name (Router.model (job_decision j)),
        rec_input_tokens = usage_in u, rec_output_tokens = usage_out u,
        rec_cost = cost (Router.model (job_decision j)) (usage_in u) (usage_out u), rec_at = now\<rparr>"])
      (simp add: end_event_def split: option.splits)
qed

theorem stream_record_is_its_end_event_witness:
  "\<exists>w w' r. svc_step demo_env demo_settings w (SettleStream 0) w' \<and>
     usage_records (ledger (svc w')) = usage_records (ledger (svc w)) @ [r] \<and> rec_input_tokens r = 1000"
proof -
  obtain j st where j: "jobs (demo_world demo_streaming) 0 = Some j" "job_phase j = Streaming st"
    and st: "last_usage st = Some \<lparr>usage_in = 1000, usage_out = 500\<rparr>" "suspended_at st = AtDelta"
    using demo_streaming_job by blast
  let ?st = "st\<lparr>suspended_at := Settling \<lparr>usage_in = 1000, usage_out = 500\<rparr>\<rparr>"
  let ?w = "put_job (demo_world demo_streaming) 0 (j\<lparr>job_phase := Streaming ?st\<rparr>)"
  have "stream_next demo_env demo_settings (job_decision j) Closed st = Some ?st"
    using st by (simp add: finalize_def final_usage_def)
  from reach_step [OF demo_streaming_reachable step_stream [OF j this]]
  have w: "reachable demo_env demo_settings ?w" .
  have j': "jobs ?w 0 = Some (j\<lparr>job_phase := Streaming ?st\<rparr>)" by simp
  obtain w' where settled: "svc_step demo_env demo_settings ?w (SettleStream 0) w'"
    using step_settle_stream [OF j', of ?st] by auto
  have ph: "job_phase (j\<lparr>job_phase := Streaming ?st\<rparr>) = Streaming ?st" by simp
  have "last_usage ?st = Some \<lparr>usage_in = 1000, usage_out = 500\<rparr>" using st(1) by simp
  with stream_record_is_its_end_event [OF w demo_ids j' ph settled] settled show ?thesis by auto
qed

end
