(* ===== verification/RedisLedger.thy ===== *)
theory RedisLedger
  imports Ledger Cache
begin

text \<open>
  \<open>app/cost/redis_ledger.py\<close>: the ledger shared by a fleet. The three Lua scripts are functions of the Redis
  data; the client around them caches the scripts' hashes, retries when the server has forgotten a script,
  and turns a failed call into the policy of \<open>fail_closed\<close>.

  Redis itself is outside the repository: its commands are the fields of \<open>redis_ops\<close>, and what the scripts
  rely on is \<open>redis_laws\<close> (a sorted set maps members to scores; \<open>ZRANGE 0 -1\<close> lists its members;
  \<open>ZREMRANGEBYSCORE -inf max\<close> removes the scores up to and including \<open>max\<close>; \<open>EXPIRE\<close> changes no data now).
  A script runs without interruption. A call over the network is \<open>Delivered\<close>, \<open>Unsent\<close>, or its reply is
  lost after the server has done the work. Reading a number from text (\<open>tonumber\<close>, \<open>float\<close>) is the parameter
  \<open>number\<close>, of which only \<open>reads_fixed\<close> is used: it reads what \<open>%.10f\<close> wrote; \<open>reported\<close> is a number after
  Lua's \<open>tostring\<close> and Python's \<open>float\<close> (it occurs in the text of an exception only).
\<close>

section \<open>Redis commands\<close>

record 'db redis_ops =
  zrange :: "'db \<Rightarrow> string \<Rightarrow> string list"
  zadd :: "'db \<Rightarrow> string \<Rightarrow> f64 \<Rightarrow> string \<Rightarrow> 'db"
  zrem :: "'db \<Rightarrow> string \<Rightarrow> string \<Rightarrow> 'db"
  zremrangebyscore :: "'db \<Rightarrow> string \<Rightarrow> f64 \<Rightarrow> 'db"
  hincrbyfloat :: "'db \<Rightarrow> string \<Rightarrow> string \<Rightarrow> f64 \<Rightarrow> 'db"
  expire :: "'db \<Rightarrow> string \<Rightarrow> int \<Rightarrow> 'db"
  scan_keys :: "'db \<Rightarrow> string \<Rightarrow> string list"

type_synonym zset = "string \<Rightarrow> f64 option"

definition redis_laws :: "'db redis_ops \<Rightarrow> ('db \<Rightarrow> string \<Rightarrow> zset) \<Rightarrow> bool" where
  "redis_laws ops zs \<longleftrightarrow>
     (\<forall>db k. set (zrange ops db k) = dom (zs db k) \<and> distinct (zrange ops db k)) \<and>
     (\<forall>db k sc m k'. zs (zadd ops db k sc m) k' = (if k' = k then (zs db k)(m \<mapsto> sc) else zs db k')) \<and>
     (\<forall>db k m k'. zs (zrem ops db k m) k' = (if k' = k then (zs db k)(m := None) else zs db k')) \<and>
     (\<forall>db k cutoff k'. zs (zremrangebyscore ops db k cutoff) k' =
        (if k' = k then zs db k |` {m. \<forall>sc. zs db k m = Some sc \<longrightarrow> cutoff < sc} else zs db k')) \<and>
     (\<forall>db k f x k'. zs (hincrbyfloat ops db k f x) k' = zs db k') \<and>
     (\<forall>db k n k'. zs (expire ops db k n) k' = zs db k')"

section \<open>Amounts as text\<close>

text \<open>\<open>f"{x:.10f}"\<close> and \<open>string.format('%.10f', x)\<close>: the exact value rounded to ten decimals.\<close>

definition pad10 :: "string \<Rightarrow> string" where
  "pad10 ds = replicate (10 - length ds) CHR ''0'' @ ds"

definition fixed10 :: "f64 \<Rightarrow> string" where
  "fixed10 x = (let n = nat \<bar>rne (x * 10 ^ 10)\<bar> in
     (if x < 0 then ''-'' else []) @ show_nat (n div 10 ^ 10) @ ''.'' @ pad10 (show_nat (n mod 10 ^ 10)))"

definition reads_fixed :: "(string \<Rightarrow> f64 option) \<Rightarrow> bool" where
  "reads_fixed number \<longleftrightarrow> (\<forall>x. 0 \<le> x \<longrightarrow> number (fixed10 x) = Some (round_dec 10 x))"

definition member_of :: "string \<Rightarrow> f64 \<Rightarrow> string" where
  "member_of rid amount = rid @ '':'' @ fixed10 amount"

text \<open>The amount in a member, if it has one.\<close>

definition member_amount :: "(string \<Rightarrow> f64 option) \<Rightarrow> string \<Rightarrow> f64 option" where
  "member_amount number m = (case py_partition CHR '':'' m of (_, sep, raw) \<Rightarrow> if sep = [] then None else number raw)"

text \<open>\<open>_sum_members\<close>, and the loop of the reserve script: anything malformed is skipped.\<close>

fun sum_members :: "(string \<Rightarrow> f64 option) \<Rightarrow> f64 \<Rightarrow> string list \<Rightarrow> f64" where
  "sum_members number tot [] = tot"
| "sum_members number tot (m # ms) =
     (case member_amount number m of
        None \<Rightarrow> sum_members number tot ms
      | Some v \<Rightarrow> sum_members number (fadd tot v) ms)"

section \<open>The scripts\<close>

definition reserve_lua ::
  "'db redis_ops \<Rightarrow> (string \<Rightarrow> f64 option) \<Rightarrow> string \<Rightarrow> f64 \<Rightarrow> f64 \<Rightarrow> f64 \<Rightarrow> f64 \<Rightarrow> string \<Rightarrow> 'db \<Rightarrow>
   (bool \<times> f64) \<times> 'db"
where
  "reserve_lua ops number key now window amount limit member db =
     (let db = zremrangebyscore ops db key (fsub now window);
          tot = sum_members number 0 (zrange ops db key)
      in if fadd limit (lit 1 9) < fadd tot amount then ((False, tot), db)
         else ((True, tot), expire ops (zadd ops db key now member) key (\<lceil>window\<rceil> + 60)))"

definition hold_of :: "'db redis_ops \<Rightarrow> string \<Rightarrow> string \<Rightarrow> 'db \<Rightarrow> string option" where
  "hold_of ops key rid db = List.find (starts_with (rid @ '':'')) (zrange ops db key)"

definition settle_lua ::
  "'db redis_ops \<Rightarrow> string \<Rightarrow> string \<Rightarrow> f64 \<Rightarrow> string \<Rightarrow> f64 \<Rightarrow> f64 \<Rightarrow> 'db \<Rightarrow> bool \<times> 'db" where
  "settle_lua ops key usage_key now rid actual window db =
     (let found = hold_of ops key rid db;
          db = (case found of None \<Rightarrow> db | Some m \<Rightarrow> zrem ops db key m);
          db = zadd ops db key now (member_of rid actual);
          db = expire ops db key (\<lceil>window\<rceil> + 60);
          db = hincrbyfloat ops db usage_key ''total'' actual;
          db = expire ops db usage_key (\<lceil>window\<rceil> + 60)
      in (found \<noteq> None, db))"

definition release_lua :: "'db redis_ops \<Rightarrow> string \<Rightarrow> string \<Rightarrow> 'db \<Rightarrow> bool \<times> 'db" where
  "release_lua ops key rid db =
     (case hold_of ops key rid db of None \<Rightarrow> (False, db) | Some m \<Rightarrow> (True, zrem ops db key m))"

section \<open>Calling a script\<close>

datatype transport = Delivered | Unsent | ReplyLost

text \<open>What a call does to the data, and the reply if one arrives.\<close>

definition over :: "transport \<Rightarrow> ('db \<Rightarrow> 'r \<times> 'db) \<Rightarrow> 'db \<Rightarrow> 'r option \<times> 'db" where
  "over tr run db =
     (case tr of
        Delivered \<Rightarrow> (case run db of (r, db') \<Rightarrow> (Some r, db'))
      | Unsent \<Rightarrow> (None, db)
      | ReplyLost \<Rightarrow> (None, snd (run db)))"

text \<open>One script at one server: does the client hold its hash, does the server know it.\<close>

record script_state =
  hash_cached :: bool
  known_to_server :: bool

text \<open>\<open>_eval\<close>: load the script if its hash is not cached, call it by hash, and send the source when the server
  does not know it. \<open>t1\<close>, \<open>t2\<close> and \<open>t3\<close> are the fates of these three calls.\<close>

definition eval_script ::
  "transport \<Rightarrow> transport \<Rightarrow> transport \<Rightarrow> script_state \<Rightarrow> ('db \<Rightarrow> 'r \<times> 'db) \<Rightarrow> 'db \<Rightarrow>
   ('r option \<times> 'db) \<times> script_state"
where
  "eval_script t1 t2 t3 ss run db =
     (if \<not> hash_cached ss \<and> t1 \<noteq> Delivered
      then ((None, db), ss\<lparr>known_to_server := known_to_server ss \<or> t1 = ReplyLost\<rparr>)
      else let ss = (if hash_cached ss then ss else \<lparr>hash_cached = True, known_to_server = True\<rparr>) in
        if known_to_server ss then (over t2 run db, ss)
        else if t2 \<noteq> Delivered then ((None, db), ss)
        else (over t3 run db, \<lparr>hash_cached = False, known_to_server = t3 \<noteq> Unsent\<rparr>))"

section \<open>The ledger\<close>

record redis_ledger =
  redis_window :: f64
  namespace :: string
  fail_closed :: bool
  max_records :: int
  local_records :: "usage_record list"

definition spend_key :: "redis_ledger \<Rightarrow> string \<Rightarrow> string" where
  "spend_key R u = namespace R @ '':spend:'' @ u"

definition usage_key :: "redis_ledger \<Rightarrow> string \<Rightarrow> string" where
  "usage_key R u = namespace R @ '':usage:'' @ u"

text \<open>The outcome of the script call, \<open>reply\<close>, is what \<open>eval_script\<close> gave; \<open>None\<close> is an exception.\<close>

definition reserve_reply ::
  "(f64 \<Rightarrow> f64) \<Rightarrow> redis_ledger \<Rightarrow> f64 \<Rightarrow> string \<Rightarrow> string \<Rightarrow> f64 \<Rightarrow> f64 \<Rightarrow> (bool \<times> f64) option \<Rightarrow>
   (exc, reservation) result"
where
  "reserve_reply reported R now rid u amount limit reply =
     (let rv = \<lparr>res_user = u, res_amount = amount, res_created_at = now, res_id = rid, res_closed = False\<rparr> in
      case reply of
        None \<Rightarrow> if fail_closed R then Inl LedgerUnavailableError else Inr rv
      | Some (allowed, tot) \<Rightarrow>
          if \<not> allowed then Inl (UserBudgetExceededError u (reported tot) limit amount) else Inr rv)"

definition redis_reserve ::
  "'db redis_ops \<Rightarrow> (string \<Rightarrow> f64 option) \<Rightarrow> (f64 \<Rightarrow> f64) \<Rightarrow> transport \<times> transport \<times> transport \<Rightarrow> redis_ledger \<Rightarrow>
   script_state \<Rightarrow> f64 \<Rightarrow> string \<Rightarrow> string \<Rightarrow> f64 \<Rightarrow> f64 \<Rightarrow> 'db \<Rightarrow> (exc, reservation) result \<times> script_state \<times> 'db"
where
  "redis_reserve ops number reported net R ss now rid u amount limit db =
     (case net of (t1, t2, t3) \<Rightarrow>
      case eval_script t1 t2 t3 ss
          (reserve_lua ops number (spend_key R u) now (redis_window R) amount limit (member_of rid amount)) db of
        ((reply, db'), ss') \<Rightarrow> (reserve_reply reported R now rid u amount limit reply, ss', db'))"

text \<open>The newest \<open>max_records\<close> settlements of this process.\<close>

definition keep_last :: "int \<Rightarrow> 'a list \<Rightarrow> 'a list" where
  "keep_last n xs = (if n < int (length xs) then drop (length xs - nat n) xs else xs)"

definition redis_settle ::
  "'db redis_ops \<Rightarrow> transport \<times> transport \<times> transport \<Rightarrow> redis_ledger \<Rightarrow> script_state \<Rightarrow> f64 \<Rightarrow> reservation \<Rightarrow>
   f64 \<Rightarrow> string \<Rightarrow> int \<Rightarrow> int \<Rightarrow> 'db \<Rightarrow> (exc, unit) result \<times> reservation \<times> redis_ledger \<times> script_state \<times> 'db"
where
  "redis_settle ops net R ss now rv actual mname inp out db =
     (if res_closed rv then (Inr (), rv, R, ss, db)
      else case net of (t1, t2, t3) \<Rightarrow>
        case eval_script t1 t2 t3 ss
            (settle_lua ops (spend_key R (res_user rv)) (usage_key R (res_user rv)) now (res_id rv) actual (redis_window R)) db of
          ((reply, db'), ss') \<Rightarrow>
            let rv' = rv\<lparr>res_closed := True\<rparr>;
                R' = R\<lparr>local_records := keep_last (max_records R) (local_records R @
                  [\<lparr>rec_user = res_user rv, rec_model = mname, rec_input_tokens = inp, rec_output_tokens = out,
                    rec_cost = actual, rec_at = now\<rparr>])\<rparr>
            in if reply = None \<and> fail_closed R then (Inl LedgerUnavailableError, rv', R, ss', db')
               else (Inr (), rv', R', ss', db'))"

definition redis_release ::
  "'db redis_ops \<Rightarrow> transport \<times> transport \<times> transport \<Rightarrow> redis_ledger \<Rightarrow> script_state \<Rightarrow> reservation \<Rightarrow> 'db \<Rightarrow>
   (exc, unit) result \<times> reservation \<times> script_state \<times> 'db"
where
  "redis_release ops net R ss rv db =
     (if res_closed rv then (Inr (), rv, ss, db)
      else case net of (t1, t2, t3) \<Rightarrow>
        case eval_script t1 t2 t3 ss (release_lua ops (spend_key R (res_user rv)) (res_id rv)) db of
          ((reply, db'), ss') \<Rightarrow>
            ((if reply = None \<and> fail_closed R then Inl LedgerUnavailableError else Inr ()),
             rv\<lparr>res_closed := True\<rparr>, ss', db'))"

text \<open>\<open>spent\<close>: two plain commands.\<close>

definition redis_spent ::
  "'db redis_ops \<Rightarrow> (string \<Rightarrow> f64 option) \<Rightarrow> transport \<Rightarrow> transport \<Rightarrow> redis_ledger \<Rightarrow> f64 \<Rightarrow> string \<Rightarrow> 'db \<Rightarrow>
   (exc, f64) result \<times> 'db"
where
  "redis_spent ops number t1 t2 R now u db =
     (let key = spend_key R u;
          unavailable = (if fail_closed R then Inl LedgerUnavailableError else Inr 0)
      in case over t1 (\<lambda>db. ((), zremrangebyscore ops db key (fsub now (redis_window R)))) db of
           (None, db) \<Rightarrow> (unavailable, db)
         | (Some _, db) \<Rightarrow>
             (case over t2 (\<lambda>db. (zrange ops db key, db)) db of
                (None, db) \<Rightarrow> (unavailable, db)
              | (Some ms, db) \<Rightarrow> (Inr (sum_members number 0 ms), db)))"

text \<open>\<open>key.split(":", 2)[-1]\<close>, and \<open>summary\<close> over the scanned keys: \<open>net\<close> holds the fate of the read of each key,
  with the scan step before it, and of the last scan step; one that fails ends the loop.\<close>

definition after_sep :: "char \<Rightarrow> string \<Rightarrow> string option" where
  "after_sep c s = (case py_partition c s of (_, [], _) \<Rightarrow> None | (_, _, rest) \<Rightarrow> Some rest)"

definition user_of_key :: "string \<Rightarrow> string" where
  "user_of_key key =
     (case after_sep CHR '':'' key of None \<Rightarrow> key
      | Some rest \<Rightarrow> (case after_sep CHR '':'' rest of None \<Rightarrow> rest | Some u \<Rightarrow> u))"

fun summary_loop ::
  "'db redis_ops \<Rightarrow> (string \<Rightarrow> f64 option) \<Rightarrow> redis_ledger \<Rightarrow> 'db \<Rightarrow> transport list \<Rightarrow> string list \<Rightarrow>
   (string \<times> f64) list \<Rightarrow> (exc, (string \<times> f64) list) result"
where
  "summary_loop ops number R db net [] out =
     (if take 1 net = [Delivered] then Inr out
      else if fail_closed R then Inl LedgerUnavailableError else Inr out)"
| "summary_loop ops number R db net (key # keys) out =
     (case net of
        Delivered # net' \<Rightarrow>
          summary_loop ops number R db net' keys
            (dict_set (user_of_key key) (round_dec 10 (sum_members number 0 (zrange ops db key))) out)
      | _ \<Rightarrow> if fail_closed R then Inl LedgerUnavailableError else Inr out)"

definition redis_summary ::
  "'db redis_ops \<Rightarrow> (string \<Rightarrow> f64 option) \<Rightarrow> redis_ledger \<Rightarrow> transport list \<Rightarrow> 'db \<Rightarrow>
   (exc, (string \<times> f64) list) result"
where
  "redis_summary ops number R net db =
     summary_loop ops number R db net (scan_keys ops db (namespace R @ '':spend:*'')) []"

definition redis_records :: "redis_ledger \<Rightarrow> usage_record list" where
  "redis_records R = local_records R"

section \<open>The sorted set of a user\<close>

lemma redis_lawsD:
  assumes "redis_laws ops zs"
  shows "set (zrange ops db k) = dom (zs db k)" "distinct (zrange ops db k)"
    and "zs (zadd ops db k sc m) k' = (if k' = k then (zs db k)(m \<mapsto> sc) else zs db k')"
    and "zs (zrem ops db k m) k' = (if k' = k then (zs db k)(m := None) else zs db k')"
    and "zs (zremrangebyscore ops db k cutoff) k' =
      (if k' = k then zs db k |` {m. \<forall>sc. zs db k m = Some sc \<longrightarrow> cutoff < sc} else zs db k')"
    and "zs (hincrbyfloat ops db k f x) k' = zs db k'" "zs (expire ops db k n) k' = zs db k'"
  using assms by (simp_all only: redis_laws_def)

text \<open>The members that are younger than the window.\<close>

definition live :: "f64 \<Rightarrow> f64 \<Rightarrow> zset \<Rightarrow> zset" where
  "live now window z = z |` {m. \<forall>sc. z m = Some sc \<longrightarrow> fsub now window < sc}"

text \<open>The id of a member, and one member per id.\<close>

definition id_of :: "string \<Rightarrow> string" where
  "id_of m = takeWhile (\<lambda>c. c \<noteq> CHR '':'') m"

definition one_per_id :: "zset \<Rightarrow> bool" where
  "one_per_id z \<longleftrightarrow> inj_on id_of (dom z)"

definition plain_id :: "string \<Rightarrow> bool" where
  "plain_id rid \<longleftrightarrow> CHR '':'' \<notin> set rid"

lemma id_of_member [simp]: "plain_id rid \<Longrightarrow> id_of (member_of rid a) = rid"
  by (simp add: id_of_def member_of_def plain_id_def take_drop_sep)

lemma prefix_id:
  assumes "plain_id rid"
  shows "starts_with (rid @ '':'') m \<Longrightarrow> id_of m = rid" "starts_with (rid @ '':'') (member_of rid a)"
proof -
  show "starts_with (rid @ '':'') (member_of rid a)" by (simp add: starts_with_iff member_of_def)
  assume "starts_with (rid @ '':'') m"
  then obtain t where "m = rid @ CHR '':'' # t" by (auto simp: starts_with_iff)
  with assms show "id_of m = rid" by (simp add: id_of_def plain_id_def take_drop_sep)
qed

lemma member_amount_member:
  assumes "plain_id rid" "reads_fixed number" "0 \<le> a"
  shows "member_amount number (member_of rid a) = Some (round_dec 10 a)"
  using assms by (simp add: member_amount_def member_of_def plain_id_def reads_fixed_def py_partition_append)

lemma hold_of_None: "redis_laws ops zs \<Longrightarrow> plain_id rid \<Longrightarrow> rid \<notin> id_of ` dom (zs db key) \<Longrightarrow> hold_of ops key rid db = None"
  using prefix_id(1) [of rid] redis_lawsD(1) [of ops zs db key]
  by (auto simp: hold_of_def find_None_iff)

lemma hold_of_Some:
  assumes "redis_laws ops zs" "plain_id rid" "one_per_id (zs db key)" "member_of rid a \<in> dom (zs db key)"
  shows "hold_of ops key rid db = Some (member_of rid a)"
proof -
  have set: "set (zrange ops db key) = dom (zs db key)" using redis_lawsD(1) [OF assms(1)] .
  obtain m where m: "List.find (starts_with (rid @ '':'')) (zrange ops db key) = Some m"
    using assms(4) set prefix_id(2) [OF assms(2), of a]
    by (cases "List.find (starts_with (rid @ '':'')) (zrange ops db key)") (auto simp: find_None_iff)
  note fm = find_SomeD [OF m]
  then have "id_of m = id_of (member_of rid a)" "m \<in> dom (zs db key)"
    using prefix_id(1) [OF assms(2)] set by (simp_all add: assms(2))
  with assms(3,4) have "m = member_of rid a" by (auto simp: one_per_id_def dest: inj_onD)
  with m show ?thesis by (simp add: hold_of_def)
qed

text \<open>The effect of each script on the sorted set of one user; other users' sets stay as they are.\<close>

lemma reserve_lua_effect:
  fixes db :: 'db
  assumes "redis_laws ops zs" "reserve_lua ops number key now window a limit m db = ((ok, tot), db')"
  obtains pruned :: 'db where "zs pruned key = live now window (zs db key)"
    and "tot = sum_members number 0 (zrange ops pruned key)"
    and "ok \<longleftrightarrow> fadd tot a \<le> fadd limit (lit 1 9)"
    and "zs db' = (zs db)(key := if ok then (live now window (zs db key))(m \<mapsto> now) else live now window (zs db key))"
proof -
  note laws = redis_lawsD [OF assms(1)]
  let ?p = "zremrangebyscore ops db key (fsub now window)"
  have p: "zs ?p key = live now window (zs db key)" by (simp add: laws(5) live_def)
  have "zs db' = (zs db)(key := if ok then (live now window (zs db key))(m \<mapsto> now) else live now window (zs db key))"
    using assms(2) p by (auto simp: reserve_lua_def Let_def laws(3,5,7) fun_eq_iff live_def split: if_splits)
  moreover have "tot = sum_members number 0 (zrange ops ?p key)" "ok \<longleftrightarrow> fadd tot a \<le> fadd limit (lit 1 9)"
    using assms(2) by (auto simp: reserve_lua_def Let_def split: if_splits)
  ultimately show thesis using that [of ?p] p by blast
qed

lemma close_lua_effect:
  assumes "redis_laws ops zs" "plain_id rid" "one_per_id (zs db key)" "member_of rid a \<in> dom (zs db key)"
  shows "zs (snd (release_lua ops key rid db)) = (zs db)(key := (zs db key)(member_of rid a := None))"
    and "zs (snd (settle_lua ops key ukey now rid c window db)) =
      (zs db)(key := (zs db key)(member_of rid a := None, member_of rid c \<mapsto> now))"
  using hold_of_Some [OF assms] redis_lawsD [OF assms(1)]
  by (simp_all add: release_lua_def settle_lua_def Let_def fun_eq_iff)

lemma one_per_id_scripts:
  assumes "one_per_id z"
  shows "one_per_id (live now window z)" "one_per_id (z(m := None))"
    and "rid \<notin> id_of ` dom z \<Longrightarrow> plain_id rid \<Longrightarrow> one_per_id (z(member_of rid a \<mapsto> now))"
    and "plain_id rid \<Longrightarrow> member_of rid a \<in> dom z \<Longrightarrow>
      one_per_id (z(member_of rid a := None, member_of rid c \<mapsto> now))"
proof -
  show "one_per_id (live now window z)" "one_per_id (z(m := None))"
    using assms by (auto simp: one_per_id_def live_def elim!: inj_on_subset)
  show "one_per_id (z(member_of rid a \<mapsto> now))" if "rid \<notin> id_of ` dom z" "plain_id rid"
    using assms that by (auto simp: one_per_id_def inj_on_def)
  show "one_per_id (z(member_of rid a := None, member_of rid c \<mapsto> now))"
    if p: "plain_id rid" "member_of rid a \<in> dom z"
  proof -
    have "x = member_of rid a" if "x \<in> dom z" "id_of x = rid" for x
      using inj_onD [OF assms [unfolded one_per_id_def], of x "member_of rid a"] p that by simp
    then have "inj_on id_of (dom z - {member_of rid a})" "rid \<notin> id_of ` (dom z - {member_of rid a})"
      using assms by (auto simp: one_per_id_def inj_on_diff)
    then have "inj_on id_of (insert (member_of rid c) (dom z - {member_of rid a}))"
      using p(1) by (auto simp: inj_on_insert)
    moreover have "dom (z(member_of rid a := None, member_of rid c \<mapsto> now)) =
        insert (member_of rid c) (dom z - {member_of rid a})" by auto
    ultimately show ?thesis by (simp add: one_per_id_def)
  qed
qed

section \<open>A Redis of lists\<close>

text \<open>An instance of the laws, and a reader of the fixed format, for the witnesses.\<close>

type_synonym list_db = "string \<Rightarrow> (string \<times> f64) list"

definition list_redis :: "list_db redis_ops" where
  "list_redis = \<lparr>zrange = (\<lambda>db k. remdups (map fst (db k))),
     zadd = (\<lambda>db k sc m. db(k := (m, sc) # db k)),
     zrem = (\<lambda>db k m. db(k := filter (\<lambda>(m', _). m' \<noteq> m) (db k))),
     zremrangebyscore = (\<lambda>db k cutoff. db(k := filter (\<lambda>(m, _). map_of (db k) m \<noteq> None \<and>
       cutoff < the (map_of (db k) m)) (db k))),
     hincrbyfloat = (\<lambda>db k f x. db), expire = (\<lambda>db k n. db), scan_keys = (\<lambda>db p. [])\<rparr>"

lemma map_of_filter_keys: "map_of (filter (\<lambda>(k, _). P k) kvs) k = (if P k then map_of kvs k else None)"
  by (induction kvs) auto

lemma list_redis_laws: "redis_laws list_redis (\<lambda>db k. map_of (db k))"
proof -
  have "map_of (filter (\<lambda>(m, _). map_of kvs m \<noteq> None \<and> c < the (map_of kvs m)) kvs) =
      map_of kvs |` {m. \<forall>sc. map_of kvs m = Some sc \<longrightarrow> c < sc}" for kvs :: "(string \<times> f64) list" and c
  proof (rule ext)
    fix x
    show "map_of (filter (\<lambda>(m, _). map_of kvs m \<noteq> None \<and> c < the (map_of kvs m)) kvs) x =
      (map_of kvs |` {m. \<forall>sc. map_of kvs m = Some sc \<longrightarrow> c < sc}) x"
      by (cases "map_of kvs x") (simp_all add: map_of_filter_keys restrict_map_def)
  qed
  moreover have "map_of (filter (\<lambda>(m', _). m' \<noteq> m) kvs) = (map_of kvs)(m := None)"
    for kvs :: "(string \<times> f64) list" and m
    by (rule ext) (auto simp: map_of_filter_keys)
  ultimately show ?thesis
    by (simp add: redis_laws_def list_redis_def dom_map_of_conv_image_fst)
qed

definition read_fixed :: "string \<Rightarrow> f64 option" where
  "read_fixed x = (case py_partition CHR ''.'' x of (whole, _, decimals) \<Rightarrow>
     Some (lit (int (read_nat whole * 10 ^ 10 + read_nat decimals)) 10))"

lemma read_fixed_reads: "reads_fixed read_fixed"
  unfolding reads_fixed_def
proof (intro allI impI)
  fix x :: f64 assume "0 \<le> x"
  define n where "n = nat (rne (x * 10 ^ 10))"
  have r: "0 \<le> rne (x * 10 ^ 10)" using \<open>0 \<le> x\<close> by (intro rne_ge_of_int) simp
  have "CHR ''.'' \<notin> set (show_nat k)" for k using show_nat_digits [of k] by auto
  then have "py_partition CHR ''.'' (show_nat a @ CHR ''.'' # b) = (show_nat a, ''.'', b)" for a b
    by (rule py_partition_append)
  moreover have "read_nat (pad10 (show_nat k)) = k" for k
    by (simp only: pad10_def read_nat_zeros read_show_nat)
  moreover have "fixed10 x = show_nat (n div 10 ^ 10) @ CHR ''.'' # pad10 (show_nat (n mod 10 ^ 10))"
    using \<open>0 \<le> x\<close> r by (simp add: fixed10_def Let_def n_def)
  ultimately have "read_fixed (fixed10 x) = Some (lit (int (n div 10 ^ 10 * 10 ^ 10 + n mod 10 ^ 10)) 10)"
    by (simp only: read_fixed_def case_prod_conv read_show_nat)
  also have "n div 10 ^ 10 * 10 ^ 10 + n mod 10 ^ 10 = n" by (rule div_mult_mod_eq)
  finally show "read_fixed (fixed10 x) = Some (round_dec 10 x)"
    using r by (simp add: lit_def round_dec_def n_def)
qed

section \<open>Calls over the network\<close>

lemma over_cases:
  "over tr run db = (reply, db') \<Longrightarrow>
   (db' = db \<and> reply = None) \<or> (db' = snd (run db) \<and> (reply = None \<or> reply = Some (fst (run db))))"
  by (auto simp: over_def split: transport.splits prod.splits)

lemma eval_script_cases:
  assumes "eval_script t1 t2 t3 ss run db = ((reply, db'), ss')"
  shows "(db' = db \<and> reply = None) \<or> (db' = snd (run db) \<and> (reply = None \<or> reply = Some (fst (run db))))"
  using assms over_cases [of t2 run db] over_cases [of t3 run db]
  by (auto simp: eval_script_def Let_def split: if_splits)

text \<open>Whether the script runs, and whether its reply arrives, by the fates of the three messages.\<close>

definition executed :: "transport \<times> transport \<times> transport \<Rightarrow> script_state \<Rightarrow> bool" where
  "executed net ss \<longleftrightarrow> (case net of (t1, t2, t3) \<Rightarrow> (hash_cached ss \<or> t1 = Delivered) \<and>
     (if hash_cached ss \<and> \<not> known_to_server ss then t2 = Delivered \<and> t3 \<noteq> Unsent else t2 \<noteq> Unsent))"

definition answered :: "transport \<times> transport \<times> transport \<Rightarrow> script_state \<Rightarrow> bool" where
  "answered net ss \<longleftrightarrow> (case net of (t1, t2, t3) \<Rightarrow> (hash_cached ss \<or> t1 = Delivered) \<and> t2 = Delivered \<and>
     (hash_cached ss \<and> \<not> known_to_server ss \<longrightarrow> t3 = Delivered))"

lemma eval_script_outcome:
  "\<exists>ss'. eval_script t1 t2 t3 ss run db =
     ((if answered (t1, t2, t3) ss then Some (fst (run db)) else None, if executed (t1, t2, t3) ss then snd (run db) else db), ss')"
  by (auto simp: eval_script_def over_def answered_def executed_def Let_def split: transport.splits prod.splits)

text \<open>What a call that fails answers.\<close>

definition unavailable :: "redis_ledger \<Rightarrow> 'a \<Rightarrow> (exc, 'a) result" where
  "unavailable R x = (if fail_closed R then Inl LedgerUnavailableError else Inr x)"

lemma summary_loop_fails:
  "take (Suc (length keys)) net \<noteq> replicate (Suc (length keys)) Delivered \<Longrightarrow>
   (if fail_closed R then summary_loop ops number R db net keys out = Inl LedgerUnavailableError
    else \<exists>part. summary_loop ops number R db net keys out = Inr part)"
proof (induction keys arbitrary: net out)
  case (Cons key keys)
  then show ?case by (cases net) (auto split: transport.splits)
qed simp

section \<open>Properties\<close>

text \<open>A script runs at most once per call, whatever is lost on the way and whatever hashes client and server
  remember: the data is as before or as one run leaves it, a reply is the reply of that run, and when all
  three messages get through the script has run and its reply is there, even when the server had been
  restarted and no longer knew the script.\<close>

theorem script_runs_at_most_once:
  assumes "eval_script t1 t2 t3 ss run db = ((reply, db'), ss')"
  shows "((reply, db') = (None, db) \<or> (reply, db') = (None, snd (run db)) \<or> (reply, db') = (Some (fst (run db)), snd (run db))) \<and>
    (t1 = Delivered \<and> t2 = Delivered \<and> t3 = Delivered \<longrightarrow> (reply, db') = (Some (fst (run db)), snd (run db)))"
  using assms eval_script_cases [OF assms]
  by (auto simp: eval_script_def Let_def over_def split: if_splits prod.splits)

theorem script_runs_at_most_once_witness:
  "eval_script Delivered Delivered Delivered \<lparr>hash_cached = True, known_to_server = False\<rparr>
     (\<lambda>db :: nat. (db, db + 1)) 0 = ((Some 0, 1), \<lparr>hash_cached = False, known_to_server = True\<rparr>)"
proof -
  obtain reply db' ss' where e: "eval_script Delivered Delivered Delivered
      \<lparr>hash_cached = True, known_to_server = False\<rparr> (\<lambda>db :: nat. (db, db + 1)) 0 = ((reply, db'), ss')"
    by (metis prod.exhaust)
  from script_runs_at_most_once [OF e] have "reply = Some 0" "db' = 1" by simp_all
  with e show ?thesis by (simp add: eval_script_def over_def)
qed

text \<open>The reservation is an atomic check-and-hold on the shared data: what is compared with the limit is the sum
  of everybody's holds and charges that are younger than the window; it is granted exactly when that sum and
  the new amount fit (with the epsilon); and then its member, which every later sum reads back as the amount
  rounded to ten decimals, is in the user's sorted set. A refusal leaves the pruning only, and no other
  user's set changes.\<close>

theorem redis_reserve_checks_and_holds:
  fixes db :: 'db
  assumes "redis_laws ops zs" "reads_fixed number" "plain_id rid" "0 \<le> a"
    and "reserve_lua ops number key now win a limit (member_of rid a) db = ((ok, tot), db')"
  shows "\<exists>pruned :: 'db. zs pruned key = live now win (zs db key) \<and>
      tot = sum_members number 0 (zrange ops pruned key) \<and> ok = (fadd tot a \<le> fadd limit (lit 1 9)) \<and>
      zs db' = (zs db)(key := if ok then (live now win (zs db key))(member_of rid a \<mapsto> now) else live now win (zs db key)) \<and>
      member_amount number (member_of rid a) = Some (round_dec 10 a)"
  using reserve_lua_effect [OF assms(1,5)] member_amount_member [OF assms(3,2,4)] by metis

theorem redis_reserve_checks_and_holds_witness:
  "\<exists>tot db'. reserve_lua list_redis read_fixed ''k'' 100 60 1 5 (member_of ''a'' 1) (\<lambda>_. []) = ((True, tot), db') \<and>
     map_of (db' ''k'') = [member_of ''a'' 1 \<mapsto> 100]"
proof -
  obtain ok tot db' where r: "reserve_lua list_redis read_fixed ''k'' 100 60 1 5 (member_of ''a'' 1) (\<lambda>_. []) =
      ((ok, tot), db')" by (metis prod.exhaust)
  have p: "plain_id ''a''" by (simp add: plain_id_def)
  from redis_reserve_checks_and_holds [OF list_redis_laws read_fixed_reads p _ r]
  obtain pruned :: list_db where pr: "map_of (pruned ''k'') = Map.empty" "ok = (fadd tot 1 \<le> fadd 5 (lit 1 9))"
    "tot = sum_members read_fixed 0 (zrange list_redis pruned ''k'')"
    and db': "map_of (db' ''k'') = (if ok then [member_of ''a'' 1 \<mapsto> 100] else Map.empty)"
    by (auto simp: live_def fun_eq_iff split: if_splits)
  from pr(1) have "pruned ''k'' = []" by simp
  then have "tot = 0" using pr(3) by (simp add: list_redis_def)
  moreover have "fadd 0 1 \<le> fadd 5 (lit 1 9)" by code_simp
  ultimately have ok using pr(2) by simp
  with r db' show ?thesis by auto
qed

text \<open>Closing a hold touches that hold only: as long as the user's set has one member per reservation,
  releasing takes the member of this reservation away, settling puts the charge in its place with the time of
  the settlement, all other members and users stay as they are, and again every reservation has one member.\<close>

theorem redis_close_replaces_own_hold:
  assumes "redis_laws ops zs" "plain_id rid" "one_per_id (zs db key)" "member_of rid a \<in> dom (zs db key)"
  shows "zs (snd (release_lua ops key rid db)) = (zs db)(key := (zs db key)(member_of rid a := None)) \<and>
    zs (snd (settle_lua ops key ukey now rid c win db)) =
      (zs db)(key := (zs db key)(member_of rid a := None, member_of rid c \<mapsto> now)) \<and>
    one_per_id (zs (snd (release_lua ops key rid db)) key) \<and>
    one_per_id (zs (snd (settle_lua ops key ukey now rid c win db)) key)"
  using close_lua_effect [OF assms] one_per_id_scripts(2) [OF assms(3)]
    one_per_id_scripts(4) [OF assms(3,2,4)] by simp

theorem redis_close_replaces_own_hold_witness:
  "let db = (\<lambda>k. if k = ''k'' then [(member_of ''a'' 1, 10), (member_of ''ab'' 2, 20)] else []) in
   map_of (snd (release_lua list_redis ''k'' ''a'' db) ''k'') = [member_of ''ab'' 2 \<mapsto> 20]"
proof -
  define db where "db = (\<lambda>k. if k = ''k'' then [(member_of ''a'' 1, 10 :: f64), (member_of ''ab'' 2, 20)] else [])"
  have p: "plain_id ''a''" "plain_id ''ab''" by (simp_all add: plain_id_def)
  have ne: "member_of ''a'' 1 \<noteq> member_of ''ab'' 2" by (simp add: member_of_def)
  have "one_per_id (map_of (db ''k''))"
    using p by (auto simp: one_per_id_def db_def inj_on_def split: if_splits)
  moreover have "member_of ''a'' 1 \<in> dom (map_of (db ''k''))" by (simp add: db_def)
  ultimately have "(\<lambda>k. map_of (snd (release_lua list_redis ''k'' ''a'' db) k)) =
      (\<lambda>k. map_of (db k))(''k'' := (map_of (db ''k''))(member_of ''a'' 1 := None))"
    using redis_close_replaces_own_hold [OF list_redis_laws p(1), of db "''k''" 1] by blast
  then have "map_of (snd (release_lua list_redis ''k'' ''a'' db) ''k'') =
      (map_of (db ''k''))(member_of ''a'' 1 := None)" by (simp add: fun_eq_iff)
  also have "\<dots> = [member_of ''ab'' 2 \<mapsto> 20]" using ne by (auto simp: db_def)
  finally show ?thesis by (simp add: db_def)
qed

text \<open>C16. A reservation is charged at most once however often it is settled or released and whatever is lost on the
  network: once closed, neither call reaches the server, and every call closes it, also one that raises.\<close>

theorem redis_charges_at_most_once:
  assumes "redis_settle ops net R ss now rv c m i out db = (res, rv', R', ss', db')"
    and "redis_release ops net R ss rv db = (res2, rv2, ss2, db2)"
  shows "redis_settle ops net' R' ss' now' rv' c' m' i' out' db' = (Inr (), rv', R', ss', db') \<and>
    redis_release ops net' R' ss' rv' db' = (Inr (), rv', ss', db') \<and>
    redis_settle ops net' R ss2 now' rv2 c' m' i' out' db2 = (Inr (), rv2, R, ss2, db2) \<and>
    (db' = db \<or> db' = snd (settle_lua ops (spend_key R (res_user rv)) (usage_key R (res_user rv)) now (res_id rv) c
       (redis_window R) db))"
proof -
  have closed: "res_closed rv'" "res_closed rv2"
    using assms by (auto simp: redis_settle_def redis_release_def Let_def split: if_splits prod.splits)
  have "db' = db \<or> db' = snd (settle_lua ops (spend_key R (res_user rv)) (usage_key R (res_user rv)) now (res_id rv) c
       (redis_window R) db)"
    using assms(1) eval_script_cases
    by (fastforce simp: redis_settle_def Let_def split: if_splits prod.splits)
  then show ?thesis using closed by (simp add: redis_settle_def redis_release_def)
qed

theorem redis_charges_at_most_once_witness:
  "\<exists>rv' R' ss' db'. redis_settle list_redis (Delivered, Delivered, Delivered)
       \<lparr>redis_window = 60, namespace = ''llm'', fail_closed = True, max_records = 10, local_records = []\<rparr>
       \<lparr>hash_cached = False, known_to_server = False\<rparr> 100
       \<lparr>res_user = ''u'', res_amount = 1, res_created_at = 90, res_id = ''a'', res_closed = False\<rparr> 1 ''m'' 3 4
       (\<lambda>_. []) = (Inr (), rv', R', ss', db') \<and>
     redis_settle list_redis (Delivered, Delivered, Delivered) R' ss' 200 rv' 1 ''m'' 3 4 db' = (Inr (), rv', R', ss', db')"
proof -
  let ?R = "\<lparr>redis_window = 60, namespace = ''llm'', fail_closed = True, max_records = 10, local_records = []\<rparr>"
  let ?ss = "\<lparr>hash_cached = False, known_to_server = False\<rparr>"
  let ?rv = "\<lparr>res_user = ''u'', res_amount = 1, res_created_at = 90, res_id = ''a'', res_closed = False\<rparr>"
  let ?net = "(Delivered, Delivered, Delivered)"
  obtain res rv' R' ss' db' where r: "redis_settle list_redis ?net ?R ?ss 100 ?rv 1 ''m'' 3 4 (\<lambda>_. []) =
      (res, rv', R', ss', db')" by (metis prod.exhaust)
  obtain res2 rv2 ss2 db2 where r2: "redis_release list_redis ?net ?R ?ss ?rv (\<lambda>_. []) = (res2, rv2, ss2, db2)"
    by (metis prod.exhaust)
  have "res = Inr ()" using r by (auto simp: redis_settle_def eval_script_def over_def Let_def split: prod.splits)
  with redis_charges_at_most_once [OF r r2] r show ?thesis by blast
qed

text \<open>C17. An outage follows the policy, whatever message of whatever call is lost, also while a script is being
  loaded. Fail-closed, every method raises \<open>LedgerUnavailableError\<close>; fail-open, \<open>reserve\<close> grants, \<open>settle\<close> and
  \<open>release\<close> return, \<open>settle\<close> with its record kept, \<open>spent\<close> is 0 and \<open>summary\<close> partial. Either way \<open>settle\<close> and
  \<open>release\<close> close the reservation. And a lost reply is not a lost call: if the script ran, its work is in the
  shared data, so a hold is there although fail-closed the caller was refused and has no reservation to release.\<close>

theorem redis_outage_policy:
  assumes "redis_laws ops zs" "\<not> answered net ss"
  shows "(\<exists>ss'. redis_reserve ops number reported net R ss now rid u a limit db =
      (unavailable R \<lparr>res_user = u, res_amount = a, res_created_at = now, res_id = rid, res_closed = False\<rparr>, ss',
       if executed net ss
       then snd (reserve_lua ops number (spend_key R u) now (redis_window R) a limit (member_of rid a) db) else db)) \<and>
    (fst (fst (reserve_lua ops number (spend_key R u) now (redis_window R) a limit (member_of rid a) db)) \<longrightarrow>
      zs (snd (reserve_lua ops number (spend_key R u) now (redis_window R) a limit (member_of rid a) db)) (spend_key R u)
        (member_of rid a) = Some now) \<and>
    (\<not> res_closed rv \<longrightarrow> (\<exists>ss'. redis_settle ops net R ss now rv c mname inp out db =
      (unavailable R (), rv\<lparr>res_closed := True\<rparr>,
       if fail_closed R then R else R\<lparr>local_records := keep_last (max_records R) (local_records R @
         [\<lparr>rec_user = res_user rv, rec_model = mname, rec_input_tokens = inp, rec_output_tokens = out,
           rec_cost = c, rec_at = now\<rparr>])\<rparr>, ss',
       if executed net ss
       then snd (settle_lua ops (spend_key R (res_user rv)) (usage_key R (res_user rv)) now (res_id rv) c (redis_window R) db)
       else db))) \<and>
    (\<not> res_closed rv \<longrightarrow> (\<exists>ss'. redis_release ops net R ss rv db =
      (unavailable R (), rv\<lparr>res_closed := True\<rparr>, ss',
       if executed net ss then snd (release_lua ops (spend_key R (res_user rv)) (res_id rv) db) else db))) \<and>
    (t1 \<noteq> Delivered \<or> t2 \<noteq> Delivered \<longrightarrow> redis_spent ops number t1 t2 R now u db =
      (unavailable R 0, if t1 = Unsent then db else zremrangebyscore ops db (spend_key R u) (fsub now (redis_window R)))) \<and>
    (take (Suc (length (scan_keys ops db (namespace R @ '':spend:*'')))) ts \<noteq>
        replicate (Suc (length (scan_keys ops db (namespace R @ '':spend:*'')))) Delivered \<longrightarrow>
      (if fail_closed R then redis_summary ops number R ts db = Inl LedgerUnavailableError
       else \<exists>part. redis_summary ops number R ts db = Inr part))"
proof (intro conjI impI)
  obtain n1 n2 n3 where net: "net = (n1, n2, n3)" by (metis prod_cases3)
  have ev: "\<exists>ss'. eval_script n1 n2 n3 ss run db = ((None, if executed net ss then snd (run db) else db), ss')" for run :: "_ \<Rightarrow> 'r \<times> _"
    using eval_script_outcome [of n1 n2 n3 ss run db] assms(2) by (simp add: net)
  show "\<exists>ss'. redis_reserve ops number reported net R ss now rid u a limit db =
      (unavailable R \<lparr>res_user = u, res_amount = a, res_created_at = now, res_id = rid, res_closed = False\<rparr>, ss',
       if executed net ss
       then snd (reserve_lua ops number (spend_key R u) now (redis_window R) a limit (member_of rid a) db) else db)"
    using ev [of "reserve_lua ops number (spend_key R u) now (redis_window R) a limit (member_of rid a)"]
    by (auto simp: redis_reserve_def net reserve_reply_def unavailable_def)
  show "\<exists>ss'. redis_settle ops net R ss now rv c mname inp out db =
      (unavailable R (), rv\<lparr>res_closed := True\<rparr>,
       if fail_closed R then R else R\<lparr>local_records := keep_last (max_records R) (local_records R @
         [\<lparr>rec_user = res_user rv, rec_model = mname, rec_input_tokens = inp, rec_output_tokens = out,
           rec_cost = c, rec_at = now\<rparr>])\<rparr>, ss',
       if executed net ss
       then snd (settle_lua ops (spend_key R (res_user rv)) (usage_key R (res_user rv)) now (res_id rv) c (redis_window R) db)
       else db)" if "\<not> res_closed rv"
    using that ev [of "settle_lua ops (spend_key R (res_user rv)) (usage_key R (res_user rv)) now (res_id rv) c (redis_window R)"]
    by (auto simp: redis_settle_def net unavailable_def Let_def)
  show "\<exists>ss'. redis_release ops net R ss rv db =
      (unavailable R (), rv\<lparr>res_closed := True\<rparr>, ss',
       if executed net ss then snd (release_lua ops (spend_key R (res_user rv)) (res_id rv) db) else db)" if "\<not> res_closed rv"
    using that ev [of "release_lua ops (spend_key R (res_user rv)) (res_id rv)"]
    by (auto simp: redis_release_def net unavailable_def)
  show "if fail_closed R then redis_summary ops number R ts db = Inl LedgerUnavailableError
       else \<exists>part. redis_summary ops number R ts db = Inr part"
    if "take (Suc (length (scan_keys ops db (namespace R @ '':spend:*'')))) ts \<noteq>
        replicate (Suc (length (scan_keys ops db (namespace R @ '':spend:*'')))) Delivered"
    unfolding redis_summary_def by (rule summary_loop_fails [OF that])
  show "redis_spent ops number t1 t2 R now u db =
      (unavailable R 0, if t1 = Unsent then db else zremrangebyscore ops db (spend_key R u) (fsub now (redis_window R)))"
    if "t1 \<noteq> Delivered \<or> t2 \<noteq> Delivered"
    using that by (cases t1; cases t2) (simp_all add: redis_spent_def over_def unavailable_def Let_def)
  assume "fst (fst (reserve_lua ops number (spend_key R u) now (redis_window R) a limit (member_of rid a) db))"
  moreover obtain tot ok db1 where r: "reserve_lua ops number (spend_key R u) now (redis_window R) a limit (member_of rid a) db =
      ((ok, tot), db1)" by (metis prod.exhaust)
  ultimately show "zs (snd (reserve_lua ops number (spend_key R u) now (redis_window R) a limit (member_of rid a) db)) (spend_key R u)
        (member_of rid a) = Some now"
    using reserve_lua_effect [OF assms(1) r] by (metis fst_conv fun_upd_same snd_conv)
qed

text \<open>Fail-closed: the reply of a reservation is lost while its script is being loaded by the call itself.\<close>

theorem redis_outage_policy_witness:
  "\<exists>ss' db'. redis_reserve list_redis read_fixed id (Delivered, ReplyLost, Delivered)
       \<lparr>redis_window = 60, namespace = ''llm'', fail_closed = True, max_records = 10, local_records = []\<rparr>
       \<lparr>hash_cached = False, known_to_server = False\<rparr> 100 ''a'' ''u'' 1 5 (\<lambda>_. []) = (Inl LedgerUnavailableError, ss', db') \<and>
     map_of (db' ''llm:spend:u'') (member_of ''a'' 1) = Some 100"
proof -
  let ?R = "\<lparr>redis_window = 60, namespace = ''llm'', fail_closed = True, max_records = 10, local_records = []\<rparr>"
  let ?ss = "\<lparr>hash_cached = False, known_to_server = False\<rparr>" and ?net = "(Delivered, ReplyLost, Delivered)"
  have key: "spend_key ?R ''u'' = ''llm:spend:u''" by (simp add: spend_key_def)
  have "\<not> fadd 5 (lit 1 9) < fadd 0 1" by code_simp
  then have g: "fst (fst (reserve_lua list_redis read_fixed ''llm:spend:u'' 100 60 1 5 (member_of ''a'' 1) (\<lambda>_. [])))"
    by (simp add: reserve_lua_def list_redis_def Let_def)
  have "\<not> answered ?net ?ss" by (simp add: answered_def)
  note policy = redis_outage_policy [OF list_redis_laws this, of read_fixed id ?R 100 "''a''" "''u''" 1 5 "\<lambda>_. []"]
  have x: "executed ?net ?ss" by (simp add: executed_def)
  let ?db = "snd (reserve_lua list_redis read_fixed ''llm:spend:u'' 100 60 1 5 (member_of ''a'' 1) (\<lambda>_. []))"
  from policy [THEN conjunct1] obtain ss' where
    "redis_reserve list_redis read_fixed id ?net ?R ?ss 100 ''a'' ''u'' 1 5 (\<lambda>_. []) = (Inl LedgerUnavailableError, ss', ?db)"
    unfolding key by (auto simp: unavailable_def x)
  moreover from policy [THEN conjunct2, THEN conjunct1] g have "map_of (?db ''llm:spend:u'') (member_of ''a'' 1) = Some 100" unfolding key by simp
  ultimately show ?thesis by blast
qed

end
