(* ===== verification/RedisRateLimit.thy ===== *)
theory RedisRateLimit
  imports RateLimit RedisLedger
begin

text \<open>
  The Redis limiter of \<open>app/ratelimit.py\<close>: one token bucket per user for the whole fleet. The script is a
  function of the Redis data; its commands on hashes are the fields of \<open>hash_ops\<close> with \<open>hash_laws\<close>, and the
  call over the network is that of \<open>RedisLedger.thy\<close>. Lua writes a number with \<open>shown\<close> (\<open>tostring\<close>, 14
  significant digits) and what is read back is its \<open>brief\<close> value (\<open>writes_brief\<close>).
\<close>

record 'db hash_ops =
  hget :: "'db \<Rightarrow> string \<Rightarrow> string \<Rightarrow> string option"
  hset :: "'db \<Rightarrow> string \<Rightarrow> (string \<times> string) list \<Rightarrow> 'db"
  hexpire :: "'db \<Rightarrow> string \<Rightarrow> int \<Rightarrow> 'db"

definition hash_laws :: "'db hash_ops \<Rightarrow> bool" where
  "hash_laws ops \<longleftrightarrow>
     (\<forall>db k kvs k' f. hget ops (hset ops db k kvs) k' f =
        (if k' = k then (case map_of kvs f of None \<Rightarrow> hget ops db k f | Some v \<Rightarrow> Some v) else hget ops db k' f)) \<and>
     (\<forall>db k n k' f. hget ops (hexpire ops db k n) k' f = hget ops db k' f)"

definition writes_brief :: "(string \<Rightarrow> f64 option) \<Rightarrow> (f64 \<Rightarrow> string) \<Rightarrow> (f64 \<Rightarrow> f64) \<Rightarrow> bool" where
  "writes_brief number shown brief \<longleftrightarrow> (\<forall>x. number (shown x) = Some (brief x))"

section \<open>The script and the client\<close>

text \<open>\<open>tonumber\<close> of a field that may be absent.\<close>

definition field_number :: "(string \<Rightarrow> f64 option) \<Rightarrow> string option \<Rightarrow> f64 option" where
  "field_number number v = (case v of None \<Rightarrow> None | Some x \<Rightarrow> number x)"

definition consume_lua ::
  "'db hash_ops \<Rightarrow> (string \<Rightarrow> f64 option) \<Rightarrow> (f64 \<Rightarrow> string) \<Rightarrow> string \<Rightarrow> f64 \<Rightarrow> f64 \<Rightarrow> f64 \<Rightarrow> f64 \<Rightarrow> int \<Rightarrow> 'db \<Rightarrow>
   (bool \<times> string) \<times> 'db"
where
  "consume_lua ops number shown key now cap rate c ttl db =
     (let tokens = (case field_number number (hget ops db key ''tokens'') of None \<Rightarrow> cap | Some x \<Rightarrow> x);
          ts = (case field_number number (hget ops db key ''ts'') of None \<Rightarrow> now | Some x \<Rightarrow> x);
          elapsed = (if fsub now ts < 0 then 0 else fsub now ts);
          tokens = min cap (fadd tokens (fmul elapsed rate));
          allowed = (c \<le> tokens);
          tokens = (if allowed then fsub tokens c else tokens);
          db = hset ops db key [(''tokens'', shown tokens), (''ts'', shown now)];
          db = hexpire ops db key ttl
      in ((allowed, shown tokens), db))"

record redis_limiter =
  rl_capacity :: f64
  rl_refill :: f64
  rl_namespace :: string

definition rl_key :: "redis_limiter \<Rightarrow> string \<Rightarrow> string" where
  "rl_key R u = rl_namespace R @ '':'' @ u"

definition rl_ttl :: "redis_limiter \<Rightarrow> int" where
  "rl_ttl R = py_int (max 60 (fmul (fdiv (rl_capacity R) (max (rl_refill R) (lit 1 3))) 2))"

text \<open>What \<open>check\<close> makes of the outcome of the call: no reply lets the request through.\<close>

definition rl_reply ::
  "(string \<Rightarrow> f64 option) \<Rightarrow> redis_limiter \<Rightarrow> string \<Rightarrow> f64 \<Rightarrow> (bool \<times> string) option \<Rightarrow> (exc, unit) result"
where
  "rl_reply number R u c reply =
     (case reply of
        None \<Rightarrow> Inr ()
      | Some (True, _) \<Rightarrow> Inr ()
      | Some (False, remaining) \<Rightarrow>
          (case number remaining of
             None \<Rightarrow> Inl (ValueError (BadNumber remaining))
           | Some left \<Rightarrow> Inl (RateLimitExceededError u
               (if 0 < rl_refill R then Finite (max 0 (fdiv (fsub c left) (rl_refill R))) else Infinite))))"

definition redis_check ::
  "'db hash_ops \<Rightarrow> (string \<Rightarrow> f64 option) \<Rightarrow> (f64 \<Rightarrow> string) \<Rightarrow> transport \<times> transport \<times> transport \<Rightarrow> redis_limiter \<Rightarrow>
   script_state \<Rightarrow> f64 \<Rightarrow> string \<Rightarrow> f64 \<Rightarrow> 'db \<Rightarrow> (exc, unit) result \<times> script_state \<times> 'db"
where
  "redis_check ops number shown net R ss now u c db =
     (case net of (t1, t2, t3) \<Rightarrow>
      case eval_script t1 t2 t3 ss
          (consume_lua ops number shown (rl_key R u) now (rl_capacity R) (rl_refill R) c (rl_ttl R)) db of
        ((reply, db'), ss') \<Rightarrow> (rl_reply number R u c reply, ss', db'))"

section \<open>Refinement of the in-process limiter\<close>

text \<open>The bucket of a user as the in-process limiter keeps it.\<close>

definition bucket_in :: "'db hash_ops \<Rightarrow> (string \<Rightarrow> f64 option) \<Rightarrow> 'db \<Rightarrow> string \<Rightarrow> (f64 \<times> f64) option" where
  "bucket_in ops number db key =
     (case field_number number (hget ops db key ''tokens'') of
        None \<Rightarrow> None
      | Some t \<Rightarrow> map_option (\<lambda>ts. (t, ts)) (field_number number (hget ops db key ''ts'')))"

definition whole_bucket :: "'db hash_ops \<Rightarrow> (string \<Rightarrow> f64 option) \<Rightarrow> 'db \<Rightarrow> string \<Rightarrow> bool" where
  "whole_bucket ops number db key \<longleftrightarrow>
     (field_number number (hget ops db key ''tokens'') = None) = (field_number number (hget ops db key ''ts'') = None)"

lemma hash_lawsD:
  assumes "hash_laws ops"
  shows "hget ops (hset ops db k kvs) k' f =
      (if k' = k then (case map_of kvs f of None \<Rightarrow> hget ops db k f | Some v \<Rightarrow> Some v) else hget ops db k' f)"
    and "hget ops (hexpire ops db k n) k' f = hget ops db k' f"
  using assms by (simp_all only: hash_laws_def)

lemma consume_lua_steps:
  fixes db :: 'db and now :: f64
  assumes "whole_bucket ops number db key" "bucket_in ops number db key = buckets l u"
  defines "t \<equiv> current l u now"
  shows "consume_lua ops number shown key now (capacity l) (refill_per_second l) c ttl db =
    ((\<not> t < c, shown (if t < c then t else fsub t c)),
     hexpire ops (hset ops db key [(''tokens'', shown (if t < c then t else fsub t c)), (''ts'', shown now)]) key ttl)"
proof -
  let ?f = "\<lambda>x. field_number number (hget ops db key x)"
  have b: "(case buckets l u of None \<Rightarrow> (capacity l, now) | Some b \<Rightarrow> b) =
      (case ?f ''tokens'' of None \<Rightarrow> capacity l | Some x \<Rightarrow> x, case ?f ''ts'' of None \<Rightarrow> now | Some x \<Rightarrow> x)"
    using assms(1) assms(2) [symmetric] by (auto simp: whole_bucket_def bucket_in_def split: option.splits)
  have e: "(if fsub now x < 0 then 0 else fsub now x) = max 0 (fsub now x)" for x
    by (simp add: max_def)
  have "t = min (capacity l) (fadd (case ?f ''tokens'' of None \<Rightarrow> capacity l | Some x \<Rightarrow> x)
      (fmul (max 0 (fsub now (case ?f ''ts'' of None \<Rightarrow> now | Some x \<Rightarrow> x))) (refill_per_second l)))"
    unfolding t_def current_def b by (simp add: Let_def)
  note t = this [symmetric]
  have c: "(if c \<le> t then fsub t c else t) = (if t < c then t else fsub t c)" "(c \<le> t) = (\<not> t < c)"
    by auto
  show ?thesis unfolding consume_lua_def Let_def e t c by simp
qed

lemma bucket_in_written:
  assumes "hash_laws ops" "writes_brief number shown brief"
  shows "bucket_in ops number (hexpire ops (hset ops db key [(''tokens'', shown x), (''ts'', shown y)]) key ttl) key =
      Some (brief x, brief y)"
    and "k \<noteq> key \<Longrightarrow> hget ops (hexpire ops (hset ops db key kvs) key ttl) k f = hget ops db k f"
  using assms(2) by (simp_all add: hash_lawsD [OF assms(1)] bucket_in_def field_number_def writes_brief_def)

section \<open>A Redis of functions\<close>

type_synonym fun_db = "string \<times> string \<Rightarrow> string option"

definition fun_redis :: "fun_db hash_ops" where
  "fun_redis = \<lparr>hget = (\<lambda>db k f. db (k, f)),
     hset = (\<lambda>db k kvs (k', f). if k' = k then (case map_of kvs f of None \<Rightarrow> db (k', f) | Some v \<Rightarrow> Some v) else db (k', f)),
     hexpire = (\<lambda>db k n. db)\<rparr>"

lemma fun_redis_laws: "hash_laws fun_redis"
  by (auto simp: hash_laws_def fun_redis_def cong: option.case_cong)

section \<open>Properties\<close>

text \<open>C22. The fleet-wide limiter is the in-process one on shared data: when the call gets through, it grants exactly
  when the in-process limiter would grant on the same bucket, and it leaves the bucket that one would leave,
  with both numbers as Lua writes them; no other key changes. And it fails open: with no reply the request
  goes through.\<close>

theorem redis_limiter_refines_in_process:
  fixes db :: 'db
  assumes "hash_laws ops" "writes_brief number shown brief"
    and "whole_bucket ops number db (rl_key R u)" "bucket_in ops number db (rl_key R u) = buckets l u"
    and "capacity l = rl_capacity R" "refill_per_second l = rl_refill R"
    and "RateLimit.check now l u c = (r, l')"
    and "redis_check ops number shown (Delivered, t, Delivered) R ss now u c db = (res, ss', db')"
  shows "if t = Delivered
    then ((res = Inr ()) = (r = Inr ())) \<and>
      bucket_in ops number db' (rl_key R u) = map_option (map_prod brief brief) (buckets l' u) \<and>
      (\<forall>k f. k \<noteq> rl_key R u \<longrightarrow> hget ops db' k f = hget ops db k f)
    else res = Inr ()"
proof (cases "t = Delivered")
  case True
  let ?run = "consume_lua ops number shown (rl_key R u) now (capacity l) (refill_per_second l) c (rl_ttl R)"
  let ?left = "current l u now"
  let ?x = "if ?left < c then ?left else fsub ?left c"
  have run: "?run db = ((\<not> ?left < c, shown ?x),
      hexpire ops (hset ops db (rl_key R u) [(''tokens'', shown ?x), (''ts'', shown now)]) (rl_key R u) (rl_ttl R))"
    by (rule consume_lua_steps [OF assms(3,4)])
  have "eval_script Delivered Delivered Delivered ss ?run db =
      ((Some (fst (?run db)), snd (?run db)), ss')" and "res = rl_reply number R u c (Some (fst (?run db)))"
    and db': "db' = snd (?run db)"
    using assms(8) True by (auto simp: redis_check_def eval_script_def over_def Let_def assms(5,6)
        split: prod.splits if_splits)
  then have "(res = Inr ()) = (\<not> ?left < c)"
    unfolding run by (auto simp: rl_reply_def split: option.splits)
  moreover have "(r = Inr ()) = (\<not> ?left < c)" "buckets l' u = Some (?x, now)"
    using assms(7) by (auto simp: RateLimit.check_def Let_def split: if_splits)
  moreover have "bucket_in ops number db' (rl_key R u) = Some (brief ?x, brief now)"
    unfolding db' run snd_conv by (rule bucket_in_written(1) [OF assms(1,2)])
  moreover have "hget ops db' k f = hget ops db k f" if "k \<noteq> rl_key R u" for k f
    unfolding db' run snd_conv by (rule bucket_in_written(2) [OF assms(1,2) that])
  ultimately show ?thesis using True by simp
next
  case False
  then have "over t run db = (None, snd (over t run db))" for run :: "'db \<Rightarrow> (bool \<times> string) \<times> 'db"
    by (cases t) (simp_all add: over_def)
  then show ?thesis
    using False assms(8)
    by (auto simp: redis_check_def eval_script_def rl_reply_def over_def Let_def
        split: prod.splits if_splits transport.splits)
qed

theorem redis_limiter_refines_in_process_witness:
  "\<exists>ss' db'. redis_check fun_redis read_fixed fixed10 (Delivered, Delivered, Delivered)
       \<lparr>rl_capacity = 20, rl_refill = 5, rl_namespace = ''llm:rl''\<rparr> \<lparr>hash_cached = False, known_to_server = False\<rparr>
       100 ''u'' 1 (\<lambda>_. None) = (Inr (), ss', db') \<and>
     bucket_in fun_redis read_fixed db' ''llm:rl:u'' \<noteq> None"
proof -
  let ?R = "\<lparr>rl_capacity = 20, rl_refill = 5, rl_namespace = ''llm:rl''\<rparr>"
  let ?l = "new_limiter 20 5"
  have key: "rl_key ?R ''u'' = ''llm:rl:u''" by (simp add: rl_key_def)
  have w: "writes_brief read_fixed fixed10 (\<lambda>x. the (read_fixed (fixed10 x)))"
    by (simp add: writes_brief_def read_fixed_def split: prod.splits)
  have b: "whole_bucket fun_redis read_fixed (\<lambda>_. None) (rl_key ?R ''u'')"
    "bucket_in fun_redis read_fixed (\<lambda>_. None) (rl_key ?R ''u'') = buckets ?l ''u''"
    by (simp_all add: whole_bucket_def bucket_in_def fun_redis_def field_number_def new_limiter_def)
  have "\<not> current ?l ''u'' 100 < 1"
    by (simp add: current_def new_limiter_def fsub_def fmul_def fadd_def) (code_simp)
  then obtain l' where c: "RateLimit.check 100 ?l ''u'' 1 = (Inr (), l')" "buckets l' ''u'' \<noteq> None"
    by (simp add: RateLimit.check_def Let_def)
  obtain res ss' db' where r: "redis_check fun_redis read_fixed fixed10 (Delivered, Delivered, Delivered) ?R
      \<lparr>hash_cached = False, known_to_server = False\<rparr> 100 ''u'' 1 (\<lambda>_. None) = (res, ss', db')"
    by (metis prod.exhaust)
  have "(res = Inr ()) \<and> bucket_in fun_redis read_fixed db' (rl_key ?R ''u'') \<noteq> None"
    using redis_limiter_refines_in_process [OF fun_redis_laws w b _ _ c(1) r] c(2)
    by (simp add: new_limiter_def)
  with r show ?thesis by (simp add: key)
qed

end
