(* ===== verification/RedisCache.thy ===== *)
theory RedisCache
  imports Json RedisLedger
begin

text \<open>
  The Redis cache of \<open>app/cache.py\<close>. Redis' strings (\<open>GET\<close>, \<open>SET\<close> with \<open>EX\<close>) are \<open>kv_ops\<close>; the text of a
  document is written by \<open>dumps\<close> and read by \<open>loads\<close> (\<open>None\<close>: \<open>JSONDecodeError\<close>).
\<close>

record 'db kv_ops =
  kv_get :: "'db \<Rightarrow> string \<Rightarrow> string option"
  kv_set :: "'db \<Rightarrow> string \<Rightarrow> string \<Rightarrow> int \<Rightarrow> 'db"

text \<open>A key just set is there, and no other key changes.\<close>

definition kv_laws :: "'db kv_ops \<Rightarrow> bool" where
  "kv_laws ops \<longleftrightarrow> (\<forall>db k v n k'. kv_get ops (kv_set ops db k v n) k' = (if k' = k then Some v else kv_get ops db k'))"

text \<open>What \<open>CacheEntry(**data)\<close> accepts: the four fields, with values of any type.\<close>

record json_entry =
  je_text :: json
  je_input_tokens :: json
  je_output_tokens :: json
  je_model :: json

definition entry_of_json :: "json \<Rightarrow> json_entry option" where
  "entry_of_json v =
     (case v of
        JObj kvs \<Rightarrow>
          (if fst ` set kvs = {''text'', ''input_tokens'', ''output_tokens'', ''model''}
           then Some \<lparr>je_text = the (map_of kvs ''text''), je_input_tokens = the (map_of kvs ''input_tokens''),
             je_output_tokens = the (map_of kvs ''output_tokens''), je_model = the (map_of kvs ''model'')\<rparr>
           else None)
      | _ \<Rightarrow> None)"

text \<open>\<open>asdict(entry)\<close>\<close>

definition json_of_entry :: "cache_entry \<Rightarrow> json" where
  "json_of_entry c = JObj [(''text'', JStr (entry_text c)), (''input_tokens'', JInt (Cache.input_tokens c)),
     (''output_tokens'', JInt (Cache.output_tokens c)), (''model'', JStr (Cache.model c))]"

record redis_cache =
  rc_namespace :: string
  rc_hits :: int
  rc_misses :: int

definition rc_key :: "redis_cache \<Rightarrow> string \<Rightarrow> string" where
  "rc_key C key = rc_namespace C @ '':'' @ key"

definition rc_miss :: "redis_cache \<Rightarrow> json_entry option \<times> redis_cache" where
  "rc_miss C = (None, C\<lparr>rc_misses := rc_misses C + 1\<rparr>)"

definition redis_cache_get ::
  "'db kv_ops \<Rightarrow> (string \<Rightarrow> json option) \<Rightarrow> transport \<Rightarrow> redis_cache \<Rightarrow> 'db \<Rightarrow> string \<Rightarrow>
   json_entry option \<times> redis_cache"
where
  "redis_cache_get ops loads tr C db key =
     (case fst (over tr (\<lambda>db. (kv_get ops db (rc_key C key), db)) db) of
        None \<Rightarrow> rc_miss C
      | Some None \<Rightarrow> rc_miss C
      | Some (Some raw) \<Rightarrow>
          if raw = [] then rc_miss C
          else (case loads raw of
              None \<Rightarrow> rc_miss C
            | Some v \<Rightarrow> (case entry_of_json v of
                None \<Rightarrow> rc_miss C
              | Some en \<Rightarrow> (Some en, C\<lparr>rc_hits := rc_hits C + 1\<rparr>))))"

definition redis_cache_set ::
  "'db kv_ops \<Rightarrow> (json \<Rightarrow> string) \<Rightarrow> transport \<Rightarrow> redis_cache \<Rightarrow> 'db \<Rightarrow> string \<Rightarrow> cache_entry \<Rightarrow> f64 \<Rightarrow> 'db"
where
  "redis_cache_set ops dumps tr C db key c ttl_s =
     (if ttl_s \<le> 0 then db
      else snd (over tr (\<lambda>db. ((), kv_set ops db (rc_key C key) (dumps (json_of_entry c)) (max 1 (py_int ttl_s)))) db))"

section \<open>Facts\<close>

lemma entry_of_json_of_entry:
  "entry_of_json (json_of_entry c) = Some \<lparr>je_text = JStr (entry_text c), je_input_tokens = JInt (Cache.input_tokens c),
     je_output_tokens = JInt (Cache.output_tokens c), je_model = JStr (Cache.model c)\<rparr>"
  by (simp add: entry_of_json_def json_of_entry_def insert_commute)

definition fun_kv :: "(string \<Rightarrow> string option) kv_ops" where
  "fun_kv = \<lparr>kv_get = (\<lambda>db k. db k), kv_set = (\<lambda>db k v n. db(k \<mapsto> v))\<rparr>"

lemma fun_kv_laws: "kv_laws fun_kv"
  by (simp add: kv_laws_def fun_kv_def)

section \<open>Properties\<close>

text \<open>C25. What one replica stores every replica reads back: with a \<open>loads\<close> that reads what \<open>dumps\<close> wrote (which is
  never the empty text), an entry set with a positive time to live is the next hit under its key, for any
  client of the same namespace, field by field; the other keys answer as before; and a lifetime that is not
  positive stores nothing.\<close>

theorem redis_cache_round_trip:
  assumes "kv_laws ops" "loads (dumps (json_of_entry c)) = Some (json_of_entry c)" "dumps (json_of_entry c) \<noteq> []"
    and "rc_namespace C' = rc_namespace C"
  shows "fst (redis_cache_get ops loads Delivered C' (redis_cache_set ops dumps Delivered C db key c ttl) k) =
    (if 0 < ttl \<and> k = key
     then Some \<lparr>je_text = JStr (entry_text c), je_input_tokens = JInt (Cache.input_tokens c),
       je_output_tokens = JInt (Cache.output_tokens c), je_model = JStr (Cache.model c)\<rparr>
     else fst (redis_cache_get ops loads Delivered C' db k))"
proof (cases "0 < ttl")
  case True
  have k: "kv_get ops (redis_cache_set ops dumps Delivered C db key c ttl) (rc_key C' k) =
      (if k = key then Some (dumps (json_of_entry c)) else kv_get ops db (rc_key C' k))"
    using assms(1,4) True by (auto simp: redis_cache_set_def over_def kv_laws_def rc_key_def)
  show ?thesis
    unfolding redis_cache_get_def over_def transport.case prod.case fst_conv k
    using assms(2,3) True by (simp add: entry_of_json_of_entry)
next
  case False
  then show ?thesis by (simp add: redis_cache_set_def)
qed

theorem redis_cache_round_trip_witness:
  "fst (redis_cache_get fun_kv (\<lambda>_. Some (json_of_entry \<lparr>entry_text = ''hi'', Cache.cache_entry.input_tokens = 1,
       Cache.cache_entry.output_tokens = 2, Cache.cache_entry.model = ''small''\<rparr>)) Delivered
     \<lparr>rc_namespace = ''n'', rc_hits = 0, rc_misses = 0\<rparr>
     (redis_cache_set fun_kv (\<lambda>_. ''doc'') Delivered \<lparr>rc_namespace = ''n'', rc_hits = 5, rc_misses = 0\<rparr> Map.empty ''k''
       \<lparr>entry_text = ''hi'', Cache.cache_entry.input_tokens = 1, Cache.cache_entry.output_tokens = 2,
        Cache.cache_entry.model = ''small''\<rparr> 60) ''k'') =
   Some \<lparr>je_text = JStr ''hi'', je_input_tokens = JInt 1, je_output_tokens = JInt 2, je_model = JStr ''small''\<rparr>"
  by (subst redis_cache_round_trip [OF fun_kv_laws]) simp_all

text \<open>The cache never fails a request: whatever the network does and whatever is stored under the key, reading
  gives an entry or a miss and counts exactly one of the two. A document is served when it is an object with
  exactly the four fields, and only then; but the types of their values are not looked at, so a drifted
  entry (a text that is \<open>null\<close>, say) is served as a hit.\<close>

theorem redis_cache_read_is_total:
  "(case redis_cache_get ops loads tr C db key of
      (Some en, C') \<Rightarrow> C' = C\<lparr>rc_hits := rc_hits C + 1\<rparr> \<and> tr = Delivered \<and>
        (\<exists>raw kvs. kv_get ops db (rc_key C key) = Some raw \<and> loads raw = Some (JObj kvs) \<and>
           fst ` set kvs = {''text'', ''input_tokens'', ''output_tokens'', ''model''} \<and> map_of kvs ''text'' = Some (je_text en))
    | (None, C') \<Rightarrow> C' = C\<lparr>rc_misses := rc_misses C + 1\<rparr>) \<and>
   fst (redis_cache_get fun_kv (\<lambda>_. Some (JObj [(''text'', JNull), (''input_tokens'', JInt 1),
       (''output_tokens'', JInt 2), (''model'', JStr ''small'')])) Delivered C [rc_key C key \<mapsto> ''doc''] key) =
     Some \<lparr>je_text = JNull, je_input_tokens = JInt 1, je_output_tokens = JInt 2, je_model = JStr ''small''\<rparr>"
proof (rule conjI)
  have has_text: "map_of kvs ''text'' = Some (the (map_of kvs ''text''))"
    if "fst ` set kvs = {''text'', ''input_tokens'', ''output_tokens'', ''model''}" for kvs :: "(string \<times> json) list"
  proof -
    have "''text'' \<in> fst ` set kvs" unfolding that by simp
    then show ?thesis by (metis map_of_eq_None_iff option.collapse)
  qed
  show "case redis_cache_get ops loads tr C db key of
      (Some en, C') \<Rightarrow> C' = C\<lparr>rc_hits := rc_hits C + 1\<rparr> \<and> tr = Delivered \<and>
        (\<exists>raw kvs. kv_get ops db (rc_key C key) = Some raw \<and> loads raw = Some (JObj kvs) \<and>
           fst ` set kvs = {''text'', ''input_tokens'', ''output_tokens'', ''model''} \<and> map_of kvs ''text'' = Some (je_text en))
    | (None, C') \<Rightarrow> C' = C\<lparr>rc_misses := rc_misses C + 1\<rparr>"
    using has_text
    by (auto simp: redis_cache_get_def over_def rc_miss_def entry_of_json_def
        split: transport.split option.split json.split)
  show "fst (redis_cache_get fun_kv (\<lambda>_. Some (JObj [(''text'', JNull), (''input_tokens'', JInt 1),
       (''output_tokens'', JInt 2), (''model'', JStr ''small'')])) Delivered C [rc_key C key \<mapsto> ''doc''] key) =
     Some \<lparr>je_text = JNull, je_input_tokens = JInt 1, je_output_tokens = JInt 2, je_model = JStr ''small''\<rparr>"
    by (simp add: redis_cache_get_def over_def entry_of_json_def fun_kv_def insert_commute)
qed

end
