(* ===== verification/VLLM.thy ===== *)
theory VLLM
  imports Json Provider Tokens
begin

text \<open>
  \<open>app/providers/vllm.py\<close>: the adapter for a vLLM server. The server and the HTTP client are outside the
  repository: what the \<open>k\<close>-th request meets is an argument, \<open>post_outcome\<close> for a buffered call and
  \<open>stream_outcome\<close> (with the lines that arrive and how they end) for a stream. \<open>loads\<close> reads JSON (\<open>None\<close>:
  \<open>JSONDecodeError\<close>), \<open>int_of_text\<close> is \<open>int\<close> on a string. The generator's consumer takes every chunk; one
  that stops early sees a prefix.

  A \<open>text\<close> of a reply that is neither a string nor empty is taken as a malformed reply, and such a
  \<open>finish_reason\<close> as an empty one; the code hands them on. Numbers of a reply are finite.
\<close>

section \<open>The adapter\<close>

definition RETRYABLE_STATUS :: "int set" where
  "RETRYABLE_STATUS = {408, 425, 429, 500, 502, 503, 504}"

record vllm =
  base_url :: string
  api_key :: "string option"
  model_map :: "(string \<times> string) list"
  max_retries :: int
  backoff_base_s :: f64
  vllm_per_token :: f64

text \<open>\<open>base_url.rstrip("/")\<close>, \<open>_headers\<close>, \<open>_payload\<close>, and the delay of \<open>_sleep_backoff\<close>.\<close>

definition rstrip_slash :: "string \<Rightarrow> string" where
  "rstrip_slash u = rev (dropWhile (\<lambda>c. c = CHR ''/'') (rev u))"

definition new_vllm ::
  "string \<Rightarrow> string option \<Rightarrow> (string \<times> string) list \<Rightarrow> int \<Rightarrow> f64 \<Rightarrow> f64 \<Rightarrow> vllm" where
  "new_vllm url key mm retries backoff per_token =
     \<lparr>base_url = rstrip_slash url, api_key = key, model_map = mm, max_retries = retries, backoff_base_s = backoff,
      vllm_per_token = per_token\<rparr>"

definition vllm_headers :: "vllm \<Rightarrow> (string \<times> string) list" where
  "vllm_headers V = (''content-type'', ''application/json'') #
     (case api_key V of None \<Rightarrow> [] | Some k \<Rightarrow> if k = [] then [] else [(''authorization'', ''Bearer '' @ k)])"

definition vllm_payload :: "vllm \<Rightarrow> model_spec \<Rightarrow> string \<Rightarrow> int \<Rightarrow> bool \<Rightarrow> json" where
  "vllm_payload V m prompt max_output_tokens stream = JObj
     ([(''model'', JStr (case map_of (model_map V) (name m) of None \<Rightarrow> name m | Some x \<Rightarrow> x)),
       (''prompt'', JStr prompt), (''max_tokens'', JInt max_output_tokens), (''stream'', JBool stream)]
      @ (if stream then [(''stream_options'', JObj [(''include_usage'', JBool True)])] else []))"

definition backoff :: "vllm \<Rightarrow> nat \<Rightarrow> f64" where
  "backoff V attempt = fmul (fmul (backoff_base_s V) (fint (2 ^ attempt)))
     (fadd 1 (fmul (lit 1 1) (fint (int (attempt mod 3)))))"

section \<open>Reading a reply\<close>

text \<open>\<open>v.get(k)\<close>, which raises on anything but an object; a key with \<open>null\<close> reads as absent.\<close>

definition get_field :: "string \<Rightarrow> json \<Rightarrow> (exc, json) result" where
  "get_field k v =
     (case v of
        JObj kvs \<Rightarrow> Inr (case map_of kvs k of None \<Rightarrow> JNull | Some w \<Rightarrow> w)
      | _ \<Rightarrow> Inl (OtherError ''AttributeError''))"

text \<open>\<open>choices[0]\<close> of a truthy value.\<close>

definition first_of :: "json \<Rightarrow> (exc, json) result" where
  "first_of v =
     (case v of
        JList (w # ws) \<Rightarrow> Inr w
      | JStr (c # cs) \<Rightarrow> Inr (JStr [c])
      | JObj kvs \<Rightarrow> Inl (OtherError ''KeyError'')
      | _ \<Rightarrow> Inl (OtherError ''TypeError''))"

text \<open>\<open>int(v or 0)\<close>\<close>

definition int_or_zero :: "(string \<Rightarrow> int option) \<Rightarrow> json \<Rightarrow> (exc, int) result" where
  "int_or_zero int_of_text v =
     (if \<not> truthy v then Inr 0
      else case v of
        JBool b \<Rightarrow> Inr 1
      | JInt n \<Rightarrow> Inr n
      | JFloat x \<Rightarrow> Inr (py_int x)
      | JStr s \<Rightarrow> (case int_of_text s of None \<Rightarrow> Inl (ValueError (BadNumber s)) | Some n \<Rightarrow> Inr n)
      | _ \<Rightarrow> Inl (OtherError ''TypeError''))"

definition usage_from :: "(string \<Rightarrow> int option) \<Rightarrow> json \<Rightarrow> (exc, usage option) result" where
  "usage_from int_of_text data =
     bind_result (get_field ''usage'' data) (\<lambda>u.
       if \<not> truthy u then Inr None
       else bind_result (get_field ''prompt_tokens'' u) (\<lambda>p.
            bind_result (get_field ''completion_tokens'' u) (\<lambda>c.
              if p = JNull \<and> c = JNull then Inr None
              else bind_result (int_or_zero int_of_text p) (\<lambda>i.
                   bind_result (int_or_zero int_of_text c) (\<lambda>out.
                     Inr (Some \<lparr>usage_in = i, usage_out = out\<rparr>))))))"

text \<open>\<open>choices[0].get("text", "") or ""\<close>\<close>

definition text_of_choice :: "json \<Rightarrow> (exc, string) result" where
  "text_of_choice choice =
     bind_result (get_field ''text'' choice) (\<lambda>v.
       if \<not> truthy v then Inr []
       else case v of JStr s \<Rightarrow> Inr s | _ \<Rightarrow> Inl (OtherError ''TypeError''))"

definition parse_completion ::
  "(string \<Rightarrow> int option) \<Rightarrow> tokenizer \<Rightarrow> vllm \<Rightarrow> json \<Rightarrow> model_spec \<Rightarrow> string \<Rightarrow> (exc, completion) result" where
  "parse_completion int_of_text tk V data m prompt =
     bind_result (get_field ''choices'' data) (\<lambda>choices.
       if \<not> truthy choices then Inl ProviderError
       else bind_result (first_of choices) (\<lambda>choice.
            bind_result (text_of_choice choice) (\<lambda>txt.
            bind_result (usage_from int_of_text data) (\<lambda>u.
            bind_result (case u of
                Some u \<Rightarrow> Inr u
              | None \<Rightarrow>
                  bind_result (count_tokens tk prompt (vllm_per_token V)) (\<lambda>i.
                  bind_result (count_tokens tk txt (vllm_per_token V)) (\<lambda>out.
                    Inr \<lparr>usage_in = i, usage_out = out\<rparr>))) (\<lambda>u.
              Inr \<lparr>completion_text = txt, completion_in = usage_in u, completion_out = usage_out u,
                   completion_model = name m\<rparr>)))))"

section \<open>A buffered call\<close>

datatype post_outcome =
    PostTimeout
  | PostFailed
  | Response int "json option"

text \<open>A failure that another attempt may cure, and what is raised when none is left.\<close>

fun post_retry :: "post_outcome \<Rightarrow> exc option" where
  "post_retry PostTimeout = Some ProviderTimeoutError"
| "post_retry PostFailed = Some ProviderUnavailableError"
| "post_retry (Response st body) = (if st \<in> RETRYABLE_STATUS then Some ProviderUnavailableError else None)"

text \<open>What an answer that is not retried gives. A body that is no JSON makes \<open>resp.json()\<close> raise a \<open>ValueError\<close>.\<close>

fun post_answer :: "(json \<Rightarrow> (exc, completion) result) \<Rightarrow> post_outcome \<Rightarrow> (exc, completion) result" where
  "post_answer parse (Response st body) =
     (if 400 \<le> st then Inl ProviderError
      else case body of None \<Rightarrow> Inl (ValueError NotJson) | Some v \<Rightarrow> parse v)"
| "post_answer parse out = Inl ProviderUnavailableError"

text \<open>The loop: the attempts left, the number of this attempt; the result and the delays slept.\<close>

fun generate_loop ::
  "vllm \<Rightarrow> (nat \<Rightarrow> post_outcome) \<Rightarrow> (json \<Rightarrow> (exc, completion) result) \<Rightarrow> nat \<Rightarrow> nat \<Rightarrow>
   (exc, completion) result \<times> f64 list"
where
  "generate_loop V server parse 0 attempt = (Inl ProviderUnavailableError, [])"
| "generate_loop V server parse (Suc left) attempt =
     (case post_retry (server attempt) of
        None \<Rightarrow> (post_answer parse (server attempt), [])
      | Some x \<Rightarrow>
          if 0 < left
          then (case generate_loop V server parse left (attempt + 1) of (r, ds) \<Rightarrow> (r, backoff V attempt # ds))
          else (Inl x, []))"

definition vllm_generate ::
  "(string \<Rightarrow> int option) \<Rightarrow> tokenizer \<Rightarrow> vllm \<Rightarrow> (nat \<Rightarrow> post_outcome) \<Rightarrow> model_spec \<Rightarrow> string \<Rightarrow>
   (exc, completion) result \<times> f64 list"
where
  "vllm_generate int_of_text tk V server m prompt =
     generate_loop V server (\<lambda>data. parse_completion int_of_text tk V data m prompt) (nat (max_retries V)) 0"

section \<open>Server-sent events\<close>

datatype frame = SkipFrame | DoneFrame | DataFrame json

definition parse_sse_line :: "(string \<Rightarrow> json option) \<Rightarrow> string \<Rightarrow> frame" where
  "parse_sse_line loads line =
     (let line = py_strip line in
      if line = [] \<or> starts_with '':'' line then SkipFrame
      else if \<not> starts_with ''data:'' line then SkipFrame
      else let payload = py_strip (drop (length ''data:'') line) in
        if payload = ''[DONE]'' then DoneFrame
        else case loads payload of
            Some (JObj kvs) \<Rightarrow> DataFrame (JObj kvs)
          | _ \<Rightarrow> SkipFrame)"

record reading =
  final_usage :: "usage option"
  finish :: json
  accumulated :: int
  started :: bool
  sent :: "stream_chunk list"

definition new_reading :: reading where
  "new_reading = \<lparr>final_usage = None, finish = JNull, accumulated = 0, started = False, sent = []\<rparr>"

text \<open>One frame: its first choice, if any, then its usage.\<close>

definition take_choice :: "json \<Rightarrow> reading \<Rightarrow> (exc, reading) result" where
  "take_choice choices rd =
     (if \<not> truthy choices then Inr rd
      else bind_result (first_of choices) (\<lambda>choice.
           bind_result (text_of_choice choice) (\<lambda>piece.
           bind_result (get_field ''finish_reason'' choice) (\<lambda>fr.
             let rd = rd\<lparr>finish := or_else fr (finish rd)\<rparr> in
             if piece = [] then Inr rd
             else Inr (rd\<lparr>accumulated := accumulated rd + int (length piece),
               sent := sent rd @ [\<lparr>chunk_text = piece, finish_reason = None, chunk_usage = None\<rparr>]\<rparr>)))))"

definition take_usage :: "usage option \<Rightarrow> reading \<Rightarrow> reading" where
  "take_usage u rd = (case u of None \<Rightarrow> rd | Some u \<Rightarrow> rd\<lparr>final_usage := Some u\<rparr>)"

text \<open>An exception after the text of a frame went out does not take it back.\<close>

definition take_frame :: "(string \<Rightarrow> int option) \<Rightarrow> json \<Rightarrow> reading \<Rightarrow> bool \<times> reading" where
  "take_frame int_of_text data rd =
     (let rd = rd\<lparr>started := True\<rparr> in
      case bind_result (get_field ''choices'' data) (\<lambda>choices. take_choice choices rd) of
        Inl x \<Rightarrow> (False, rd)
      | Inr rd \<Rightarrow>
          (case usage_from int_of_text data of
             Inl x \<Rightarrow> (False, rd)
           | Inr u \<Rightarrow> (True, take_usage u rd)))"

text \<open>How the lines of a response end: the body is over, or reading them raises.\<close>

datatype lines_end = EndOfBody | LinesTimeout | LinesFailed

datatype read_end = ReadDone | ReadEnd lines_end | ReadBroken

fun read_lines ::
  "(string \<Rightarrow> int option) \<Rightarrow> (string \<Rightarrow> json option) \<Rightarrow> lines_end \<Rightarrow> string list \<Rightarrow> reading \<Rightarrow> reading \<times> read_end"
where
  "read_lines iot loads le [] rd = (rd, ReadEnd le)"
| "read_lines iot loads le (l # ls) rd =
     (case parse_sse_line loads l of
        SkipFrame \<Rightarrow> read_lines iot loads le ls rd
      | DoneFrame \<Rightarrow> (rd, ReadDone)
      | DataFrame v \<Rightarrow>
          (case take_frame iot v rd of
             (True, rd) \<Rightarrow> read_lines iot loads le ls rd
           | (False, rd) \<Rightarrow> (rd, ReadBroken)))"

datatype stream_outcome =
    StreamTimeout
  | StreamFailed
  | StreamOpen int "string list" lines_end

text \<open>What an attempt comes to: chunks and the end of the stream, an exception after the chunks that went out,
  or another attempt (with the exception to raise if none is left).\<close>

datatype attempt_result =
    Complete "stream_chunk list"
  | Failed "stream_chunk list" exc
  | Again exc

text \<open>The last chunk: usage reported or estimated. \<open>None\<close> when the estimate raises.\<close>

definition last_chunk :: "tokenizer \<Rightarrow> vllm \<Rightarrow> string \<Rightarrow> reading \<Rightarrow> stream_chunk option" where
  "last_chunk tk V prompt rd =
     map_option (\<lambda>u. \<lparr>chunk_text = [], finish_reason = Some (if truthy (finish rd)
         then (case finish rd of JStr r \<Rightarrow> r | _ \<Rightarrow> []) else ''stop''), chunk_usage = Some u\<rparr>)
       (case final_usage rd of
          Some u \<Rightarrow> Some u
        | None \<Rightarrow>
            (case count_tokens tk prompt (vllm_per_token V) of
               Inl x \<Rightarrow> None
             | Inr i \<Rightarrow>
                 if accumulated rd = 0 then Some \<lparr>usage_in = i, usage_out = 0\<rparr>
                 else if vllm_per_token V = 0 then None
                 else Some \<lparr>usage_in = i,
                   usage_out = max 1 (py_round (fdiv (fint (accumulated rd)) (vllm_per_token V)))\<rparr>))"

definition broken_off :: "reading \<Rightarrow> exc \<Rightarrow> attempt_result" where
  "broken_off rd x = (if started rd then Failed (sent rd) ProviderError else Again x)"

definition finish_stream :: "tokenizer \<Rightarrow> vllm \<Rightarrow> string \<Rightarrow> reading \<Rightarrow> attempt_result" where
  "finish_stream tk V prompt rd =
     (case last_chunk tk V prompt rd of
        None \<Rightarrow> broken_off rd ProviderUnavailableError
      | Some c \<Rightarrow> Complete (sent rd @ [c]))"

definition stream_attempt ::
  "(string \<Rightarrow> int option) \<Rightarrow> (string \<Rightarrow> json option) \<Rightarrow> tokenizer \<Rightarrow> vllm \<Rightarrow> string \<Rightarrow> stream_outcome \<Rightarrow> attempt_result"
where
  "stream_attempt iot loads tk V prompt out =
     (case out of
        StreamTimeout \<Rightarrow> Again ProviderTimeoutError
      | StreamFailed \<Rightarrow> Again ProviderUnavailableError
      | StreamOpen st ls le \<Rightarrow>
          if st \<in> RETRYABLE_STATUS then Again ProviderUnavailableError
          else if 400 \<le> st then
            (case le of
               EndOfBody \<Rightarrow> Failed [] ProviderError
             | LinesTimeout \<Rightarrow> Again ProviderTimeoutError
             | LinesFailed \<Rightarrow> Again ProviderUnavailableError)
          else (case read_lines iot loads le ls new_reading of
              (rd, ReadDone) \<Rightarrow> finish_stream tk V prompt rd
            | (rd, ReadEnd EndOfBody) \<Rightarrow> finish_stream tk V prompt rd
            | (rd, ReadEnd LinesTimeout) \<Rightarrow> broken_off rd ProviderTimeoutError
            | (rd, ReadEnd LinesFailed) \<Rightarrow> broken_off rd ProviderUnavailableError
            | (rd, ReadBroken) \<Rightarrow> broken_off rd ProviderUnavailableError))"

text \<open>The loop over the attempts: the chunks that reach the consumer, the exception that ends them if any, and
  the number of attempts made.\<close>

fun stream_loop :: "(nat \<Rightarrow> attempt_result) \<Rightarrow> nat \<Rightarrow> nat \<Rightarrow> (stream_chunk list \<times> exc option) \<times> nat" where
  "stream_loop attempts 0 k = (([], Some ProviderUnavailableError), k)"
| "stream_loop attempts (Suc left) k =
     (case attempts k of
        Complete cs \<Rightarrow> ((cs, None), k + 1)
      | Failed cs x \<Rightarrow> ((cs, Some x), k + 1)
      | Again x \<Rightarrow> if 0 < left then stream_loop attempts left (k + 1) else (([], Some x), k + 1))"

definition vllm_stream ::
  "(string \<Rightarrow> int option) \<Rightarrow> (string \<Rightarrow> json option) \<Rightarrow> tokenizer \<Rightarrow> vllm \<Rightarrow> (nat \<Rightarrow> stream_outcome) \<Rightarrow> string \<Rightarrow>
   (stream_chunk list \<times> exc option) \<times> nat"
where
  "vllm_stream iot loads tk V server prompt =
     stream_loop (\<lambda>k. stream_attempt iot loads tk V prompt (server k)) (nat (max_retries V)) 0"

section \<open>Facts\<close>

lemma generate_loop_find:
  "generate_loop V server parse (Suc n) a =
     (case List.find (\<lambda>k. post_retry (server k) = None) [a..<a + Suc n] of
        Some k \<Rightarrow> (post_answer parse (server k), map (backoff V) [a..<k])
      | None \<Rightarrow> (Inl (the (post_retry (server (a + n)))), map (backoff V) [a..<a + n]))"
proof (induction n arbitrary: a)
  case 0
  then show ?case by (simp split: option.split)
next
  case (Suc n)
  have u: "[a..<a + Suc (Suc n)] = a # [Suc a..<Suc a + Suc n]" by (simp add: upt_conv_Cons)
  have d: "a < k \<Longrightarrow> [a..<k] = a # [Suc a..<k]" for k by (rule upt_conv_Cons)
  have k: "List.find P [Suc a..<b] = Some k \<Longrightarrow> a < k" for P b k by (auto dest!: find_SomeD)
  show ?case
  proof (cases "post_retry (server a)")
    case None
    then show ?thesis unfolding u by (simp del: upt_Suc)
  next
    case (Some x)
    have "generate_loop V server parse (Suc (Suc n)) a =
        (case generate_loop V server parse (Suc n) (Suc a) of (r, ds) \<Rightarrow> (r, backoff V a # ds))"
      by (subst generate_loop.simps(2)) (simp add: Some del: generate_loop.simps)
    then show ?thesis
      unfolding Suc.IH u by (auto simp: Some d k simp del: generate_loop.simps upt_Suc split: option.split)
  qed
qed

text \<open>Nothing is sent before a stream counts as started, and what is sent has text.\<close>

definition reading_ok :: "reading \<Rightarrow> bool" where
  "reading_ok rd \<longleftrightarrow> (sent rd \<noteq> [] \<longrightarrow> started rd) \<and>
     (\<forall>c \<in> set (sent rd). chunk_text c \<noteq> [] \<and> \<not> is_final c) \<and>
     accumulated rd = int (length (concat (map chunk_text (sent rd))))"

lemma reading_ok_new: "reading_ok new_reading"
  by (simp add: reading_ok_def new_reading_def)

lemma reading_ok_choice: "reading_ok rd \<Longrightarrow> take_choice v rd = Inr rd' \<Longrightarrow> started rd \<Longrightarrow> reading_ok rd' \<and> started rd'"
  by (auto simp: take_choice_def bind_result_Inr_iff reading_ok_def is_final_def Let_def split: if_splits)

lemma reading_ok_frame: "reading_ok rd \<Longrightarrow> take_frame iot v rd = (b, rd') \<Longrightarrow> reading_ok rd' \<and> started rd'"
proof -
  assume ok: "reading_ok rd" and t: "take_frame iot v rd = (b, rd')"
  let ?rd = "rd\<lparr>started := True\<rparr>"
  have ok': "reading_ok ?rd" using ok by (simp add: reading_ok_def)
  have u: "reading_ok r \<Longrightarrow> started r \<Longrightarrow> reading_ok (take_usage x r) \<and> started (take_usage x r)" for x r
    by (simp add: take_usage_def reading_ok_def split: option.split)
  show ?thesis
  proof (cases "bind_result (get_field ''choices'' v) (\<lambda>choices. take_choice choices ?rd)")
    case (Inl x)
    with t have "rd' = ?rd" by (simp add: take_frame_def)
    with ok' show ?thesis by simp
  next
    case (Inr r)
    then have "reading_ok r \<and> started r"
      using reading_ok_choice [OF ok'] by (auto simp: bind_result_Inr_iff)
    with t Inr u show ?thesis by (auto simp: take_frame_def split: sum.splits)
  qed
qed

lemma reading_ok_lines: "reading_ok rd \<Longrightarrow> read_lines iot loads le ls rd = (rd', en) \<Longrightarrow> reading_ok rd'"
proof (induction ls arbitrary: rd)
  case (Cons l ls)
  then show ?case by (auto split: frame.splits prod.splits bool.splits dest: reading_ok_frame)
qed simp

text \<open>The usage the server reports in its data frames before the end mark, the last one it reports.\<close>

fun data_frames :: "(string \<Rightarrow> json option) \<Rightarrow> string list \<Rightarrow> json list" where
  "data_frames loads [] = []"
| "data_frames loads (l # ls) =
     (case parse_sse_line loads l of SkipFrame \<Rightarrow> data_frames loads ls | DoneFrame \<Rightarrow> []
      | DataFrame v \<Rightarrow> v # data_frames loads ls)"

definition later_count :: "(string \<Rightarrow> int option) \<Rightarrow> json \<Rightarrow> usage option \<Rightarrow> usage option" where
  "later_count iot v u = (case usage_from iot v of Inr (Some w) \<Rightarrow> Some w | _ \<Rightarrow> u)"

definition server_count :: "(string \<Rightarrow> int option) \<Rightarrow> (string \<Rightarrow> json option) \<Rightarrow> string list \<Rightarrow> usage option" where
  "server_count iot loads ls = fold (later_count iot) (data_frames loads ls) None"

lemma take_choice_usage: "take_choice v rd = Inr rd' \<Longrightarrow> final_usage rd' = final_usage rd"
  by (auto simp: take_choice_def bind_result_Inr_iff Let_def split: if_splits)

lemma take_frame_usage:
  assumes "take_frame iot v rd = (True, rd')"
  shows "final_usage rd' = later_count iot v (final_usage rd)"
proof -
  from assms obtain r u where r: "bind_result (get_field ''choices'' v) (\<lambda>choices. take_choice choices (rd\<lparr>started := True\<rparr>)) = Inr r"
    and u: "usage_from iot v = Inr u" "rd' = take_usage u r"
    by (auto simp: take_frame_def Let_def split: sum.splits)
  have "final_usage r = final_usage rd"
    using r take_choice_usage by (fastforce simp: bind_result_Inr_iff)
  with u show ?thesis by (simp add: later_count_def take_usage_def split: option.split)
qed

lemma read_lines_usage:
  "read_lines iot loads le ls rd = (rd', en) \<Longrightarrow> en \<noteq> ReadBroken \<Longrightarrow>
   final_usage rd' = fold (later_count iot) (data_frames loads ls) (final_usage rd)"
proof (induction ls arbitrary: rd)
  case (Cons l ls)
  then show ?case by (auto split: frame.splits prod.splits bool.splits simp: take_frame_usage)
qed simp

lemma read_lines_skips:
  "read_lines iot loads le (filter (\<lambda>l. parse_sse_line loads l \<noteq> SkipFrame) ls) rd = read_lines iot loads le ls rd"
  by (induction ls arbitrary: rd) (auto split: frame.splits prod.splits bool.splits)

lemma read_lines_done:
  assumes "parse_sse_line loads d = DoneFrame" "\<And>l. l \<in> set ls \<Longrightarrow> parse_sse_line loads l \<noteq> DoneFrame"
  shows "read_lines iot loads le (ls @ d # rest) rd =
    (case read_lines iot loads EndOfBody ls rd of (rd', en) \<Rightarrow> (rd', if en = ReadEnd EndOfBody then ReadDone else en))"
  using assms(2) by (induction ls arbitrary: rd) (auto simp: assms(1) split: frame.splits prod.splits bool.splits)

lemma stream_loop_first:
  assumes "stream_loop attempts (Suc n) k = ((cs, x), m)"
  shows "k < m \<and> m \<le> k + Suc n \<and> (\<forall>i \<in> {k..<m - 1}. \<exists>y. attempts i = Again y) \<and>
    (case attempts (m - 1) of Complete ds \<Rightarrow> cs = ds \<and> x = None | Failed ds y \<Rightarrow> cs = ds \<and> x = Some y
     | Again y \<Rightarrow> cs = [] \<and> x = Some y \<and> m = k + Suc n)"
  using assms
proof (induction n arbitrary: k)
  case 0
  then show ?case by (auto split: attempt_result.splits)
next
  case (Suc n)
  show ?case
  proof (cases "attempts k")
    case (Again y)
    with Suc.prems have "stream_loop attempts (Suc n) (k + 1) = ((cs, x), m)" by simp
    from Suc.IH [OF this] have ih: "k + 1 < m" "m \<le> k + Suc (Suc n)"
      "\<forall>i \<in> {k + 1..<m - 1}. \<exists>y. attempts i = Again y"
      "case attempts (m - 1) of Complete ds \<Rightarrow> cs = ds \<and> x = None | Failed ds y \<Rightarrow> cs = ds \<and> x = Some y
       | Again y \<Rightarrow> cs = [] \<and> x = Some y \<and> m = k + Suc (Suc n)"
      by (auto split: attempt_result.splits)
    have "\<exists>y. attempts i = Again y" if "i \<in> {k..<m - 1}" for i
      using that ih(3) Again by (cases "i = k") auto
    with ih show ?thesis by simp
  qed (use Suc.prems in auto)
qed

lemma stream_attempt_open:
  assumes "st \<notin> RETRYABLE_STATUS" "st < 400"
  shows "stream_attempt iot loads tk V prompt (StreamOpen st ls le) =
    (case read_lines iot loads le ls new_reading of
        (rd, ReadDone) \<Rightarrow> finish_stream tk V prompt rd
      | (rd, ReadEnd EndOfBody) \<Rightarrow> finish_stream tk V prompt rd
      | (rd, ReadEnd LinesTimeout) \<Rightarrow> broken_off rd ProviderTimeoutError
      | (rd, ReadEnd LinesFailed) \<Rightarrow> broken_off rd ProviderUnavailableError
      | (rd, ReadBroken) \<Rightarrow> broken_off rd ProviderUnavailableError)"
  using assms by (simp add: stream_attempt_def)

lemma attempt_again:
  assumes "stream_attempt iot loads tk V prompt out = Again x"
    and "out = StreamOpen st ls le" "st \<notin> RETRYABLE_STATUS" "st < 400"
  shows "sent (fst (read_lines iot loads le ls new_reading)) = []"
proof -
  obtain rd en where r: "read_lines iot loads le ls new_reading = (rd, en)" by fastforce
  have "\<not> started rd"
    using assms(1) unfolding assms(2) stream_attempt_open [OF assms(3,4)] r
    by (auto simp: broken_off_def finish_stream_def split: read_end.splits lines_end.splits option.splits if_splits)
  with reading_ok_lines [OF reading_ok_new r] show ?thesis by (auto simp: r reading_ok_def)
qed

text \<open>The chunks of a complete stream, and those of one that fails.\<close>

lemma attempt_complete:
  assumes "stream_attempt iot loads tk V prompt out = Complete cs"
  shows "\<exists>rd c st ls le. reading_ok rd \<and> cs = sent rd @ [c] \<and> last_chunk tk V prompt rd = Some c \<and>
    out = StreamOpen st ls le \<and> final_usage rd = server_count iot loads ls"
proof -
  have fin: "\<exists>c. cs = sent rd @ [c] \<and> last_chunk tk V prompt rd = Some c"
    if "finish_stream tk V prompt rd = Complete cs" for rd
    using that by (auto simp: finish_stream_def broken_off_def split: option.splits if_splits)
  from assms obtain st ls le where o: "out = StreamOpen st ls le" "st \<notin> RETRYABLE_STATUS" "st < 400"
    by (cases out) (auto simp: stream_attempt_def split: if_splits lines_end.splits)
  obtain rd en where r: "read_lines iot loads le ls new_reading = (rd, en)" by fastforce
  have f: "finish_stream tk V prompt rd = Complete cs" "en \<noteq> ReadBroken"
    using assms unfolding o(1) stream_attempt_open [OF o(2,3)] r
    by (auto simp: broken_off_def split: read_end.splits lines_end.splits if_splits)
  have "final_usage rd = server_count iot loads ls"
    using read_lines_usage [OF r f(2)] by (simp add: server_count_def new_reading_def)
  with fin [OF f(1)] reading_ok_lines [OF reading_ok_new r] o(1) show ?thesis by blast
qed

lemma attempt_failed:
  assumes "stream_attempt iot loads tk V prompt out = Failed cs x" and "c \<in> set cs"
  shows "chunk_usage c = None"
proof -
  from assms obtain st ls le where o: "out = StreamOpen st ls le" "st \<notin> RETRYABLE_STATUS" "st < 400"
    by (cases out) (auto simp: stream_attempt_def split: if_splits lines_end.splits)
  obtain rd en where r: "read_lines iot loads le ls new_reading = (rd, en)" by fastforce
  have "cs = sent rd"
    using assms(1) unfolding o(1) stream_attempt_open [OF o(2,3)] r
    by (auto simp: broken_off_def finish_stream_def split: read_end.splits lines_end.splits if_splits option.splits)
  with reading_ok_lines [OF reading_ok_new r] assms(2) show ?thesis by (auto simp: reading_ok_def is_final_def)
qed

lemma last_chunk_final:
  "last_chunk tk V prompt rd = Some c \<Longrightarrow> \<exists>r u. c = \<lparr>chunk_text = [], finish_reason = Some r, chunk_usage = Some u\<rparr>"
  unfolding last_chunk_def by (elim map_option_eq_Some [THEN iffD1, elim_format] exE conjE) blast

text \<open>What the adapter reports at the end: the server's count, or its own estimate when the server gave none.\<close>

definition adapter_usage :: "tokenizer \<Rightarrow> vllm \<Rightarrow> string \<Rightarrow> usage option \<Rightarrow> string \<Rightarrow> usage \<Rightarrow> bool" where
  "adapter_usage tk V prompt counted sent_text u \<longleftrightarrow>
     (case counted of Some w \<Rightarrow> u = w
      | None \<Rightarrow> count_tokens tk prompt (vllm_per_token V) = Inr (usage_in u) \<and>
          usage_out u = (if sent_text = [] then 0
            else max 1 (py_round (fdiv (fint (int (length sent_text))) (vllm_per_token V)))))"

lemma last_chunk_usage:
  assumes "last_chunk tk V prompt rd = Some c" "reading_ok rd"
  shows "\<exists>u. chunk_usage c = Some u \<and>
    adapter_usage tk V prompt (final_usage rd) (concat (map chunk_text (sent rd))) u"
  using assms unfolding last_chunk_def adapter_usage_def reading_ok_def
  by (auto split: option.splits sum.splits if_splits)

lemma vllm_stream_ends:
  assumes "0 < max_retries V" "vllm_stream iot loads tk V server prompt = ((cs, None), n)"
  obtains rd c st ls le where "reading_ok rd" "cs = sent rd @ [c]" "last_chunk tk V prompt rd = Some c"
    "server (n - 1) = StreamOpen st ls le" "final_usage rd = server_count iot loads ls"
proof -
  obtain k where k: "nat (max_retries V) = Suc k" using assms(1) by (cases "nat (max_retries V)") auto
  from stream_loop_first [OF assms(2) [unfolded vllm_stream_def k]]
  have "stream_attempt iot loads tk V prompt (server (n - 1)) = Complete cs" by (auto split: attempt_result.splits)
  from attempt_complete [OF this] that show ?thesis by blast
qed

lemma vllm_stream_breaks:
  assumes "0 < max_retries V" "vllm_stream iot loads tk V server prompt = ((cs, Some x), n)" "c \<in> set cs"
  shows "chunk_usage c = None"
proof -
  obtain k where k: "nat (max_retries V) = Suc k" using assms(1) by (cases "nat (max_retries V)") auto
  from stream_loop_first [OF assms(2) [unfolded vllm_stream_def k]] assms(3)
  have "stream_attempt iot loads tk V prompt (server (n - 1)) = Failed cs x" by (auto split: attempt_result.splits)
  from attempt_failed [OF this assms(3)] show ?thesis .
qed

section \<open>Properties\<close>

text \<open>The buffered call is a search for the first conclusive answer: of at most \<open>max_retries\<close> requests it
  returns what the first one gives whose outcome is not worth retrying (an answer, or a refusal by status),
  after sleeping the backoff of each attempt before it; when all of them are worth retrying it raises what
  the last one calls for.\<close>

theorem vllm_first_conclusive_answer:
  assumes "0 < max_retries V"
  shows "vllm_generate iot tk V server m prompt =
     (case List.find (\<lambda>k. post_retry (server k) = None) [0..<nat (max_retries V)] of
        Some k \<Rightarrow> (post_answer (\<lambda>data. parse_completion iot tk V data m prompt) (server k), map (backoff V) [0..<k])
      | None \<Rightarrow> (Inl (the (post_retry (server (nat (max_retries V) - 1)))), map (backoff V) [0..<nat (max_retries V) - 1]))"
proof -
  obtain n where n: "nat (max_retries V) = Suc n" using assms by (cases "nat (max_retries V)") auto
  show ?thesis
    unfolding vllm_generate_def n generate_loop_find add_0 diff_Suc_1 by (rule refl)
qed

theorem vllm_first_conclusive_answer_witness:
  "fst (vllm_generate (\<lambda>_. None) None (new_vllm ''http://h/'' None [] 3 (1/2) 4)
     (\<lambda>k. if k = 0 then PostTimeout else Response 400 None) small_model ''p'') = Inl ProviderError"
proof -
  let ?V = "new_vllm ''http://h/'' None [] 3 (1/2) 4"
  have "List.find (\<lambda>k. post_retry ((\<lambda>k :: nat. if k = 0 then PostTimeout else Response 400 None) k) = None) [0..<3] = Some 1"
    by (simp add: numeral_eq_Suc RETRYABLE_STATUS_def)
  then show ?thesis
    by (subst vllm_first_conclusive_answer) (simp_all add: new_vllm_def)
qed

text \<open>C34. A stream is never restarted once output was delivered: the chunks the consumer gets are those of one
  attempt, the last one made, of at most \<open>max_retries\<close>; and an attempt after which another one is made has
  sent nothing.\<close>

theorem vllm_stream_never_restarts:
  assumes "0 < max_retries V" "vllm_stream iot loads tk V server prompt = ((cs, x), n)"
  shows "0 < n \<and> n \<le> nat (max_retries V) \<and>
    (\<forall>i < n - 1. \<exists>y. stream_attempt iot loads tk V prompt (server i) = Again y \<and>
       (\<forall>st ls le. server i = StreamOpen st ls le \<and> st \<notin> RETRYABLE_STATUS \<and> st < 400 \<longrightarrow>
          sent (fst (read_lines iot loads le ls new_reading)) = [])) \<and>
    (case stream_attempt iot loads tk V prompt (server (n - 1)) of
       Complete ds \<Rightarrow> cs = ds \<and> x = None
     | Failed ds y \<Rightarrow> cs = ds \<and> x = Some y
     | Again y \<Rightarrow> cs = [] \<and> x = Some y \<and> n = nat (max_retries V))"
proof -
  obtain k where k: "nat (max_retries V) = Suc k" using assms(1) by (cases "nat (max_retries V)") auto
  note first = stream_loop_first [OF assms(2) [unfolded vllm_stream_def k]]
  have "\<exists>y. stream_attempt iot loads tk V prompt (server i) = Again y \<and>
       (\<forall>st ls le. server i = StreamOpen st ls le \<and> st \<notin> RETRYABLE_STATUS \<and> st < 400 \<longrightarrow>
          sent (fst (read_lines iot loads le ls new_reading)) = [])" if "i < n - 1" for i
  proof -
    have "i \<in> {0..<n - 1}" using that by simp
    with first obtain y where y: "stream_attempt iot loads tk V prompt (server i) = Again y" by blast
    show ?thesis
      by (intro exI [of _ y] conjI y allI impI; elim conjE) (rule attempt_again [OF y])
  qed
  with first k show ?thesis by (auto split: attempt_result.splits)
qed

text \<open>A stream that fails twice before a frame arrives and then answers: three attempts, one answer.\<close>

theorem vllm_stream_never_restarts_witness:
  "\<exists>iot loads tk V server prompt cs x n. 0 < max_retries V \<and> vllm_stream iot loads tk V server prompt = ((cs, x), n) \<and>
     n = 3 \<and> (\<forall>i < n - 1. \<exists>y. stream_attempt iot loads tk V prompt (server i) = Again y)"
proof -
  let ?V = "new_vllm ''http://h/'' None [] 3 (1/2) 4"
  let ?srv = "\<lambda>k :: nat. if k = 0 then StreamTimeout else if k = 1 then StreamOpen 503 [] EndOfBody
    else StreamOpen 404 [] EndOfBody"
  let ?r = "vllm_stream (\<lambda>_. None) (\<lambda>_. None) None ?V ?srv ''p''"
  have r: "?r = (([], Some ProviderError), 3)"
    by (simp add: vllm_stream_def new_vllm_def numeral_eq_Suc stream_attempt_def RETRYABLE_STATUS_def)
  have p: "0 < max_retries ?V" by (simp add: new_vllm_def)
  from vllm_stream_never_restarts [OF p r]
  have "\<forall>i < 3 - 1. \<exists>y. stream_attempt (\<lambda>_. None) (\<lambda>_. None) None ?V ''p'' (?srv i) = Again y" by blast
  with p r show ?thesis by blast
qed

text \<open>What a stream that ends without an exception delivers: pieces of text, none of them empty and none of them
  marked as the end, and after them exactly one final chunk, with no text, a reason and the usage to bill.\<close>

theorem vllm_stream_shape:
  assumes "0 < max_retries V" "vllm_stream iot loads tk V server prompt = ((cs, None), n)"
  shows "\<exists>ps c u r. cs = ps @ [c] \<and> (\<forall>p \<in> set ps. chunk_text p \<noteq> [] \<and> \<not> is_final p) \<and>
    c = \<lparr>chunk_text = [], finish_reason = Some r, chunk_usage = Some u\<rparr>"
proof -
  obtain rd c where rd: "reading_ok rd" "cs = sent rd @ [c]" "last_chunk tk V prompt rd = Some c"
    using vllm_stream_ends [OF assms] by blast
  from last_chunk_final [OF rd(3)] rd show ?thesis unfolding reading_ok_def by blast
qed

text \<open>One frame with text and one with the usage, behind a comment and before the end mark.\<close>

theorem vllm_stream_shape_witness:
  "\<exists>iot loads tk V server prompt cs n. 0 < max_retries V \<and>
     vllm_stream iot loads tk V server prompt = ((cs, None), n) \<and> length cs = 2 \<and>
     (\<exists>ps c u r. cs = ps @ [c] \<and> (\<forall>p \<in> set ps. chunk_text p \<noteq> [] \<and> \<not> is_final p) \<and>
        c = \<lparr>chunk_text = [], finish_reason = Some r, chunk_usage = Some u\<rparr>)"
proof -
  let ?V = "new_vllm ''http://h/'' None [] 1 (1/2) 4"
  let ?a = "JObj [(''choices'', JList [JObj [(''text'', JStr ''hi''), (''finish_reason'', JStr ''stop'')]])]"
  let ?b = "JObj [(''usage'', JObj [(''prompt_tokens'', JInt 3), (''completion_tokens'', JInt 1)])]"
  let ?loads = "\<lambda>t. if t = ''a'' then Some ?a else if t = ''b'' then Some ?b else None"
  let ?srv = "\<lambda>k :: nat. StreamOpen 200 ['': ping'', ''data: a'', ''data: b'', ''data: [DONE]''] EndOfBody"
  let ?cs = "[\<lparr>chunk_text = ''hi'', finish_reason = None, chunk_usage = None\<rparr>,
    \<lparr>chunk_text = [], finish_reason = Some ''stop'', chunk_usage = Some \<lparr>usage_in = 3, usage_out = 1\<rparr>\<rparr>]"
  have f: "parse_sse_line ?loads '': ping'' = SkipFrame" "parse_sse_line ?loads ''data: a'' = DataFrame ?a"
    "parse_sse_line ?loads ''data: b'' = DataFrame ?b" "parse_sse_line ?loads ''data: [DONE]'' = DoneFrame"
    by code_simp+
  have r: "vllm_stream (\<lambda>_. None) ?loads None ?V ?srv ''p'' = ((?cs, None), 1)"
    by (simp add: vllm_stream_def new_vllm_def stream_attempt_def RETRYABLE_STATUS_def f new_reading_def take_frame_def
        take_choice_def get_field_def bind_result_def first_of_def text_of_choice_def usage_from_def int_or_zero_def
        or_else_def take_usage_def finish_stream_def last_chunk_def Let_def)
  have p: "0 < max_retries ?V" by (simp add: new_vllm_def)
  have l: "length ?cs = 2" by simp
  show ?thesis using p r l vllm_stream_shape [OF p r] by blast
qed

text \<open>Noise on the wire is harmless: comments, keep-alives, other fields and frames that do not parse change
  nothing of what an attempt delivers, however it ends.\<close>

theorem vllm_noise_is_skipped:
  "stream_attempt iot loads tk V prompt
     (StreamOpen st (filter (\<lambda>l. parse_sse_line loads l \<noteq> SkipFrame) ls) le)
   = stream_attempt iot loads tk V prompt (StreamOpen st ls le)"
  by (simp add: stream_attempt_def read_lines_skips)

end
