(* ===== verification/Mock.thy ===== *)
theory Mock
  imports Provider Tokens Cache
begin

text \<open>
  \<open>app/providers/mock.py\<close>: the provider that needs no network. Its simulated latency takes time only, except
  that it divides by the model's speed. The consumer of the stream takes every chunk.
\<close>

section \<open>The provider\<close>

record mock =
  latency_scale :: f64
  mock_per_token :: f64
  fail_after_chunks :: "int option"
  raise_error :: "exc option"
  chunk_chars :: int

definition new_mock :: "f64 \<Rightarrow> mock" where
  "new_mock per_token = \<lparr>latency_scale = 0, mock_per_token = per_token, fail_after_chunks = None, raise_error = None,
     chunk_chars = 12\<rparr>"

text \<open>\<open>s[:n]\<close>\<close>

definition py_prefix :: "int \<Rightarrow> string \<Rightarrow> string" where
  "py_prefix n s = take (nat (if n < 0 then n + int (length s) else n)) s"

definition mock_body :: "tokenizer \<Rightarrow> mock \<Rightarrow> model_spec \<Rightarrow> string \<Rightarrow> int \<Rightarrow> (exc, string) result" where
  "mock_body tk M m prompt max_output_tokens =
     bind_result (count_tokens tk prompt (mock_per_token M)) (\<lambda>n.
       let body = ''['' @ name m @ ''] response to a '' @ show_int n @
             ''-token prompt. This is a deterministic mock completion.'';
           max_chars = py_int (fmul (fint max_output_tokens) (mock_per_token M))
       in Inr (if max_chars \<noteq> 0 then py_prefix max_chars body else body))"

text \<open>\<open>await asyncio.sleep(self.latency_scale / model.speed)\<close>\<close>

definition nap :: "mock \<Rightarrow> model_spec \<Rightarrow> (exc, unit) result" where
  "nap M m = (if latency_scale M \<noteq> 0 \<and> speed m = 0 then Inl ZeroDivisionError else Inr ())"

definition mock_generate ::
  "tokenizer \<Rightarrow> mock \<Rightarrow> model_spec \<Rightarrow> string \<Rightarrow> int \<Rightarrow> (exc, completion) result" where
  "mock_generate tk M m prompt max_output_tokens =
     (case (raise_error M, fail_after_chunks M) of
        (Some x, None) \<Rightarrow> Inl x
      | _ \<Rightarrow>
          bind_result (nap M m) (\<lambda>_.
          bind_result (mock_body tk M m prompt max_output_tokens) (\<lambda>txt.
          bind_result (count_tokens tk prompt (mock_per_token M)) (\<lambda>i.
          bind_result (count_tokens tk txt (mock_per_token M)) (\<lambda>out.
            Inr \<lparr>completion_text = txt, completion_in = i, completion_out = out, completion_model = name m\<rparr>)))))"

text \<open>\<open>range(0, n, step)\<close>, and the loop over the starts of the pieces: the chunks sent, then an exception or the
  number of characters emitted.\<close>

definition piece_starts :: "nat \<Rightarrow> int \<Rightarrow> (exc, nat list) result" where
  "piece_starts n step =
     (if step = 0 then Inl (ValueError (BadNumber ''0''))
      else if step < 0 then Inr []
      else Inr (map (\<lambda>i. i * nat step) [0..<(n + nat step - 1) div nat step]))"

definition give_up :: "mock \<Rightarrow> nat \<Rightarrow> bool" where
  "give_up M sent_chunks = (case fail_after_chunks M of None \<Rightarrow> False | Some k \<Rightarrow> k \<le> int sent_chunks)"

fun mock_loop ::
  "mock \<Rightarrow> model_spec \<Rightarrow> string \<Rightarrow> nat list \<Rightarrow> nat \<Rightarrow> nat \<Rightarrow> stream_chunk list \<times> (exc, nat) result" where
  "mock_loop M m txt [] sent_chunks emitted = ([], Inr emitted)"
| "mock_loop M m txt (start # starts) sent_chunks emitted =
     (if give_up M sent_chunks then ([], Inl (case raise_error M of None \<Rightarrow> ProviderError | Some x \<Rightarrow> x))
      else let piece = take (nat (chunk_chars M)) (drop start txt) in
        case nap M m of
          Inl x \<Rightarrow> ([], Inl x)
        | Inr _ \<Rightarrow>
            (case mock_loop M m txt starts (sent_chunks + 1) (emitted + length piece) of
               (cs, r) \<Rightarrow> (\<lparr>chunk_text = piece, finish_reason = None, chunk_usage = None\<rparr> # cs, r)))"

definition mock_stream ::
  "tokenizer \<Rightarrow> mock \<Rightarrow> model_spec \<Rightarrow> string \<Rightarrow> int \<Rightarrow> stream_chunk list \<times> exc option" where
  "mock_stream tk M m prompt max_output_tokens =
     (case mock_body tk M m prompt max_output_tokens of
        Inl x \<Rightarrow> ([], Some x)
      | Inr txt \<Rightarrow>
     (case piece_starts (length txt) (chunk_chars M) of
        Inl x \<Rightarrow> ([], Some x)
      | Inr starts \<Rightarrow>
     (case mock_loop M m txt starts 0 0 of
        (cs, Inl x) \<Rightarrow> (cs, Some x)
      | (cs, Inr emitted) \<Rightarrow>
     (case bind_result (count_tokens tk prompt (mock_per_token M)) (\<lambda>i.
             bind_result (count_tokens tk (take emitted txt) (mock_per_token M)) (\<lambda>out.
               Inr \<lparr>usage_in = i, usage_out = out\<rparr>)) of
        Inl x \<Rightarrow> (cs, Some x)
      | Inr u \<Rightarrow> (cs @ [\<lparr>chunk_text = [], finish_reason = Some ''stop'', chunk_usage = Some u\<rparr>], None)))))"

section \<open>Facts\<close>

lemma py_prefix_nonneg: "0 \<le> n \<Longrightarrow> py_prefix n s = take (nat n) s"
  by (simp add: py_prefix_def)

text \<open>The pieces of a text in steps of \<open>c\<close>.\<close>

definition pieces_from :: "nat \<Rightarrow> nat \<Rightarrow> nat \<Rightarrow> string \<Rightarrow> string list" where
  "pieces_from c i k txt = map (\<lambda>j. take c (drop (j * c) txt)) [i..<k]"

lemma take_piece: "take (i * c) t @ take c (drop (i * c) t) = take (Suc i * c) t"
  by (metis take_add mult_Suc add.commute)

lemma concat_pieces: "concat (pieces_from c 0 k txt) = take (k * c) txt"
  by (induction k) (simp_all add: pieces_from_def take_piece del: mult_Suc)

lemma ceil_covers: "0 < c \<Longrightarrow> n \<le> (n + c - 1) div c * (c::nat)"
proof -
  assume c: "0 < c"
  have "n + c - 1 < ((n + c - 1) div c + 1) * c"
    using c by (metis Suc_eq_plus1 div_less_iff_less_mult less_add_one)
  then show ?thesis using c by (simp add: add_mult_distrib)
qed

lemma ceil_tight: "0 < c \<Longrightarrow> j < (n + c - 1) div c \<Longrightarrow> j * c < (n::nat)"
proof -
  assume c: "0 < c" and j: "j < (n + c - 1) div c"
  then have "Suc j * c \<le> n + c - 1" by (simp add: less_eq_div_iff_mult_less_eq Suc_le_eq [symmetric] del: mult_Suc)
  then show ?thesis using c by simp
qed

definition text_chunk :: "string \<Rightarrow> stream_chunk" where
  "text_chunk p = \<lparr>chunk_text = p, finish_reason = None, chunk_usage = None\<rparr>"

text \<open>The loop from the \<open>i\<close>-th piece on: it sends what the injected failure leaves.\<close>

lemma mock_loop_run:
  assumes "nap M m = Inr ()" "0 < chunk_chars M"
  defines "c \<equiv> nat (chunk_chars M)"
  shows "mock_loop M m txt (map (\<lambda>j. j * c) [i..<i + n]) i e =
     (let k = (case fail_after_chunks M of None \<Rightarrow> i + n | Some f \<Rightarrow> min (i + n) (max i (nat f))) in
      (map text_chunk (pieces_from c i k txt),
       if k < i + n then Inl (case raise_error M of None \<Rightarrow> ProviderError | Some x \<Rightarrow> x)
       else Inr (e + length (concat (pieces_from c i (i + n) txt)))))"
proof (induction n arbitrary: i e)
  case 0
  then show ?case by (simp add: pieces_from_def Let_def split: option.split)
next
  case (Suc n)
  have u: "[i..<i + Suc n] = i # [Suc i..<Suc i + n]" by (simp add: upt_conv_Cons)
  have p: "i < k \<Longrightarrow> pieces_from c i k txt = take c (drop (i * c) txt) # pieces_from c (Suc i) k txt" for k
    by (simp add: pieces_from_def upt_conv_Cons)
  show ?case
  proof (cases "give_up M i")
    case True
    then obtain f where f: "fail_after_chunks M = Some f" "f \<le> int i" by (auto simp: give_up_def split: option.splits)
    then have "max i (nat f) = i" by simp
    with f True show ?thesis unfolding u by (simp add: pieces_from_def Let_def)
  next
    case False
    then have k: "fail_after_chunks M = Some f \<Longrightarrow> max (Suc i) (nat f) = max i (nat f) \<and> i < nat f" for f
      by (auto simp: give_up_def)
    let ?P = "take c (drop (i * c) txt)"
    have "mock_loop M m txt (map (\<lambda>j. j * c) (i # [Suc i..<Suc i + n])) i e =
        (case mock_loop M m txt (map (\<lambda>j. j * c) [Suc i..<Suc i + n]) (Suc i) (e + length ?P) of
           (cs, r) \<Rightarrow> (text_chunk ?P # cs, r))"
      by (simp add: False assms(1) text_chunk_def c_def [symmetric] Let_def del: upt_Suc)
    also have "\<dots> = (let k = (case fail_after_chunks M of None \<Rightarrow> Suc i + n | Some f \<Rightarrow> min (Suc i + n) (max (Suc i) (nat f))) in
        (text_chunk ?P # map text_chunk (pieces_from c (Suc i) k txt),
         if k < Suc i + n then Inl (case raise_error M of None \<Rightarrow> ProviderError | Some x \<Rightarrow> x)
         else Inr (e + length ?P + length (concat (pieces_from c (Suc i) (Suc i + n) txt)))))"
      unfolding Suc.IH by (simp add: Let_def del: upt_Suc)
    finally show ?thesis
      unfolding u using p [of "i + Suc n"]
      by (cases "fail_after_chunks M") (auto simp: Let_def p k min_def del: upt_Suc)
  qed
qed

lemma pieces_nonempty:
  assumes "0 < c" "k \<le> (length txt + c - 1) div c"
  shows "[] \<notin> set (pieces_from c 0 k txt)"
proof
  assume "[] \<in> set (pieces_from c 0 k txt)"
  then obtain j where "j < k" "take c (drop (j * c) txt) = []" by (auto simp: pieces_from_def)
  with ceil_tight [OF assms(1), of j "length txt"] assms show False by simp
qed

text \<open>The whole run of the loop, from the first piece.\<close>

lemma mock_loop_whole:
  fixes w :: string
  assumes "nap M m = Inr ()" "0 < chunk_chars M"
  defines "c \<equiv> nat (chunk_chars M)"
  defines "n \<equiv> (length w + c - 1) div c"
  shows "piece_starts (length w) (chunk_chars M) = Inr (map (\<lambda>j. j * c) [0..<n])"
    and "mock_loop M m w (map (\<lambda>j. j * c) [0..<n]) 0 0 =
      (case fail_after_chunks M of
         None \<Rightarrow> (map text_chunk (pieces_from c 0 n w), Inr (length w))
       | Some f \<Rightarrow> (map text_chunk (pieces_from c 0 (min n (nat f)) w),
           if nat f < n then Inl (case raise_error M of None \<Rightarrow> ProviderError | Some x \<Rightarrow> x) else Inr (length w)))"
proof -
  have c: "0 < c" using assms(2) by (simp add: c_def)
  show "piece_starts (length w) (chunk_chars M) = Inr (map (\<lambda>j. j * c) [0..<n])"
    using assms(2) by (simp add: piece_starts_def c_def n_def)
  have l: "length (concat (pieces_from c 0 n w)) = length w"
    unfolding concat_pieces n_def using ceil_covers [OF c, of "length w"] by simp
  show "mock_loop M m w (map (\<lambda>j. j * c) [0..<n]) 0 0 =
      (case fail_after_chunks M of
         None \<Rightarrow> (map text_chunk (pieces_from c 0 n w), Inr (length w))
       | Some f \<Rightarrow> (map text_chunk (pieces_from c 0 (min n (nat f)) w),
           if nat f < n then Inl (case raise_error M of None \<Rightarrow> ProviderError | Some x \<Rightarrow> x) else Inr (length w)))"
    using mock_loop_run [OF assms(1,2), of w 0 n 0, folded c_def] l
    by (auto simp: Let_def min_def split: option.splits)
qed

lemma mock_stream_pieces:
  assumes "0 < chunk_chars M" "fail_after_chunks M = None" "mock_generate tk M m p mx = Inr a"
  shows "\<exists>ps. mock_stream tk M m p mx = (map text_chunk ps @
      [\<lparr>chunk_text = [], finish_reason = Some ''stop'',
        chunk_usage = Some \<lparr>usage_in = completion_in a, usage_out = completion_out a\<rparr>\<rparr>], None) \<and>
    concat ps = completion_text a \<and> [] \<notin> set ps"
proof -
  define c where "c = nat (chunk_chars M)"
  have c: "0 < c" using assms(1) by (simp add: c_def)
  from assms(2,3) have g: "nap M m = Inr ()" "mock_body tk M m p mx = Inr (completion_text a)"
    "count_tokens tk p (mock_per_token M) = Inr (completion_in a)"
    "count_tokens tk (completion_text a) (mock_per_token M) = Inr (completion_out a)"
    by (auto simp: mock_generate_def bind_result_Inr_iff split: option.splits)
  let ?n = "(length (completion_text a) + c - 1) div c"
  let ?ps = "pieces_from c 0 ?n (completion_text a)"
  note loop = mock_loop_whole [OF g(1) assms(1), of "completion_text a", folded c_def]
  have "mock_stream tk M m p mx = (map text_chunk ?ps @
      [\<lparr>chunk_text = [], finish_reason = Some ''stop'',
        chunk_usage = Some \<lparr>usage_in = completion_in a, usage_out = completion_out a\<rparr>\<rparr>], None)"
    unfolding mock_stream_def g(2) sum.case loop assms(2) option.case prod.case take_all [OF order_refl] g(3,4)
    by simp
  moreover have "concat ?ps = completion_text a"
    unfolding concat_pieces using ceil_covers [OF c, of "length (completion_text a)"] by simp
  moreover have "[] \<notin> set ?ps" by (rule pieces_nonempty [OF c order_refl])
  ultimately show ?thesis by blast
qed

section \<open>Properties\<close>

text \<open>The two calling conventions agree: without an injected failure the stream is the buffered answer cut into
  non-empty pieces, in order and complete, and its final chunk reports the tokens of the buffered call.\<close>

theorem mock_stream_is_generate:
  assumes "0 < chunk_chars M" "fail_after_chunks M = None" "mock_generate tk M m p mx = Inr a"
  shows "\<exists>ps. mock_stream tk M m p mx = (map text_chunk ps @
      [\<lparr>chunk_text = [], finish_reason = Some ''stop'',
        chunk_usage = Some \<lparr>usage_in = completion_in a, usage_out = completion_out a\<rparr>\<rparr>], None) \<and>
    concat ps = completion_text a \<and> [] \<notin> set ps"
  by (rule mock_stream_pieces [OF assms])

theorem mock_stream_is_generate_witness:
  "\<exists>ps. fst (mock_stream None (new_mock 4) small_model ''hi'' 5) = map text_chunk ps @
     [\<lparr>chunk_text = [], finish_reason = Some ''stop'', chunk_usage = Some \<lparr>usage_in = 1, usage_out = 5\<rparr>\<rparr>] \<and>
   concat ps = ''[small] response to ''"
proof -
  have f: "fail_after_chunks (new_mock 4) = None" "0 < chunk_chars (new_mock 4)" by (simp_all add: new_mock_def)
  have g: "mock_generate None (new_mock 4) small_model ''hi'' 5 =
      Inr \<lparr>completion_text = ''[small] response to '', completion_in = 1, completion_out = 5, completion_model = ''small''\<rparr>"
    by code_simp
  from mock_stream_is_generate [OF f(2,1) g] show ?thesis by auto
qed

text \<open>An injected failure is a prefix: the first \<open>k\<close> pieces of the same text, then the exception.\<close>

theorem mock_failure_is_a_prefix:
  assumes "0 < chunk_chars M" "fail_after_chunks M = Some k" "0 \<le> k" "nap M m = Inr ()"
    and "mock_body tk M m p mx = Inr txt" "k * chunk_chars M < int (length txt)"
  shows "\<exists>ps. mock_stream tk M m p mx =
      (map text_chunk ps, Some (case raise_error M of None \<Rightarrow> ProviderError | Some x \<Rightarrow> x)) \<and>
    length ps = nat k \<and> concat ps = take (nat k * nat (chunk_chars M)) txt"
proof -
  define c where "c = nat (chunk_chars M)"
  have c: "0 < c" using assms(1) by (simp add: c_def)
  let ?n = "(length txt + c - 1) div c"
  have "int (nat k * c) < int (length txt)" using assms(1,3,6) by (simp add: c_def)
  then have "nat k * c < length txt" by (simp only: of_nat_less_iff)
  then have less: "nat k < ?n" using ceil_covers [OF c, of "length txt"] c
    by (metis leD le_less_trans mult_le_mono1 not_le_imp_less order_less_le_trans)
  note loop = mock_loop_whole [OF assms(4,1), of "txt", folded c_def]
  have "mock_stream tk M m p mx = (map text_chunk (pieces_from c 0 (nat k) txt),
      Some (case raise_error M of None \<Rightarrow> ProviderError | Some x \<Rightarrow> x))"
    unfolding mock_stream_def assms(5) sum.case loop assms(2) option.case prod.case using less by simp
  moreover have "length (pieces_from c 0 (nat k) txt) = nat k" by (simp add: pieces_from_def)
  ultimately show ?thesis using concat_pieces [of c "nat k" "txt"] by (auto simp: c_def)
qed

theorem mock_failure_is_a_prefix_witness:
  "\<exists>ps. mock_stream None ((new_mock 4)\<lparr>fail_after_chunks := Some 1, raise_error := Some ProviderTimeoutError\<rparr>)
     small_model ''hi'' 5 = (map text_chunk ps, Some ProviderTimeoutError) \<and> length ps = 1"
proof -
  let ?M = "(new_mock 4)\<lparr>fail_after_chunks := Some 1, raise_error := Some ProviderTimeoutError\<rparr>"
  have b: "mock_body None ?M small_model ''hi'' 5 = Inr ''[small] response to ''" by code_simp
  have "nap ?M small_model = Inr ()" "0 < chunk_chars ?M" by (simp_all add: nap_def new_mock_def)
  with mock_failure_is_a_prefix [of ?M 1, OF _ _ _ _ b] show ?thesis by (auto simp: new_mock_def)
qed

end
