(* ===== verification/Consumption.thy ===== *)
theory Consumption
  imports Streaming VLLM Mock
begin

text \<open>
  Providers and the streaming path put together: the generator of \<open>handle_stream\<close>, read by a client that takes
  every event, fed with what a provider's \<open>generate_stream\<close> yields (\<open>mock_stream\<close>, \<open>vllm_stream\<close>): its chunks,
  then its end or the exception it raises.
\<close>

definition consume :: "stream_chunk list \<Rightarrow> exc option \<Rightarrow> stream_input list" where
  "consume cs x = Pulled # concat (map (\<lambda>c. if chunk_text c = [] then [Chunk c] else [Chunk c, Pulled]) cs) @
     [case x of None \<Rightarrow> Exhausted | Some y \<Rightarrow> Raised y, Pulled]"

text \<open>The usage reported last.\<close>

definition reported :: "usage option \<Rightarrow> stream_chunk list \<Rightarrow> usage option" where
  "reported u cs = fold (\<lambda>c u. case chunk_usage c of None \<Rightarrow> u | Some v \<Rightarrow> Some v) cs u"

lemma reported_snoc [simp]: "chunk_usage c = Some v \<Longrightarrow> reported u (cs @ [c]) = Some v"
  by (simp add: reported_def)

lemma stream_exec_append:
  "stream_exec e s d (is @ js) st = Option.bind (stream_exec e s d is st) (stream_exec e s d js)"
  by (induction "is" arbitrary: st) (auto split: option.split)

lemma stream_exec_chunks:
  assumes "suspended_at st = AtProvider"
  shows "stream_exec e s d (concat (map (\<lambda>c. if chunk_text c = [] then [Chunk c] else [Chunk c, Pulled]) cs)) st =
    Some (st\<lparr>pieces := pieces st @ filter (\<lambda>p. p \<noteq> []) (map chunk_text cs), last_usage := reported (last_usage st) cs,
      emitted := emitted st @ map DeltaEvent (filter (\<lambda>p. p \<noteq> []) (map chunk_text cs))\<rparr>)"
  using assms
proof (induction cs arbitrary: st)
  case Nil
  then show ?case by (simp add: reported_def)
next
  case (Cons c cs)
  let ?st = "st\<lparr>pieces := pieces st @ filter (\<lambda>p. p \<noteq> []) [chunk_text c], last_usage := reported (last_usage st) [c],
      emitted := emitted st @ map DeltaEvent (filter (\<lambda>p. p \<noteq> []) [chunk_text c])\<rparr>"
  have "stream_exec e s d (if chunk_text c = [] then [Chunk c] else [Chunk c, Pulled]) st = Some ?st"
    using Cons.prems by (cases "chunk_usage c") (auto simp: take_chunk_def yield_event_def reported_def Let_def)
  moreover have "suspended_at ?st = AtProvider" using Cons.prems by simp
  ultimately show ?case using Cons.IH [of ?st] by (simp add: stream_exec_append reported_def)
qed

lemma concat_nonempty: "concat (filter (\<lambda>p. p \<noteq> []) ps) = concat ps"
  by (induction ps) auto

lemma final_usage_update [simp]:
  "Streaming.final_usage e s d (st\<lparr>suspended_at := a\<rparr>) = Streaming.final_usage e s d st"
  "Streaming.final_usage e s d (st\<lparr>completed := b\<rparr>) = Streaming.final_usage e s d st"
  "Streaming.final_usage e s d (st\<lparr>emitted := evs\<rparr>) = Streaming.final_usage e s d st"
  by (cases "last_usage st"; simp add: Streaming.final_usage_def)+

text \<open>Read to the end, whatever the provider yields.\<close>

lemma consumed:
  assumes "chars_per_token s \<noteq> 0"
  obtains st u where "stream_exec e s d (consume cs x) (open_stream d) = Some st" "suspended_at st = Settling u"
    "pieces st = filter (\<lambda>p. p \<noteq> []) (map chunk_text cs)" "last_usage st = reported None cs"
    "Streaming.final_usage e s d st = Inr u"
    "emitted st = emitted (open_stream d) @ map DeltaEvent (pieces st) @
       [case x of None \<Rightarrow> end_event d u | Some y \<Rightarrow> ErrorEvent y]"
proof -
  define st where "st = (open_stream d)\<lparr>suspended_at := AtProvider,
      pieces := filter (\<lambda>p. p \<noteq> []) (map chunk_text cs), last_usage := reported None cs,
      emitted := emitted (open_stream d) @ map DeltaEvent (filter (\<lambda>p. p \<noteq> []) (map chunk_text cs))\<rparr>"
  have run: "stream_exec e s d (consume cs x) (open_stream d) =
      stream_exec e s d [case x of None \<Rightarrow> Exhausted | Some y \<Rightarrow> Raised y, Pulled] st"
    by (simp add: consume_def stream_exec_append stream_exec_chunks open_stream_def yield_event_def st_def)
  obtain u where u: "Streaming.final_usage e s d st = Inr u"
    using count_tokens_total [OF assms, of "tokenizer e" "concat (pieces st)"]
    by (cases "last_usage st") (auto simp: Streaming.final_usage_def)
  let ?ev = "case x of None \<Rightarrow> end_event d u | Some y \<Rightarrow> ErrorEvent y"
  let ?st = "st\<lparr>suspended_at := Settling u, completed := (x = None), emitted := emitted st @ [?ev]\<rparr>"
  have c: "completed st = False" "suspended_at st = AtProvider" by (simp_all add: st_def open_stream_def yield_event_def)
  have "stream_exec e s d (consume cs x) (open_stream d) = Some ?st"
    unfolding run using u c
    by (cases x) (simp_all add: provider_done_def stream_raised_def yield_event_def finalize_def Let_def)
  moreover have "Streaming.final_usage e s d ?st = Inr u" using u by simp
  moreover have "pieces ?st = filter (\<lambda>p. p \<noteq> []) (map chunk_text cs)" "last_usage ?st = reported None cs"
    "emitted ?st = emitted (open_stream d) @ map DeltaEvent (pieces ?st) @ [?ev]"
    by (simp_all add: st_def)
  ultimately show ?thesis by (intro that [of ?st u]) simp_all
qed

lemma provider_returned_result:
  obtains res rv' sv' where "provider_returned e s sv r rv d a = (Finish (Inr res), rv', sv')"
    "result_text res = completion_text a"
proof -
  obtain out rv' sv' where o: "provider_returned e s sv r rv d a = (out, rv', sv')" by (metis prod_cases3)
  then have "\<exists>res. out = Finish (Inr res) \<and> result_text res = completion_text a"
    by (auto simp: provider_returned_def Let_def split: prod.splits)
  with o that show ?thesis by blast
qed

section \<open>Properties\<close>

text \<open>C12. Every stream of the vLLM adapter is delivered and billed, whatever the server does. When the adapter's
  generator ends, the client gets the text of the chunks and an end event, and the bill is the usage that the server
  reported last in the data frames of the answered request, before its end mark; when it reported none, the
  adapter's estimate, from the prompt and the text sent. When the generator raises, the client gets the text that
  was sent and the error, and the bill is the service's count of that text beside the input tokens of the routing decision.\<close>

theorem vllm_streams_are_billed:
  assumes "chars_per_token s \<noteq> 0" "0 < max_retries V" "vllm_stream iot loads tk V server p = ((cs, x), n)"
  shows "\<exists>st u. stream_exec e s d (consume cs x) (open_stream d) = Some st \<and> suspended_at st = Settling u \<and>
    concat (map delta_text (emitted st)) = concat (map chunk_text cs) \<and>
    (case x of
       None \<Rightarrow> last (emitted st) = end_event d u \<and>
         (\<exists>status ls le. server (n - 1) = StreamOpen status ls le \<and>
            adapter_usage tk V p (server_count iot loads ls) (concat (map chunk_text cs)) u)
     | Some y \<Rightarrow> last (emitted st) = ErrorEvent y \<and> usage_in u = Router.input_tokens d \<and>
         count_tokens (tokenizer e) (concat (map chunk_text cs)) (chars_per_token s) = Inr (usage_out u))"
proof -
  obtain st u where st: "stream_exec e s d (consume cs x) (open_stream d) = Some st" "suspended_at st = Settling u"
    "pieces st = filter (\<lambda>p. p \<noteq> []) (map chunk_text cs)" "last_usage st = reported None cs"
    "Streaming.final_usage e s d st = Inr u"
    "emitted st = emitted (open_stream d) @ map DeltaEvent (pieces st) @ [case x of None \<Rightarrow> end_event d u | Some y \<Rightarrow> ErrorEvent y]"
    by (rule consumed [OF assms(1)])
  have t: "concat (map delta_text (emitted st)) = concat (map chunk_text cs)"
    using stream_deltas [OF stream_exec_run [OF run_open st(1)]] st(3) by (simp add: concat_nonempty)
  show ?thesis
  proof (cases x)
    case None
    obtain rd c status ls le where rd: "reading_ok rd" "cs = sent rd @ [c]" "last_chunk tk V p rd = Some c"
      "server (n - 1) = StreamOpen status ls le" "VLLM.final_usage rd = server_count iot loads ls"
      by (rule vllm_stream_ends [OF assms(2) assms(3) [unfolded None]])
    from last_chunk_usage [OF rd(3,1)] obtain v where v: "chunk_usage c = Some v"
      "adapter_usage tk V p (server_count iot loads ls) (concat (map chunk_text (sent rd))) v"
      unfolding rd(5) by blast
    have "chunk_text c = []" using last_chunk_final [OF rd(3)] by auto
    moreover have "u = v" using st(4,5) v(1) by (simp add: rd(2) Streaming.final_usage_def)
    ultimately have "adapter_usage tk V p (server_count iot loads ls) (concat (map chunk_text cs)) u"
      using v(2) by (simp add: rd(2))
    with rd(4) st t show ?thesis by (auto simp: None)
  next
    case (Some y)
    have "reported w cs = w" for w
      using vllm_stream_breaks [OF assms(2) assms(3) [unfolded Some]] by (induction cs) (auto simp: reported_def)
    with st(4,5) have "count_tokens (tokenizer e) (concat (pieces st)) (chars_per_token s) = Inr (usage_out u) \<and>
        usage_in u = Router.input_tokens d"
      by (auto simp: Streaming.final_usage_def bind_result_Inr_iff)
    with st t show ?thesis by (auto simp: Some concat_nonempty)
  qed
qed

text \<open>A server that reports 3 and 1 tokens is billed for.\<close>

theorem vllm_streams_are_billed_witness:
  "\<exists>loads V server cs. vllm_stream (\<lambda>_. None) loads None V server ''p'' = ((cs, None), 1) \<and>
     (\<forall>e d. \<exists>st. stream_exec e default_settings d (consume cs None) (open_stream d) = Some st \<and>
        suspended_at st = Settling \<lparr>usage_in = 3, usage_out = 1\<rparr>)"
proof -
  let ?V = "new_vllm ''http://h/'' None [] 1 (1/2) 4"
  let ?b = "JObj [(''usage'', JObj [(''prompt_tokens'', JInt 3), (''completion_tokens'', JInt 1)])]"
  let ?loads = "\<lambda>t. if t = ''b'' then Some ?b else None"
  let ?ls = "[''data: b'', ''data: [DONE]'']"
  let ?srv = "\<lambda>k :: nat. StreamOpen 200 ?ls EndOfBody"
  let ?u = "\<lparr>usage_in = 3, usage_out = 1\<rparr>"
  let ?cs = "[\<lparr>chunk_text = [], finish_reason = Some ''stop'', chunk_usage = Some ?u\<rparr>]"
  have f: "parse_sse_line ?loads ''data: b'' = DataFrame ?b" "parse_sse_line ?loads ''data: [DONE]'' = DoneFrame"
    by code_simp+
  have u: "usage_from (\<lambda>_. None) ?b = Inr (Some ?u)"
    by (simp add: usage_from_def get_field_def bind_result_def int_or_zero_def)
  have v: "vllm_stream (\<lambda>_. None) ?loads None ?V ?srv ''p'' = ((?cs, None), 1)"
    by (simp add: vllm_stream_def new_vllm_def stream_attempt_def RETRYABLE_STATUS_def f new_reading_def take_frame_def
        take_choice_def get_field_def bind_result_def first_of_def text_of_choice_def usage_from_def int_or_zero_def
        or_else_def take_usage_def finish_stream_def last_chunk_def Let_def)
  have c: "chars_per_token default_settings \<noteq> 0" "0 < max_retries ?V" by (simp_all add: default_settings_def new_vllm_def)
  have n: "server_count (\<lambda>_. None) ?loads ?ls = Some ?u" by (simp add: server_count_def f later_count_def u)
  have "\<exists>st. stream_exec e default_settings d (consume ?cs None) (open_stream d) = Some st \<and> suspended_at st = Settling ?u"
    for e d
    using vllm_streams_are_billed [OF c v, of e d] n by (auto simp: adapter_usage_def)
  with v show ?thesis by blast
qed

text \<open>A stream costs what the buffered call costs: with the mock provider, which answers both ways, the end event of
  the stream announces the tokens, the price and the text that the buffered call would have been billed for.\<close>

theorem stream_costs_what_the_call_costs:
  assumes "chars_per_token s \<noteq> 0" "0 < chunk_chars M" "fail_after_chunks M = None" "mock_generate tk M m p mx = Inr a"
    and "mock_stream tk M m p mx = (cs, x)" "provider_returned e s sv r rv d a = (Finish (Inr res), rv', sv')"
  shows "\<exists>st. stream_exec e s d (consume cs x) (open_stream d) = Some st \<and>
    last (emitted st) = EndEvent (result_model res) (result_in res) (result_out res) (result_cost_usd res)
      (result_downgraded res) False \<and>
    concat (map delta_text (emitted st)) = result_text res"
proof -
  from mock_stream_pieces [OF assms(2-4)] assms(5) obtain ps where ps: "x = None" "concat ps = completion_text a"
    "cs = map text_chunk ps @ [\<lparr>chunk_text = [], finish_reason = Some ''stop'',
        chunk_usage = Some \<lparr>usage_in = completion_in a, usage_out = completion_out a\<rparr>\<rparr>]"
    by auto
  obtain st u where st: "stream_exec e s d (consume cs x) (open_stream d) = Some st" "suspended_at st = Settling u"
    "pieces st = filter (\<lambda>p. p \<noteq> []) (map chunk_text cs)" "last_usage st = reported None cs"
    "Streaming.final_usage e s d st = Inr u"
    "emitted st = emitted (open_stream d) @ map DeltaEvent (pieces st) @ [case x of None \<Rightarrow> end_event d u | Some y \<Rightarrow> ErrorEvent y]"
    by (rule consumed [OF assms(1)])
  have u: "u = \<lparr>usage_in = completion_in a, usage_out = completion_out a\<rparr>"
    using st(4,5) by (simp add: ps(3) Streaming.final_usage_def)
  have "map chunk_text cs = ps @ [[]]" by (simp add: ps(3) text_chunk_def comp_def)
  then have "concat (map delta_text (emitted st)) = completion_text a"
    using stream_deltas [OF stream_exec_run [OF run_open st(1)]] st(3) ps(2) by (simp add: concat_nonempty)
  moreover have "last (emitted st) = EndEvent (name (Router.model d)) (completion_in a) (completion_out a)
      (round_dec 6 (cost (Router.model d) (completion_in a) (completion_out a))) (downgraded d) False"
    by (simp add: st(6) ps(1) u end_event_def)
  ultimately show ?thesis
    using assms(6) st(1) by (auto simp: provider_returned_def Let_def split: prod.splits)
qed

theorem stream_costs_what_the_call_costs_witness:
  "\<forall>e d. \<exists>st. stream_exec e default_settings d (consume (fst (mock_stream None (new_mock 4) small_model ''hi'' 5)) None)
       (open_stream d) = Some st \<and> concat (map delta_text (emitted st)) = ''[small] response to ''"
proof (intro allI, goal_cases)
  case (1 e d)
  let ?a = "\<lparr>completion_text = ''[small] response to '', completion_in = 1, completion_out = 5, completion_model = ''small''\<rparr>"
  have g: "mock_generate None (new_mock 4) small_model ''hi'' 5 = Inr ?a" by code_simp
  have n: "snd (mock_stream None (new_mock 4) small_model ''hi'' 5) = None" by code_simp
  then have m: "mock_stream None (new_mock 4) small_model ''hi'' 5 =
      (fst (mock_stream None (new_mock 4) small_model ''hi'' 5), None)"
    by (metis prod.collapse)
  have f: "chars_per_token default_settings \<noteq> 0" "0 < chunk_chars (new_mock 4)" "fail_after_chunks (new_mock 4) = None"
    by (simp_all add: default_settings_def new_mock_def)
  let ?rv = "\<lparr>res_user = [], res_amount = 1, res_created_at = 0, res_id = [], res_closed = False\<rparr>"
  let ?r = "\<lparr>prompt = ''hi'', user_id = [], task_type = None, max_output_tokens = None, budget_usd = None,
    user_daily_budget_usd = None, force_model = None\<rparr>"
  obtain res rv' sv' where "provider_returned e default_settings (new_service default_settings) ?r ?rv d ?a =
      (Finish (Inr res), rv', sv')" "result_text res = completion_text ?a"
    by (rule provider_returned_result)
  with stream_costs_what_the_call_costs [OF f g m] show ?case
    by (metis completion.select_convs(1))
qed

end
