(* ===== verification/Http.thy ===== *)
theory Http
  imports Streaming VLLM
begin

text \<open>
  \<open>app/main.py\<close>: the HTTP surface. Domain exceptions become statuses by the table \<open>STATUS_MAP\<close>; the endpoints
  are functions from what the service's methods return to what the client gets; \<open>sse\<close> writes the events of a
  stream as server-sent events. FastAPI, which parses requests and writes responses, is outside the
  repository. The text of a message (\<open>str(e)\<close>) and of a routing note are the parameters \<open>detail\<close> and
  \<open>note_text\<close> here (Messages defines both), \<open>json.dumps\<close> is \<open>dumps\<close>.
\<close>

section \<open>Exceptions and statuses\<close>

text \<open>\<open>type(e).__name__\<close>, and the classes an exception of that class is an instance of, below \<open>Exception\<close>.\<close>

fun class_name :: "exc \<Rightarrow> string" where
  "class_name (BudgetExceededError c b) = ''BudgetExceededError''"
| "class_name ContextTooLargeError = ''ContextTooLargeError''"
| "class_name NoModelAvailableError = ''NoModelAvailableError''"
| "class_name (ValueError v) = (if v = NotJson then ''JSONDecodeError'' else ''ValueError'')"
| "class_name (UserBudgetExceededError u c l a) = ''UserBudgetExceededError''"
| "class_name LedgerUnavailableError = ''LedgerUnavailableError''"
| "class_name (RateLimitExceededError u d) = ''RateLimitExceededError''"
| "class_name (CircuitOpenError n d) = ''CircuitOpenError''"
| "class_name (AdmissionTimeoutError w) = ''AdmissionTimeoutError''"
| "class_name ProviderError = ''ProviderError''"
| "class_name ProviderTimeoutError = ''ProviderTimeoutError''"
| "class_name ProviderUnavailableError = ''ProviderUnavailableError''"
| "class_name ZeroDivisionError = ''ZeroDivisionError''"
| "class_name (OtherError n) = n"

definition superclasses :: "string \<Rightarrow> string list" where
  "superclasses n =
     (if n = ''ProviderTimeoutError'' \<or> n = ''ProviderUnavailableError'' then [n, ''ProviderError'']
      else if n = ''JSONDecodeError'' then [n, ''ValueError'']
      else [n])"

definition is_instance :: "exc \<Rightarrow> string \<Rightarrow> bool" where
  "is_instance x c \<longleftrightarrow> c \<in> set (superclasses (class_name x))"

definition STATUS_MAP :: "(string \<times> int) list" where
  "STATUS_MAP =
    [(''BudgetExceededError'', 402),
     (''UserBudgetExceededError'', 429),
     (''RateLimitExceededError'', 429),
     (''ContextTooLargeError'', 413),
     (''LedgerUnavailableError'', 503),
     (''AdmissionTimeoutError'', 503),
     (''CircuitOpenError'', 503),
     (''NoModelAvailableError'', 503),
     (''ProviderTimeoutError'', 504),
     (''ProviderUnavailableError'', 503),
     (''ProviderError'', 502),
     (''ValueError'', 400)]"

definition status_for :: "exc \<Rightarrow> int option" where
  "status_for x = map_option snd (List.find (\<lambda>(c, st). is_instance x c) STATUS_MAP)"

text \<open>\<open>_RETRY_AFTER_ATTR\<close> and the header.\<close>

fun retry_seconds :: "exc \<Rightarrow> delay option" where
  "retry_seconds (RateLimitExceededError u d) = Some d"
| "retry_seconds (CircuitOpenError n s) = Some (Finite s)"
| "retry_seconds x = None"

definition retry_after_of :: "f64 \<Rightarrow> int" where
  "retry_after_of s = max 1 (py_int s + 1)"

record http_exception =
  status_code :: int
  headers :: "(string \<times> string) list"

text \<open>\<open>_as_http\<close>, which raises the exception again when the table has no status for it.\<close>

definition as_http :: "exc \<Rightarrow> (exc, http_exception) result" where
  "as_http x =
     (case status_for x of
        None \<Rightarrow> Inl x
      | Some st \<Rightarrow> Inr \<lparr>status_code = st, headers = (case retry_seconds x of
            Some (Finite s) \<Rightarrow> [(''retry-after'', show_int (retry_after_of s))]
          | _ \<Rightarrow> [])\<rparr>)"

section \<open>Endpoints\<close>

text \<open>What a client gets: an answer, an error with its status, or the server's own 500 for an exception that
  escapes.\<close>

datatype 'a answer =
    Answer 'a
  | Refusal http_exception
  | Crash exc

definition answer_of :: "(exc, 'a) result \<Rightarrow> 'a answer" where
  "answer_of r =
     (case r of
        Inr v \<Rightarrow> Answer v
      | Inl x \<Rightarrow> (case as_http x of Inr h \<Rightarrow> Refusal h | Inl x \<Rightarrow> Crash x))"

text \<open>\<open>POST /v1/infer\<close>, \<open>GET /v1/usage\<close>, \<open>GET /healthz\<close>, and \<open>GET /readyz\<close> with what the ledger answers for the
  user \<open>__readyz__\<close>.\<close>

definition infer :: "(exc, inference_result) result \<Rightarrow> inference_result answer" where
  "infer r = answer_of r"

definition usage_endpoint :: "(exc, (string \<times> f64) list) result \<Rightarrow> (string \<times> f64) list answer" where
  "usage_endpoint r = answer_of r"

definition healthz :: "service \<Rightarrow> int" where
  "healthz sv = replicas (autoscaler sv)"

definition readyz :: "service \<Rightarrow> (exc, f64) result \<Rightarrow> int answer" where
  "readyz sv r =
     (case r of
        Inl x \<Rightarrow> Refusal \<lparr>status_code = 503, headers = []\<rparr>
      | Inr v \<Rightarrow> Answer (replicas (autoscaler sv)))"

fun tier_name :: "complexity \<Rightarrow> string" where
  "tier_name SIMPLE = ''SIMPLE''"
| "tier_name MODERATE = ''MODERATE''"
| "tier_name COMPLEX = ''COMPLEX''"

text \<open>\<open>GET /v1/models\<close>\<close>

definition models_endpoint :: "settings \<Rightarrow> json" where
  "models_endpoint s = JObj [(''models'', JList (map (\<lambda>m. JObj
     [(''name'', JStr (name m)), (''provider'', JStr (provider m)), (''tier'', JStr (tier_name (tier m))),
      (''input_price_per_1k'', JFloat (input_price_per_1k m)),
      (''output_price_per_1k'', JFloat (output_price_per_1k m)),
      (''max_context_tokens'', JInt (max_context_tokens m))]) (catalog s)))]"

text \<open>\<open>POST /v1/route/explain\<close>: a decision without a reservation.\<close>

record explanation =
  ex_model :: string
  ex_complexity :: complexity
  ex_score :: f64
  ex_reasons :: "reason list"
  ex_input_tokens :: int
  ex_output_tokens :: int
  ex_cost_usd :: f64
  ex_downgraded :: bool
  ex_notes :: "routing_note list"

definition route_explain :: "tokenizer \<Rightarrow> settings \<Rightarrow> request \<Rightarrow> explanation answer" where
  "route_explain tk s r = answer_of (bind_result
     (route tk (prompt r) s (task_type r) (max_output_tokens r) (budget_usd r) (force_model r) {}) (\<lambda>d.
       Inr \<lparr>ex_model = name (Router.model d), ex_complexity = result_tier (complexity d),
         ex_score = round_dec 4 (score (complexity d)), ex_reasons = reasons (complexity d),
         ex_input_tokens = Router.input_tokens d, ex_output_tokens = projected_output_tokens d,
         ex_cost_usd = round_dec 6 (projected_cost d), ex_downgraded = downgraded d, ex_notes = decision_notes d\<rparr>))"

text \<open>\<open>GET /v1/status\<close>; \<open>GET /metrics\<close> first records the depth of the queue.\<close>

record status_snapshot =
  st_replicas :: int
  st_capacity :: int
  st_in_flight :: int
  st_queue_depth :: int
  st_cache_hit_rate :: f64
  st_circuits :: "(string \<times> breaker_state) list"
  st_open_circuits :: "string list"
  st_shed :: int
  st_rate_limited :: int
  st_failovers :: int

definition status_endpoint :: "service \<Rightarrow> status_snapshot" where
  "status_endpoint sv = \<lparr>st_replicas = replicas (autoscaler sv), st_capacity = capacity (gate sv),
     st_in_flight = active (gate sv), st_queue_depth = waiting (gate sv),
     st_cache_hit_rate = cache_hit_rate (metrics sv), st_circuits = states (breakers sv),
     st_open_circuits = open_backends (breakers sv), st_shed = total_shed (metrics sv),
     st_rate_limited = total_rate_limited (metrics sv), st_failovers = total_failovers (metrics sv)\<rparr>"

definition metrics_endpoint :: "service \<Rightarrow> (string \<times> metric_value) list \<times> service" where
  "metrics_endpoint sv =
     (let sv = count (\<lambda>m. set_queue_depth m (waiting (gate sv))) sv in (snapshot (metrics sv), sv))"

section \<open>Streaming\<close>

text \<open>\<open>POST /v1/infer/stream\<close> pulls the first event before it answers: what admission refuses gets its status, and
  only a stream that has started is answered with 200.\<close>

definition first_event :: "settings \<Rightarrow> arrival \<Rightarrow> bool \<Rightarrow> (exc, stream_event) result" where
  "first_event s a admitted =
     (case a of
        Refused x \<Rightarrow> Inl x
      | FromCache r \<Rightarrow> Inr (StartEvent (result_model r) (result_complexity r) (result_downgraded r) True (result_notes r) 0)
      | Holding d rv \<Rightarrow>
          if admitted then Inr (hd (emitted (open_stream d)))
          else Inl (AdmissionTimeoutError (admission_timeout_s s)))"

definition infer_stream :: "(exc, stream_event) result \<Rightarrow> stream_event answer" where
  "infer_stream first = answer_of first"

text \<open>An event as JSON: its type, its text if any, then its data.\<close>

fun event_type :: "stream_event \<Rightarrow> string" where
  "event_type (StartEvent m c g ca ns p) = ''start''"
| "event_type (DeltaEvent t) = ''delta''"
| "event_type (EndEvent m i out c g ca) = ''end''"
| "event_type (ErrorEvent x) = ''error''"

fun event_data :: "(routing_note \<Rightarrow> string) \<Rightarrow> (exc \<Rightarrow> string) \<Rightarrow> stream_event \<Rightarrow> (string \<times> json) list" where
  "event_data note_text detail (StartEvent m c g ca ns p) =
     [(''model'', JStr m), (''complexity'', JStr (tier_name c)), (''downgraded'', JBool g), (''cached'', JBool ca),
      (''routing_notes'', JList (map (\<lambda>n. JStr (note_text n)) ns)), (''projected_cost_usd'', JFloat p)]"
| "event_data note_text detail (DeltaEvent t) = []"
| "event_data note_text detail (EndEvent m i out c g ca) =
     [(''model'', JStr m), (''input_tokens'', JInt i), (''output_tokens'', JInt out), (''cost_usd'', JFloat c),
      (''downgraded'', JBool g), (''cached'', JBool ca)]"
| "event_data note_text detail (ErrorEvent x) = [(''error'', JStr (class_name x)), (''detail'', JStr (detail x))]"

definition sse_payload :: "(routing_note \<Rightarrow> string) \<Rightarrow> (exc \<Rightarrow> string) \<Rightarrow> stream_event \<Rightarrow> json" where
  "sse_payload note_text detail ev = JObj ((''type'', JStr (event_type ev)) #
     (if delta_text ev \<noteq> [] then [(''text'', JStr (delta_text ev))] else []) @ event_data note_text detail ev)"

definition nl :: char where "nl = CHR 0x0A"

definition sse :: "(json \<Rightarrow> string) \<Rightarrow> json \<Rightarrow> string" where
  "sse dumps payload = ''data: '' @ dumps payload @ [nl, nl]"

text \<open>The body for a client that reads to the end: the events, then the end mark, also after an exception.\<close>

definition sse_body :: "(json \<Rightarrow> string) \<Rightarrow> json list \<Rightarrow> string" where
  "sse_body dumps payloads = concat (map (sse dumps) payloads) @ ''data: [DONE]'' @ [nl, nl]"

section \<open>Facts\<close>

lemmas status_eval = status_for_def STATUS_MAP_def is_instance_def superclasses_def

lemma class_status:
  "status_for (BudgetExceededError c b) = Some 402" "status_for (UserBudgetExceededError u c l a) = Some 429"
  "status_for (RateLimitExceededError u d) = Some 429" "status_for ContextTooLargeError = Some 413"
  "status_for LedgerUnavailableError = Some 503" "status_for (AdmissionTimeoutError w) = Some 503"
  "status_for (CircuitOpenError n s) = Some 503" "status_for NoModelAvailableError = Some 503"
  "status_for ProviderTimeoutError = Some 504" "status_for ProviderUnavailableError = Some 503"
  "status_for ProviderError = Some 502" "status_for (ValueError v) = Some 400"
  "status_for ZeroDivisionError = None"
  by (simp_all add: status_eval)

lemma answer_status: "status_for x = Some st \<Longrightarrow> \<exists>h. as_http x = Inr h \<and> status_code h = st"
  by (simp add: as_http_def)

lemma answer_refusal [simp]: "as_http x = Inr h \<Longrightarrow> answer_of (Inl x) = Refusal h"
  by (simp add: answer_of_def)

lemma py_int_bounds: "0 \<le> s \<Longrightarrow> s < of_int (py_int s) + 1 \<and> of_int (py_int s) \<le> s"
  by (simp add: py_int_def) linarith

lemma retry_after_bounds: "0 \<le> s \<Longrightarrow> s < of_int (retry_after_of s) \<and> of_int (retry_after_of s) \<le> s + 1 \<and> 1 \<le> retry_after_of s"
proof -
  assume s: "0 \<le> s"
  then have "retry_after_of s = py_int s + 1" by (simp add: retry_after_of_def py_int_def)
  with py_int_bounds [OF s] s show ?thesis by (simp add: py_int_def)
qed

lemma route_by_tier_error:
  "route_by_tier ms c inp out b = Inl x \<Longrightarrow>
     (\<exists>v. x = ValueError v) \<or> x = ContextTooLargeError \<or> (\<exists>c b. x = BudgetExceededError c b)"
  by (auto simp: route_by_tier_def bind_result_Inl_iff Let_def split: list.splits if_splits option.splits)

lemma route_forced_error:
  "route_forced ms f c inp out b = Inl x \<Longrightarrow>
     (\<exists>v. x = ValueError v) \<or> x = ContextTooLargeError \<or> (\<exists>c b. x = BudgetExceededError c b)"
  by (auto simp: route_forced_def bind_result_Inl_iff split: if_splits option.splits)

text \<open>Every way in which routing raises.\<close>

lemma route_error:
  assumes "route tk p s ty mx bu fm ex = Inl x"
  shows "(\<exists>v. x = ValueError v) \<or> x = ContextTooLargeError \<or> (\<exists>c b. x = BudgetExceededError c b) \<or>
    x = NoModelAvailableError \<or> x = ZeroDivisionError \<and> chars_per_token s = 0"
proof -
  from assms consider
      "estimate_complexity tk p ty mx (chars_per_token s) = Inl x" | "count_tokens tk p (chars_per_token s) = Inl x"
    | "x = NoModelAvailableError" | ms f c inp out b where "route_forced ms f c inp out b = Inl x"
    | ms c inp out b where "route_by_tier ms c inp out b = Inl x"
    unfolding route_def bind_result_Inl_iff by (auto simp: Let_def split: if_splits option.splits)
  then show ?thesis
  proof cases
    case 1
    then have "count_tokens tk p (chars_per_token s) = Inl x"
      by (auto simp: estimate_complexity_def bind_result_Inl_iff Let_def split: option.splits)
    from count_tokens_error [OF this] show ?thesis by blast
  next
    case 2
    from count_tokens_error [OF this] show ?thesis by blast
  next
    case (4 ms f c inp out b)
    from route_forced_error [OF this] show ?thesis by blast
  next
    case (5 ms c inp out b)
    from route_by_tier_error [OF this] show ?thesis by blast
  qed simp
qed

lemma arrive_refused:
  assumes "arrive e s sv r = (Refused x, sv')"
  shows "(\<exists>u d. x = RateLimitExceededError u d) \<or> (\<exists>u c l a. x = UserBudgetExceededError u c l a) \<or>
    route (tokenizer e) (prompt r) s (task_type r) (max_output_tokens r) (budget_usd r) (force_model r) {} = Inl x"
  using assms
  by (auto simp: arrive_def check_rate_limit_def route_request_def lookup_cache_def reserve_budget_def reserve_def
      RateLimit.check_def Let_def split: prod.splits sum.splits option.splits if_splits)

section \<open>Properties\<close>

text \<open>C35. No refusal of a request is answered as a fault of the server: whatever admission refuses (the rate, the route,
  the budgets) reaches the client of \<open>/v1/infer\<close> and of \<open>/v1/infer/stream\<close> with one and the same client-side
  status, 400, 402, 413 or 429, or with 503 when no model is left or the queue was too long; a stream is
  answered with 200 exactly when its request is admitted or cached.\<close>

theorem refusals_have_a_status:
  assumes "arrive e s sv r = (a, sv')" "chars_per_token s \<noteq> 0"
  shows "(case a of
      Refused x \<Rightarrow> \<exists>h. infer (Inl x) = Refusal h \<and> infer_stream (first_event s a admitted) = Refusal h \<and>
        status_code h \<in> {400, 402, 413, 429, 503}
    | FromCache res \<Rightarrow> \<exists>ev. infer_stream (first_event s a admitted) = Answer ev \<and> is_start ev
    | Holding d rv \<Rightarrow>
        if admitted then \<exists>ev. infer_stream (first_event s a admitted) = Answer ev \<and> is_start ev
        else \<exists>h. infer_stream (first_event s a admitted) = Refusal h \<and> status_code h = 503)"
proof (cases a)
  case (Refused x)
  have "\<exists>st \<in> {400, 402, 413, 429, 503}. status_for x = Some st"
    using arrive_refused [OF assms(1) [unfolded Refused]] route_error assms(2)
    by (elim disjE exE) (auto simp: class_status dest!: route_error)
  then obtain st where st: "st \<in> {400, 402, 413, 429, 503}" "status_for x = Some st" by blast
  from answer_status [OF st(2)] obtain h where "as_http x = Inr h" "status_code h = st" by blast
  with st(1) show ?thesis by (simp add: Refused infer_def infer_stream_def first_event_def)
next
  case (Holding d rv)
  show ?thesis
  proof (cases admitted)
    case False
    from answer_status [OF class_status(6), of "admission_timeout_s s"]
    show ?thesis by (auto simp: Holding False infer_stream_def first_event_def)
  qed (simp add: Holding infer_stream_def first_event_def answer_of_def open_stream_def yield_event_def)
qed (simp add: infer_stream_def first_event_def answer_of_def)

theorem refusals_have_a_status_witness:
  "\<exists>h. infer (Inl (ValueError (UnknownModel ''gpt'')) :: (exc, inference_result) result) = Refusal h \<and>
     status_code h \<in> {400, 402, 413, 429, 503}"
proof -
  let ?e = "\<lparr>tokenizer = None, digest = id, mono = \<lambda>_. 0, wall = \<lambda>_. 0, fresh_id = \<lambda>_. ''a''\<rparr>"
  let ?r = "\<lparr>prompt = ''hi'', user_id = ''u'', task_type = Some ''simple'', max_output_tokens = None, budget_usd = None,
    user_daily_budget_usd = None, force_model = Some ''gpt''\<rparr>"
  have "fst (arrive ?e default_settings (new_service default_settings) ?r) = Refused (ValueError (UnknownModel ''gpt''))"
    by code_simp
  then obtain sv' where a: "arrive ?e default_settings (new_service default_settings) ?r =
      (Refused (ValueError (UnknownModel ''gpt'')), sv')"
    by (metis prod.collapse)
  have c: "chars_per_token default_settings \<noteq> 0" by (simp add: default_settings_def)
  from refusals_have_a_status [OF a c] show ?thesis by auto
qed

lemma is_f64_minus_int:
  assumes "is_f64 x" "0 \<le> x - of_int n" "x \<le> 2 ^ 53" "0 \<le> n"
  shows "is_f64 (x - of_int n)"
proof -
  obtain m k where x: "x = of_int m * 2 powi k" "\<bar>m\<bar> \<le> 2 ^ 53" "- 1074 \<le> k"
    using assms(1) by (auto simp: is_f64_def)
  show ?thesis
  proof (cases "0 \<le> k")
    case True
    then have "x - of_int n = of_int (m * 2 ^ nat k - n)" by (simp add: x(1) power_int_def)
    moreover have "\<bar>m * 2 ^ nat k - n\<bar> \<le> 2 ^ 53"
    proof -
      have "(of_int (m * 2 ^ nat k - n) :: rat) \<le> of_int (2 ^ 53)" "(0 :: rat) \<le> of_int (m * 2 ^ nat k - n)"
        using assms True by (simp_all add: x(1) power_int_def)
      then show ?thesis by (simp only: of_int_le_iff of_int_0_le_iff abs_of_nonneg)
    qed
    ultimately show ?thesis using is_f64_int by metis
  next
    case False
    define q :: int where "q = 2 ^ nat (- k)"
    have q: "of_int q * (2::rat) powi k = 1" using False by (simp add: q_def power_int_def field_simps)
    have e: "x - of_int n = of_int (m - n * q) * 2 powi k"
      using q by (simp add: x(1) left_diff_distrib mult.assoc)
    have pos: "(0::rat) < 2 powi k" by simp
    have "(0 :: rat) \<le> of_int (m - n * q)" using assms(2) pos unfolding e by (simp only: zero_le_mult_iff) auto
    then have "0 \<le> m - n * q" by (simp only: of_int_0_le_iff)
    moreover have "0 \<le> n * q" using assms(4) by (simp add: q_def)
    ultimately have "\<bar>m - n * q\<bar> \<le> 2 ^ 53" using x(2) by linarith
    with e x(3) show ?thesis unfolding is_f64_def by blast
  qed
qed

text \<open>C29. The header \<open>Retry-After\<close> is honest: for a circuit that is open, a client that comes back after the announced
  number of seconds is let through by the circuit's own test (if nothing else was reported meanwhile), in
  spite of the roundings of the code's clock arithmetic; and it is never told to wait more than a second
  longer than the code computed.\<close>

theorem retry_after_is_honest:
  assumes "breaker_state b = OPEN" "fl64 (recovery_timeout_s b) = recovery_timeout_s b" "recovery_timeout_s b \<le> 2 ^ 53"
    and "opened_at b \<le> now" "now + of_int (retry_after_of (retry_after_s now b)) \<le> later"
  shows "fst (allows later b) \<and>
    as_http (CircuitOpenError n (retry_after_s now b)) = Inr \<lparr>status_code = 503,
      headers = [(''retry-after'', show_int (retry_after_of (retry_after_s now b)))]\<rparr> \<and>
    of_int (retry_after_of (retry_after_s now b)) \<le> retry_after_s now b + 1"
proof -
  define R where "R = recovery_timeout_s b"
  define T where "T = now - opened_at b"
  define k where "k = retry_after_of (retry_after_s now b)"
  have s: "retry_after_s now b = max 0 (fsub R (fl64 T))"
    using assms(1) by (simp add: retry_after_s_def R_def T_def fsub_def)
  from retry_after_bounds [of "retry_after_s now b"] s
  have k: "retry_after_s now b < of_int k" "of_int k \<le> retry_after_s now b + 1" "1 \<le> k"
    by (auto simp: k_def)
  have T: "0 \<le> T" "T + of_int k \<le> later - opened_at b" using assms(4,5) by (simp_all add: T_def k_def)
  have "R \<le> fl64 (T + of_int k)"
  proof (rule ccontr)
    assume "\<not> R \<le> fl64 (T + of_int k)"
    then have less: "T + of_int k < R" using flr.ge_repr [of R "T + of_int k"] assms(2) by (force simp: R_def)
    then have kR: "of_int k \<le> (2 ^ 53 :: rat)" using T(1) assms(3) by (simp add: R_def)
    then have "(of_int k :: rat) \<le> of_int (2 ^ 53)" by simp
    then have "k \<le> 2 ^ 53" by (simp only: of_int_le_iff)
    with k(3) have kf: "fl64 (of_int k) = of_int k" by (intro fl64_int) simp
    have "R - fl64 T < of_int k"
    proof (rule ccontr)
      assume "\<not> R - fl64 T < of_int k"
      then have "of_int k \<le> fsub R (fl64 T)" unfolding fsub_def by (intro flr.ge_repr kf) simp
      with k(1) s show False by simp
    qed
    moreover have "is_f64 R" using assms(2) by (simp only: R_def is_f64_iff)
    moreover have "0 \<le> R - of_int k" "0 \<le> k" using less T(1) k(3) by simp_all
    moreover have "R \<le> 2 ^ 53" using assms(3) by (simp only: R_def)
    ultimately have "R - fl64 T < of_int k" "is_f64 (R - of_int k)" using is_f64_minus_int by blast+
    have "fl64 (R - of_int k) = R - of_int k" using \<open>is_f64 (R - of_int k)\<close> by (rule fl64_of_is_f64)
    with fl64_mono [of T "R - of_int k"] less have "fl64 T \<le> R - of_int k" by simp
    with \<open>R - fl64 T < of_int k\<close> show False by simp
  qed
  also have "\<dots> \<le> fsub later (opened_at b)" unfolding fsub_def by (rule fl64_mono [OF T(2)])
  finally have "fst (allows later b)" using assms(1) by (simp add: allows_def R_def)
  with k(2) show ?thesis by (simp add: as_http_def class_status k_def)
qed

theorem retry_after_is_honest_witness:
  "fst (allows (30 + 1 / 2) ((new_breaker ''small'' 5 30)\<lparr>breaker_state := OPEN, opened_at := 0\<rparr>)) \<and>
   as_http (CircuitOpenError ''small'' (retry_after_s (1 / 2) ((new_breaker ''small'' 5 30)\<lparr>breaker_state := OPEN, opened_at := 0\<rparr>)))
     = Inr \<lparr>status_code = 503, headers = [(''retry-after'', ''30'')]\<rparr>"
proof -
  let ?b = "(new_breaker ''small'' 5 30)\<lparr>breaker_state := OPEN, opened_at := 0\<rparr>"
  have k: "retry_after_of (retry_after_s (1 / 2) ?b) = 30" "show_int 30 = ''30''" by code_simp+
  have "fl64 30 = 30" by (rule fl64_numeral) simp
  with retry_after_is_honest [of ?b "1 / 2" "30 + 1 / 2" "''small''"] k show ?thesis
    by (simp add: new_breaker_def)
qed

section \<open>Server-sent events, written and read\<close>

lemma py_split_line: "c \<notin> set l \<Longrightarrow> py_split c (l @ c # rest) = l # py_split c rest"
  by (induction l) auto

lemma py_strip_id: "s \<noteq> [] \<Longrightarrow> \<not> is_space (hd s) \<Longrightarrow> \<not> is_space (last s) \<Longrightarrow> py_strip s = s"
proof -
  assume a: "s \<noteq> []" "\<not> is_space (hd s)" "\<not> is_space (last s)"
  then have "dropWhile is_space s = s" by (cases s) auto
  moreover have "dropWhile is_space (rev s) = rev s" using a(1,3) by (cases s rule: rev_cases) auto
  ultimately show ?thesis by (simp add: py_strip_def)
qed

lemma py_strip_blank: "py_strip (CHR '' '' # s) = py_strip s"
  by (simp add: py_strip_def is_space_def code_point_def)

lemma sse_chars: "\<not> is_space (CHR ''{'')" "\<not> is_space (CHR ''}'')" "\<not> is_space (CHR ''d'')" "\<not> is_space (CHR '']'')"
  by (simp_all add: is_space_def code_point_def)

text \<open>What \<open>json.dumps\<close> writes for an object: braces around, and no line feed.\<close>

definition one_line_object :: "string \<Rightarrow> bool" where
  "one_line_object d \<longleftrightarrow> d \<noteq> [] \<and> hd d = CHR ''{'' \<and> last d = CHR ''}'' \<and> nl \<notin> set d"

lemma parse_data_line:
  assumes "one_line_object d" "loads d = Some (JObj kvs)"
  shows "parse_sse_line loads (''data: '' @ d) = DataFrame (JObj kvs)"
proof -
  have d: "d \<noteq> []" "hd d = CHR ''{''" "last d = CHR ''}''" using assms(1) by (auto simp: one_line_object_def)
  then have a: "py_strip (''data: '' @ d) = ''data: '' @ d" by (intro py_strip_id) (simp_all add: sse_chars)
  have b: "py_strip (CHR '' '' # d) = d"
    unfolding py_strip_blank using d by (intro py_strip_id) (simp_all add: sse_chars)
  have c: "d \<noteq> ''[DONE]''" using d(2) by auto
  show ?thesis
    unfolding parse_sse_line_def Let_def a by (simp add: starts_with_def b c assms(2))
qed

lemma parse_done_line: "parse_sse_line loads ''data: [DONE]'' = DoneFrame"
  by (simp add: parse_sse_line_def py_strip_def starts_with_def is_space_def code_point_def Let_def)

lemma parse_empty_line: "parse_sse_line loads [] = SkipFrame"
  by (simp add: parse_sse_line_def py_strip_def)

definition frames_of :: "(string \<Rightarrow> json option) \<Rightarrow> string \<Rightarrow> frame list" where
  "frames_of loads body = filter (\<lambda>f. f \<noteq> SkipFrame) (map (parse_sse_line loads) (py_split nl body))"

lemma frames_of_line:
  "nl \<notin> set l \<Longrightarrow> frames_of loads (l @ nl # rest) =
     (if parse_sse_line loads l = SkipFrame then [] else [parse_sse_line loads l]) @ frames_of loads rest"
  by (simp add: frames_of_def py_split_line)

lemma frames_of_done: "frames_of loads (''data: [DONE]'' @ [nl, nl]) = [DoneFrame]"
proof -
  have "nl \<notin> set ''data: [DONE]''" by (simp add: nl_def)
  from frames_of_line [OF this, of loads "[nl]"]
  have "frames_of loads (''data: [DONE]'' @ [nl, nl]) = [DoneFrame] @ frames_of loads [nl]"
    unfolding parse_done_line by (simp only: frame.distinct if_False)
  moreover have "frames_of loads [nl] = []" by (simp add: frames_of_def parse_empty_line)
  ultimately show ?thesis by (simp only: append_Nil2)
qed

lemma frames_of_sse:
  assumes "one_line_object (dumps p)" "loads (dumps p) = Some p" "p = JObj kvs"
  shows "frames_of loads (sse dumps p @ rest) = DataFrame p # frames_of loads rest"
proof -
  have n: "nl \<notin> set (''data: '' @ dumps p)" using assms(1) by (auto simp: one_line_object_def nl_def)
  from frames_of_line [OF n, of loads "nl # rest"] frames_of_line [of "[]" loads rest]
    parse_data_line [of "dumps p" loads kvs] assms
  show ?thesis by (simp add: sse_def parse_empty_line)
qed

text \<open>What the gateway streams, an adapter of its own kind reads back: the body of a stream, cut into lines and
  parsed by the reader of \<open>app/providers/vllm.py\<close>, is the payloads of the events, all of them and in order,
  and the end mark; whatever texts the events carry.\<close>

theorem sse_round_trip:
  assumes "\<And>ev. ev \<in> set evs \<Longrightarrow> one_line_object (dumps (sse_payload note_text detail ev))"
    and "\<And>ev. ev \<in> set evs \<Longrightarrow> loads (dumps (sse_payload note_text detail ev)) = Some (sse_payload note_text detail ev)"
  shows "frames_of loads (sse_body dumps (map (sse_payload note_text detail) evs)) =
    map (\<lambda>ev. DataFrame (sse_payload note_text detail ev)) evs @ [DoneFrame]"
  using assms
proof (induction evs)
  case Nil
  show ?case unfolding sse_body_def list.map concat.simps append_Nil by (rule frames_of_done)
next
  case (Cons ev evs)
  let ?p = "sse_payload note_text detail ev"
  from Cons.prems have "one_line_object (dumps ?p)" "loads (dumps ?p) = Some ?p" by simp_all
  then have "frames_of loads (sse dumps ?p @ rest) = DataFrame ?p # frames_of loads rest" for rest
    by (rule frames_of_sse) (simp add: sse_payload_def)
  with Cons show ?case by (simp add: sse_body_def)
qed

theorem sse_round_trip_witness:
  "frames_of (\<lambda>_. Some (JObj [(''type'', JStr ''delta''), (''text'', JStr ''hi'')]))
     (sse_body (\<lambda>_. ''{t: delta}'') [JObj [(''type'', JStr ''delta''), (''text'', JStr ''hi'')]]) =
   [DataFrame (JObj [(''type'', JStr ''delta''), (''text'', JStr ''hi'')]), DoneFrame]"
proof -
  let ?p = "JObj [(''type'', JStr ''delta''), (''text'', JStr ''hi'')]"
  have p: "sse_payload (\<lambda>_. []) (\<lambda>_. []) (DeltaEvent ''hi'') = ?p" by (simp add: sse_payload_def)
  have o: "one_line_object ''{t: delta}''" by (simp add: one_line_object_def nl_def)
  from sse_round_trip [of "[DeltaEvent ''hi'']" "\<lambda>_. ''{t: delta}''" "\<lambda>_. []" "\<lambda>_. []" "\<lambda>_. Some ?p"] p o
  show ?thesis by simp
qed

text \<open>A model server whose answer is no JSON (a proxy's error page with status 200, say) is reported as the
  client's mistake: the exception is a \<open>ValueError\<close>, no provider fault, so no circuit counts it and the
  client of \<open>/v1/infer\<close> gets a 400.\<close>

theorem garbled_reply_is_blamed_on_client:
  assumes "0 < max_retries V" "server 0 = Response 200 None"
  shows "vllm_generate iot tk V server m p = (Inl (ValueError NotJson), []) \<and> \<not> server_fault (ValueError NotJson) \<and>
    (\<exists>h. infer (Inl (ValueError NotJson)) = Refusal h \<and> status_code h = 400)"
proof -
  obtain n where n: "nat (max_retries V) = Suc n" using assms(1) by (cases "nat (max_retries V)") auto
  have "vllm_generate iot tk V server m p = (Inl (ValueError NotJson), [])"
    unfolding vllm_generate_def n by (simp add: assms(2) RETRYABLE_STATUS_def)
  with answer_status [OF class_status(12), of NotJson] show ?thesis by (auto simp: server_fault_def infer_def)
qed

theorem garbled_reply_is_blamed_on_client_witness:
  "fst (vllm_generate (\<lambda>_. None) None (new_vllm ''http://h'' None [] 3 (1/2) 4) (\<lambda>_. Response 200 None) small_model ''p'')
   = Inl (ValueError NotJson)"
  by (subst garbled_reply_is_blamed_on_client [THEN conjunct1]) (simp_all add: new_vllm_def)

end
