(* ===== verification/Factory.thy ===== *)
theory Factory
  imports Service VLLM Mock RedisRateLimit RedisCache
begin

text \<open>
  \<open>app/factory.py\<close>, \<open>Settings.from_env\<close> of \<open>app/config.py\<close> and the backends \<open>InferenceService.__init__\<close> falls
  back to: from the environment to a wired service. The environment is the argument \<open>getenv\<close>; \<open>float\<close> and
  \<open>int\<close> on a string are \<open>float_of\<close> and \<open>int_of\<close> (\<open>None\<close>: \<open>ValueError\<close>). The packages that may be missing,
  \<open>httpx\<close> and \<open>redis\<close>, are an argument: the constructors of the backends that need one raise without it. The Redis
  addresses and the HTTP timeouts go to clients that are outside the repository and are left out.
\<close>

section \<open>The environment\<close>

type_synonym environment = "string \<Rightarrow> string option"

definition env_num :: "(string \<Rightarrow> 'a option) \<Rightarrow> environment \<Rightarrow> string \<Rightarrow> 'a \<Rightarrow> (exc, 'a) result" where
  "env_num read getenv key dflt =
     (case getenv key of
        None \<Rightarrow> Inr dflt
      | Some raw \<Rightarrow> (case read raw of None \<Rightarrow> Inl (ValueError (BadNumber raw)) | Some x \<Rightarrow> Inr x))"

definition env_bool :: "environment \<Rightarrow> string \<Rightarrow> bool \<Rightarrow> bool" where
  "env_bool getenv key dflt =
     (case getenv key of
        None \<Rightarrow> dflt
      | Some raw \<Rightarrow> py_lower (py_strip raw) \<in> {''1'', ''true'', ''yes'', ''on''})"

definition env_text :: "environment \<Rightarrow> string \<Rightarrow> string \<Rightarrow> string" where
  "env_text getenv key dflt = (case getenv key of None \<Rightarrow> dflt | Some raw \<Rightarrow> raw)"

text \<open>The arguments are evaluated in order, so the first number that does not parse is the one reported; the fields
  that have no variable keep their defaults.\<close>

definition from_env ::
  "(string \<Rightarrow> f64 option) \<Rightarrow> (string \<Rightarrow> int option) \<Rightarrow> environment \<Rightarrow> (exc, settings) result" where
  "from_env float_of int_of getenv =
     (let f = env_num float_of getenv; i = env_num int_of getenv; b = env_bool getenv; t = env_text getenv in
      bind_result (f ''LLM_REQUEST_BUDGET_USD'' (1/2)) (\<lambda>request_budget.
      bind_result (f ''LLM_USER_DAILY_BUDGET_USD'' 25) (\<lambda>daily_budget.
      bind_result (i ''LLM_MIN_REPLICAS'' 1) (\<lambda>min_r.
      bind_result (i ''LLM_MAX_REPLICAS'' 20) (\<lambda>max_r.
      bind_result (f ''LLM_TARGET_CONCURRENCY'' 4) (\<lambda>concurrency.
      bind_result (f ''LLM_SCALE_DOWN_COOLDOWN_S'' 60) (\<lambda>down.
      bind_result (f ''LLM_SCALE_UP_COOLDOWN_S'' 10) (\<lambda>up.
      bind_result (f ''LLM_VLLM_READ_TIMEOUT_S'' 120) (\<lambda>read_timeout.
      bind_result (f ''LLM_VLLM_CONNECT_TIMEOUT_S'' 5) (\<lambda>connect_timeout.
      bind_result (i ''LLM_VLLM_MAX_RETRIES'' 3) (\<lambda>retries.
      bind_result (f ''LLM_CACHE_TTL_S'' 300) (\<lambda>ttl.
      bind_result (i ''LLM_CACHE_MAX_ENTRIES'' 1024) (\<lambda>entries.
      bind_result (f ''LLM_ADMISSION_TIMEOUT_S'' 30) (\<lambda>admission.
      bind_result (f ''LLM_RATE_LIMIT_BURST'' 20) (\<lambda>burst.
      bind_result (f ''LLM_RATE_LIMIT_PER_SECOND'' 5) (\<lambda>rate.
      bind_result (i ''LLM_BREAKER_THRESHOLD'' 5) (\<lambda>threshold.
      bind_result (f ''LLM_BREAKER_RECOVERY_S'' 30) (\<lambda>recovery.
        Inr (default_settings\<lparr>
          default_request_budget_usd := request_budget, default_user_daily_budget_usd := daily_budget,
          min_replicas := min_r, max_replicas := max_r, target_concurrency_per_replica := concurrency,
          scale_down_cooldown_s := down, scale_up_cooldown_s := up,
          provider_backend := t ''LLM_PROVIDER'' ''mock'',
          vllm_base_url := t ''LLM_VLLM_BASE_URL'' ''http://localhost:8000'',
          vllm_api_key := getenv ''LLM_VLLM_API_KEY'',
          vllm_model_map := parse_model_map (t ''LLM_VLLM_MODEL_MAP'' []),
          vllm_read_timeout_s := read_timeout, vllm_connect_timeout_s := connect_timeout, vllm_max_retries := retries,
          ledger_backend := t ''LLM_LEDGER'' ''memory'',
          redis_url := t ''LLM_REDIS_URL'' ''redis://localhost:6379/0'',
          redis_fail_closed := b ''LLM_REDIS_FAIL_CLOSED'' True,
          cache_backend := t ''LLM_CACHE'' ''memory'', cache_ttl_s := ttl, cache_max_entries := entries,
          admission_timeout_s := admission, rate_limit_enabled := b ''LLM_RATE_LIMIT_ENABLED'' True,
          rate_limit_burst := burst, rate_limit_per_second := rate,
          breaker_failure_threshold := threshold, breaker_recovery_timeout_s := recovery,
          fallback_enabled := b ''LLM_FALLBACK_ENABLED'' True\<rparr>)))))))))))))))))))"

section \<open>Backends\<close>

datatype provider_choice = MockBackend mock | VLLMBackend vllm
datatype ledger_choice = MemoryLedger ledger | FleetLedger redis_ledger
datatype cache_choice = MemoryCache memory_cache | FleetCache redis_cache
datatype limiter_choice = MemoryLimiter limiter | FleetLimiter redis_limiter

text \<open>\<open>(name or default).strip().lower()\<close>\<close>

definition backend_name :: "string \<Rightarrow> string \<Rightarrow> string" where
  "backend_name n dflt = py_lower (py_strip (if n = [] then dflt else n))"

text \<open>Optional packages. The adapter and the ledger look for theirs when their module is loaded and raise a
  \<open>RuntimeError\<close> on construction; the cache and the limiter import theirs when they are constructed.\<close>

record packages =
  have_httpx :: bool
  have_redis :: bool

definition init_vllm ::
  "packages \<Rightarrow> string \<Rightarrow> string option \<Rightarrow> (string \<times> string) list \<Rightarrow> int \<Rightarrow> f64 \<Rightarrow> (exc, vllm) result" where
  "init_vllm pk url key models retries cpt =
     (if have_httpx pk then Inr (new_vllm url key models retries (1/2) cpt) else Inl (OtherError ''RuntimeError''))"

definition init_redis_ledger :: "packages \<Rightarrow> bool \<Rightarrow> (exc, redis_ledger) result" where
  "init_redis_ledger pk fail_closed_flag =
     (if have_redis pk
      then Inr \<lparr>redis_window = 86400, namespace = ''llm'', fail_closed = fail_closed_flag, max_records = 1000, local_records = []\<rparr>
      else Inl (OtherError ''RuntimeError''))"

definition init_redis_cache :: "packages \<Rightarrow> (exc, redis_cache) result" where
  "init_redis_cache pk =
     (if have_redis pk then Inr \<lparr>rc_namespace = ''llm:cache'', rc_hits = 0, rc_misses = 0\<rparr>
      else Inl (OtherError ''ModuleNotFoundError''))"

definition init_redis_limiter :: "packages \<Rightarrow> f64 \<Rightarrow> f64 \<Rightarrow> (exc, redis_limiter) result" where
  "init_redis_limiter pk burst rate =
     (if have_redis pk then Inr \<lparr>rl_capacity = burst, rl_refill = rate, rl_namespace = ''llm:rl''\<rparr>
      else Inl (OtherError ''ModuleNotFoundError''))"

definition build_provider :: "packages \<Rightarrow> settings \<Rightarrow> (exc, provider_choice) result" where
  "build_provider pk s =
     (let backend = backend_name (provider_backend s) ''mock'' in
      if backend = ''mock'' then Inr (MockBackend (new_mock (chars_per_token s)))
      else if backend = ''vllm''
      then bind_result (init_vllm pk (vllm_base_url s) (vllm_api_key s) (vllm_model_map s) (vllm_max_retries s) (chars_per_token s))
        (\<lambda>V. Inr (VLLMBackend V))
      else Inl (ValueError (UnknownBackend backend)))"

definition build_ledger :: "packages \<Rightarrow> settings \<Rightarrow> (exc, ledger_choice) result" where
  "build_ledger pk s =
     (let backend = backend_name (ledger_backend s) ''memory'' in
      if backend = ''memory'' then Inr (MemoryLedger new_ledger)
      else if backend = ''redis'' then bind_result (init_redis_ledger pk (redis_fail_closed s)) (\<lambda>R. Inr (FleetLedger R))
      else Inl (ValueError (UnknownBackend backend)))"

definition build_cache :: "packages \<Rightarrow> settings \<Rightarrow> (exc, cache_choice option) result" where
  "build_cache pk s =
     (let backend = backend_name (cache_backend s) ''memory'' in
      if backend = ''none'' then Inr None
      else if backend = ''memory'' then Inr (Some (MemoryCache (new_cache (cache_max_entries s))))
      else if backend = ''redis'' then bind_result (init_redis_cache pk) (\<lambda>C. Inr (Some (FleetCache C)))
      else Inl (ValueError (UnknownBackend backend)))"

definition build_rate_limiter :: "packages \<Rightarrow> settings \<Rightarrow> (exc, limiter_choice option) result" where
  "build_rate_limiter pk s =
     (if \<not> rate_limit_enabled s then Inr None
      else if backend_name (ledger_backend s) [] = ''redis''
      then bind_result (init_redis_limiter pk (rate_limit_burst s) (rate_limit_per_second s)) (\<lambda>L. Inr (Some (FleetLimiter L)))
      else Inr (Some (MemoryLimiter (new_limiter (rate_limit_burst s) (rate_limit_per_second s)))))"

text \<open>\<open>build_service\<close>, with the constructor's own fallbacks for a cache and a limiter that are \<open>None\<close>.\<close>

record wiring =
  use_provider :: provider_choice
  use_ledger :: ledger_choice
  use_cache :: "cache_choice option"
  use_limiter :: "limiter_choice option"

definition default_cache :: "settings \<Rightarrow> cache_choice option \<Rightarrow> cache_choice option" where
  "default_cache s c =
     (if c = None \<and> cache_backend s \<noteq> ''none'' then Some (MemoryCache (new_cache (cache_max_entries s))) else c)"

definition default_limiter :: "settings \<Rightarrow> limiter_choice option \<Rightarrow> limiter_choice option" where
  "default_limiter s l =
     (if l = None \<and> rate_limit_enabled s
      then Some (MemoryLimiter (new_limiter (rate_limit_burst s) (rate_limit_per_second s))) else l)"

definition build_service :: "packages \<Rightarrow> settings \<Rightarrow> (exc, wiring) result" where
  "build_service pk s =
     bind_result (build_provider pk s) (\<lambda>p.
     bind_result (build_ledger pk s) (\<lambda>l.
     bind_result (build_cache pk s) (\<lambda>c.
     bind_result (build_rate_limiter pk s) (\<lambda>r.
       Inr \<lparr>use_provider = p, use_ledger = l, use_cache = default_cache s c, use_limiter = default_limiter s r\<rparr>))))"

section \<open>Facts\<close>

text \<open>What keeps a service from starting, in the order in which its backends are built.\<close>

definition startup_problems :: "packages \<Rightarrow> settings \<Rightarrow> exc list" where
  "startup_problems pk s =
     (let p = backend_name (provider_backend s) ''mock''; l = backend_name (ledger_backend s) ''memory'';
          c = backend_name (cache_backend s) ''memory'';
          unknown = (\<lambda>n known. if n \<in> known then [] else [ValueError (UnknownBackend n)]);
          missing = (\<lambda>n backend have x. if n = backend \<and> \<not> have then [OtherError x] else [])
      in unknown p {''mock'', ''vllm''} @ missing p ''vllm'' (have_httpx pk) ''RuntimeError'' @
         unknown l {''memory'', ''redis''} @ missing l ''redis'' (have_redis pk) ''RuntimeError'' @
         unknown c {''none'', ''memory'', ''redis''} @ missing c ''redis'' (have_redis pk) ''ModuleNotFoundError'')"

lemmas init_defs = init_vllm_def init_redis_ledger_def init_redis_cache_def init_redis_limiter_def

lemma fleet_ledger:
  "build_ledger pk s = Inr l \<Longrightarrow> (\<exists>R. l = FleetLedger R) \<longleftrightarrow> backend_name (ledger_backend s) ''memory'' = ''redis''"
  by (auto simp: build_ledger_def bind_result_Inr_iff Let_def split: if_splits)

text \<open>The two defaults for an empty name, \<open>"memory"\<close> and \<open>""\<close>, do not matter for the limiter.\<close>

lemma limiter_backend: "backend_name (ledger_backend s) [] = ''redis'' \<longleftrightarrow> backend_name (ledger_backend s) ''memory'' = ''redis''"
proof -
  have e: "backend_name [] d \<noteq> ''redis''" if "d = [] \<or> d = ''memory''" for d
    using that by (elim disjE; simp add: backend_name_def; code_simp)
  show ?thesis using e by (cases "ledger_backend s = []") (simp_all add: backend_name_def)
qed

lemma fleet_limiter:
  "build_rate_limiter pk s = Inr r \<Longrightarrow> (case r of
      None \<Rightarrow> \<not> rate_limit_enabled s
    | Some l \<Rightarrow> rate_limit_enabled s \<and> ((\<exists>L. l = FleetLimiter L) \<longleftrightarrow> backend_name (ledger_backend s) ''memory'' = ''redis''))"
  by (auto simp: build_rate_limiter_def limiter_backend bind_result_Inr_iff split: if_splits)

text \<open>The limiter misses its package only where the ledger missed it before.\<close>

lemma limiter_error:
  "build_ledger pk s = Inr l \<Longrightarrow> build_rate_limiter pk s \<noteq> Inl x"
  by (auto simp: build_ledger_def build_rate_limiter_def limiter_backend init_defs Let_def split: if_splits)

section \<open>Properties\<close>

text \<open>The defaults are written twice in \<open>config.py\<close>, at the fields and in \<open>from_env\<close>, and they agree: an empty
  environment gives the default settings, and the service built from them is the in-process one, with the
  mock provider, that \<open>new_service\<close> starts from; it needs none of the optional packages.\<close>

theorem empty_environment_is_default:
  "from_env float_of int_of (\<lambda>_. None) = Inr default_settings \<and>
   build_service pk default_settings = Inr \<lparr>use_provider = MockBackend (new_mock (chars_per_token default_settings)),
     use_ledger = MemoryLedger (ledger (new_service default_settings)),
     use_cache = map_option MemoryCache (cache (new_service default_settings)),
     use_limiter = map_option MemoryLimiter (rate_limiter (new_service default_settings))\<rparr>"
proof
  have m: "parse_model_map [] = []" by code_simp
  show "from_env float_of int_of (\<lambda>_. None) = Inr default_settings"
    by (simp add: from_env_def env_num_def env_bool_def env_text_def m Let_def) (simp add: default_settings_def)
  have b: "backend_name ''mock'' ''mock'' = ''mock''" "backend_name ''memory'' d = ''memory''" for d
    by (simp add: backend_name_def, code_simp, simp add: backend_name_def, code_simp)
  show "build_service pk default_settings = Inr \<lparr>use_provider = MockBackend (new_mock (chars_per_token default_settings)),
     use_ledger = MemoryLedger (ledger (new_service default_settings)),
     use_cache = map_option MemoryCache (cache (new_service default_settings)),
     use_limiter = map_option MemoryLimiter (rate_limiter (new_service default_settings))\<rparr>"
    by (simp add: build_service_def build_provider_def build_ledger_def build_cache_def build_rate_limiter_def
        default_cache_def default_limiter_def new_service_def default_settings_def b Let_def)
qed

text \<open>The cache the service ends up with.\<close>

lemma chosen_cache:
  assumes "build_cache pk s = Inr c"
  shows "default_cache s c = (if cache_backend s = ''none'' then None
    else if backend_name (cache_backend s) ''memory'' = ''redis''
    then Some (FleetCache \<lparr>rc_namespace = ''llm:cache'', rc_hits = 0, rc_misses = 0\<rparr>)
    else Some (MemoryCache (new_cache (cache_max_entries s))))"
proof -
  have none: "backend_name ''none'' ''memory'' = ''none''" by (simp add: backend_name_def) code_simp
  show ?thesis
    using assms none
    by (auto simp: build_cache_def default_cache_def init_redis_cache_def Let_def split: if_splits)
qed

text \<open>C39. A service starts with what it was configured for or not at all: it is built exactly when every backend is
  known and every package a backend needs is installed, and then its ledger and its provider are the ones the settings
  name, its rate limits are kept where its budgets are, in the fleet or in the process, and its cache is the
  configured one; otherwise building raises the first problem, never falling back to another backend. The cache is off
  only when its name is written \<open>none\<close> to the letter: written otherwise (\<open>None\<close>, or with a blank) it ends as the
  in-process cache.\<close>

theorem service_starts_as_configured:
  "case build_service pk s of
     Inr w \<Rightarrow> startup_problems pk s = [] \<and>
       ((\<exists>R. use_ledger w = FleetLedger R) \<longleftrightarrow> backend_name (ledger_backend s) ''memory'' = ''redis'') \<and>
       ((\<exists>V. use_provider w = VLLMBackend V) \<longleftrightarrow> backend_name (provider_backend s) ''mock'' = ''vllm'') \<and>
       (case use_limiter w of
          None \<Rightarrow> \<not> rate_limit_enabled s
        | Some l \<Rightarrow> rate_limit_enabled s \<and> ((\<exists>L. l = FleetLimiter L) \<longleftrightarrow> (\<exists>R. use_ledger w = FleetLedger R))) \<and>
       use_cache w = (if cache_backend s = ''none'' then None
         else if backend_name (cache_backend s) ''memory'' = ''redis''
         then Some (FleetCache \<lparr>rc_namespace = ''llm:cache'', rc_hits = 0, rc_misses = 0\<rparr>)
         else Some (MemoryCache (new_cache (cache_max_entries s))))
   | Inl x \<Rightarrow> startup_problems pk s \<noteq> [] \<and> x = hd (startup_problems pk s)"
proof -
  have p: "case build_provider pk s of
      Inr p \<Rightarrow> (\<exists>V. p = VLLMBackend V) \<longleftrightarrow> backend_name (provider_backend s) ''mock'' = ''vllm'' | Inl x \<Rightarrow> True"
    by (auto simp: build_provider_def init_defs Let_def)
  show ?thesis
  proof (cases "build_service pk s")
    case (Inr w)
    then obtain p l c r where b: "build_provider pk s = Inr p" "build_ledger pk s = Inr l" "build_cache pk s = Inr c"
      "build_rate_limiter pk s = Inr r" and w: "w = \<lparr>use_provider = p, use_ledger = l, use_cache = default_cache s c,
         use_limiter = default_limiter s r\<rparr>"
      by (auto simp: build_service_def bind_result_Inr_iff)
    have "startup_problems pk s = []"
      using b(1-3) by (auto simp: startup_problems_def build_provider_def build_ledger_def build_cache_def init_defs Let_def
          split: if_splits)
    moreover note chosen_cache [OF b(3)]
    ultimately show ?thesis using Inr w p b fleet_ledger [OF b(2)] fleet_limiter [OF b(4)]
      by (auto simp: default_limiter_def split: option.splits)
  next
    case (Inl x)
    then have "build_provider pk s = Inl x \<or> (\<exists>p. build_provider pk s = Inr p) \<and> (build_ledger pk s = Inl x \<or>
        (\<exists>l. build_ledger pk s = Inr l) \<and> build_cache pk s = Inl x)"
      using limiter_error by (auto simp: build_service_def bind_result_Inl_iff)
    then have "startup_problems pk s \<noteq> [] \<and> x = hd (startup_problems pk s)"
      by (auto simp: startup_problems_def build_provider_def build_ledger_def build_cache_def init_defs Let_def split: if_splits)
    with Inl show ?thesis by simp
  qed
qed

text \<open>Switching the cache off is sensitive to case and blanks: the factory reads the name without them and builds no
  cache for \<open>"None"\<close> or \<open>" none"\<close>, but the constructor compares the name as it is written and then
  caches in process after all.\<close>

theorem cache_off_is_case_sensitive:
  assumes "backend_name (cache_backend s) ''memory'' = ''none''" "build_service pk s = Inr w"
  shows "build_cache pk s = Inr None \<and> (use_cache w = None \<longleftrightarrow> cache_backend s = ''none'')"
  using assms by (auto simp: build_service_def bind_result_Inr_iff build_cache_def default_cache_def Let_def split: if_splits)

theorem cache_off_is_case_sensitive_witness:
  "\<exists>w. build_service \<lparr>have_httpx = False, have_redis = False\<rparr> (default_settings\<lparr>cache_backend := ''None''\<rparr>) = Inr w \<and>
     use_cache w \<noteq> None"
proof -
  let ?s = "default_settings\<lparr>cache_backend := ''None''\<rparr>" and ?pk = "\<lparr>have_httpx = False, have_redis = False\<rparr>"
  have c: "backend_name (cache_backend ?s) ''memory'' = ''none''"
    by (simp add: backend_name_def) code_simp
  have b: "backend_name ''mock'' ''mock'' = ''mock''" "backend_name ''memory'' d = ''memory''" for d
    by (simp add: backend_name_def, code_simp, simp add: backend_name_def, code_simp)
  have f: "provider_backend ?s = ''mock''" "ledger_backend ?s = ''memory''" "cache_backend ?s = ''None''"
    "rate_limit_enabled default_settings"
    by (simp_all add: default_settings_def)
  obtain w where w: "build_service ?pk ?s = Inr w"
    using c by (simp add: build_service_def build_provider_def build_ledger_def build_cache_def build_rate_limiter_def f b Let_def)
  from cache_off_is_case_sensitive [OF c w] w show ?thesis by (auto simp: f)
qed

end
