(* ===== verification/FleetBudget.thy ===== *)
theory FleetBudget
  imports RedisLedger
begin

text \<open>
  The claim \<open>app/cost/redis_ledger.py\<close> is built for: a user's budget holds for the whole fleet. Any number of
  replicas, each with a clock of its own, run the three scripts and \<open>spent\<close> in any order on one Redis; a script
  is atomic, so a run of the fleet is a sequence of script executions. Only the holds and charges of one user
  are watched; what is done under other keys is arbitrary.
\<close>

section \<open>Runs of the fleet\<close>

text \<open>The exact sum of the amounts recorded for the user.\<close>

definition amount_of :: "(string \<Rightarrow> f64 option) \<Rightarrow> string \<Rightarrow> rat" where
  "amount_of number m = (case member_amount number m of None \<Rightarrow> 0 | Some v \<Rightarrow> v)"

definition recorded :: "(string \<Rightarrow> f64 option) \<Rightarrow> zset \<Rightarrow> rat" where
  "recorded number z = (\<Sum>m \<in> dom z. amount_of number m)"

text \<open>What a settlement finds as the hold of its reservation; nothing, when the hold was pruned or has expired.\<close>

definition amount_found :: "'db redis_ops \<Rightarrow> (string \<Rightarrow> f64 option) \<Rightarrow> string \<Rightarrow> string \<Rightarrow> 'db \<Rightarrow> rat" where
  "amount_found ops number key rid db = (case hold_of ops key rid db of None \<Rightarrow> 0 | Some m \<Rightarrow> amount_of number m)"

text \<open>The script executions on the data, with the number of executions so far and, as \<open>extra\<close>, the sum of what
  settlements charged beyond the hold they found. A reservation has an id of its own. The key of the user may
  expire at any time (\<open>EXPIRE\<close>).\<close>

inductive fleet_run ::
  "'db redis_ops \<Rightarrow> ('db \<Rightarrow> string \<Rightarrow> zset) \<Rightarrow> (string \<Rightarrow> f64 option) \<Rightarrow> string \<Rightarrow> f64 \<Rightarrow> f64 \<Rightarrow> nat \<Rightarrow> rat \<Rightarrow> 'db \<Rightarrow> bool"
  for ops :: "'db redis_ops" and zs :: "'db \<Rightarrow> string \<Rightarrow> zset" and number :: "string \<Rightarrow> f64 option"
    and key :: string and win :: f64 and limit :: f64 where
  fleet_start: "zs db key = Map.empty \<Longrightarrow> fleet_run ops zs number key win limit 0 0 db"
| fleet_reserve: "fleet_run ops zs number key win limit n extra db \<Longrightarrow> plain_id rid \<Longrightarrow> rid \<notin> id_of ` dom (zs db key) \<Longrightarrow>
    0 \<le> a \<Longrightarrow> fleet_run ops zs number key win limit (Suc n) extra
      (snd (reserve_lua ops number key now win a limit (member_of rid a) db))"
| fleet_settle: "fleet_run ops zs number key win limit n extra db \<Longrightarrow> plain_id rid \<Longrightarrow> 0 \<le> c \<Longrightarrow>
    fleet_run ops zs number key win limit (Suc n) (extra + max 0 (round_dec 10 c - amount_found ops number key rid db))
      (snd (settle_lua ops key ukey now rid c win db))"
| fleet_release: "fleet_run ops zs number key win limit n extra db \<Longrightarrow> fleet_run ops zs number key win limit (Suc n) extra
      (snd (release_lua ops key rid db))"
| fleet_prune: "fleet_run ops zs number key win limit n extra db \<Longrightarrow> fleet_run ops zs number key win limit (Suc n) extra
      (zremrangebyscore ops db key cutoff)"
| fleet_expire: "fleet_run ops zs number key win limit n extra db \<Longrightarrow> zs db' key = Map.empty \<Longrightarrow>
    fleet_run ops zs number key win limit (Suc n) extra db'"
| fleet_elsewhere: "fleet_run ops zs number key win limit n extra db \<Longrightarrow> zs db' key = zs db key \<Longrightarrow>
    fleet_run ops zs number key win limit (Suc n) extra db'"

section \<open>What rounding can hide\<close>

text \<open>The sum a script computes is a sum of floats (\<open>Roundoff.thy\<close>).\<close>

definition readable :: "(string \<Rightarrow> f64 option) \<Rightarrow> string list \<Rightarrow> rat list" where
  "readable number ms = map (amount_of number) (filter (\<lambda>m. member_amount number m \<noteq> None) ms)"

lemma sum_members_foldl: "sum_members number t ms = foldl fadd t (readable number ms)"
  by (induction ms arbitrary: t) (auto simp: readable_def amount_of_def split: option.splits)

lemma readable_facts:
  "sum_list (readable number ms) = sum_list (map (amount_of number) ms)" "length (readable number ms) \<le> length ms"
proof -
  show "sum_list (readable number ms) = sum_list (map (amount_of number) ms)"
    by (induction ms) (auto simp: readable_def amount_of_def)
  show "length (readable number ms) \<le> length ms" by (simp add: readable_def)
qed

text \<open>The exact sum of a set of members.\<close>

lemma recorded_list: "distinct ms \<Longrightarrow> set ms = dom z \<Longrightarrow> recorded number z = sum_list (map (amount_of number) ms)"
  unfolding recorded_def by (metis sum_list_distinct_conv_sum_set)

lemma round_dec_upper:
  assumes "0 \<le> a"
  shows "round_dec 10 a * (1 - unit_roundoff) \<le> a + 1 / (2 * 10 ^ 10) + tiny"
proof -
  let ?x = "of_int (rne (a * 10 ^ 10)) / 10 ^ 10 :: rat"
  have r: "\<bar>of_int (rne (a * 10 ^ 10)) - a * 10 ^ 10\<bar> \<le> 1 / 2" by (rule rne_error)
  have "0 \<le> rne (a * 10 ^ 10)" using assms by (intro rne_ge_of_int) simp
  then have "fl64 ?x * (1 - unit_roundoff) \<le> ?x + tiny" by (intro fl64_unround) simp
  also have "?x \<le> a + 1 / (2 * 10 ^ 10)" using r unfolding abs_le_iff by (simp add: field_simps)
  finally show ?thesis by (simp add: round_dec_def)
qed

lemma round_dec_mono: "a \<le> b \<Longrightarrow> round_dec 10 a \<le> round_dec 10 b"
  unfolding round_dec_def by (intro fl64_mono divide_right_mono) (simp_all add: rne_mono)

lemma round_dec_nonneg: "0 \<le> a \<Longrightarrow> 0 \<le> round_dec 10 a"
  unfolding round_dec_def by (intro fl64_nonneg divide_nonneg_nonneg) (simp_all add: rne_ge_of_int)

text \<open>What a granted reservation says about the exact sum.\<close>

lemma granted_bound:
  assumes "\<And>m. m \<in> set ms \<Longrightarrow> 0 \<le> amount_of number m" "0 \<le> a"
    and "fadd (sum_members number 0 ms) a \<le> B" "length ms \<le> n"
  shows "(sum_list (map (amount_of number) ms) + round_dec 10 a) * (1 - unit_roundoff) ^ (n + 2)
    \<le> B + 1 / (2 * 10 ^ 10) + of_nat (n + 2) * tiny"
proof -
  let ?q = "1 - unit_roundoff" and ?S = "sum_list (map (amount_of number) ms)" and ?h = "1 / (2 * 10 ^ 10) :: rat"
  have S: "0 \<le> ?S" using assms(1) by (intro sum_list_nonneg) auto
  note q = roundoff_power [of "n + 1"]
  have "(sum_list (readable number ms) + a) * ?q ^ (n + 1) \<le> B + of_nat (n + 1) * tiny"
  proof (rule sum_then_add [OF _ assms(2)])
    show "0 \<le> x" if "x \<in> set (readable number ms)" for x using that assms(1) by (auto simp: readable_def)
    show "fadd (fsum (readable number ms)) a \<le> B" using assms(3) by (simp only: fsum_def sum_members_foldl)
    show "length (readable number ms) \<le> n" using readable_facts(2) [of number ms] assms(4) by linarith
  qed
  then have 1: "(?S + a) * ?q ^ (n + 1) \<le> B + of_nat (n + 1) * tiny" by (simp only: readable_facts(1))
  have "(?S + round_dec 10 a) * ?q ^ (n + 2) = (?S * ?q + round_dec 10 a * ?q) * ?q ^ (n + 1)" by (simp add: algebra_simps)
  also have "\<dots> \<le> (?S + (a + ?h + tiny)) * ?q ^ (n + 1)"
    using round_dec_upper [OF assms(2)] S q roundoff_bounds(1,2)
    by (intro mult_right_mono add_mono) (simp_all add: mult_left_le)
  also have "\<dots> = (?S + a) * ?q ^ (n + 1) + (?h + tiny) * ?q ^ (n + 1)" by (simp add: algebra_simps)
  also have "\<dots> \<le> (B + of_nat (n + 1) * tiny) + (?h + tiny)"
    using 1 q roundoff_bounds(3) by (intro add_mono mult_left_le) simp_all
  also have "\<dots> = B + ?h + of_nat (n + 2) * tiny" by (simp add: algebra_simps)
  finally show ?thesis .
qed

section \<open>The invariant\<close>

text \<open>A sorted set as the scripts leave it: one well-formed member per reservation.\<close>

definition proper :: "zset \<Rightarrow> bool" where
  "proper z \<longleftrightarrow> one_per_id z \<and> finite (dom z) \<and> (\<forall>m \<in> dom z. \<exists>rid a. plain_id rid \<and> 0 \<le> a \<and> m = member_of rid a)"

text \<open>The client of a Redis that keeps the laws.\<close>

locale redis_client =
  fixes ops :: "'db redis_ops" and zs :: "'db \<Rightarrow> string \<Rightarrow> zset" and number :: "string \<Rightarrow> f64 option"
  assumes laws: "redis_laws ops zs" and reads: "reads_fixed number"
begin

lemma amount_member [simp]: "plain_id rid \<Longrightarrow> 0 \<le> a \<Longrightarrow> amount_of number (member_of rid a) = round_dec 10 a"
  by (simp add: amount_of_def member_amount_member [OF _ reads])

lemma amounts_nonneg: "proper z \<Longrightarrow> m \<in> dom z \<Longrightarrow> 0 \<le> amount_of number m"
  unfolding proper_def by (metis amount_member round_dec_nonneg)

lemma recorded_nonneg: "proper z \<Longrightarrow> 0 \<le> recorded number z"
  unfolding recorded_def by (intro sum_nonneg amounts_nonneg)

lemma recorded_subset: "proper z \<Longrightarrow> dom z' \<subseteq> dom z \<Longrightarrow> recorded number z' \<le> recorded number z"
  unfolding recorded_def by (rule sum_mono2) (use amounts_nonneg in \<open>auto simp: proper_def\<close>)

lemma proper_subset: "proper z \<Longrightarrow> dom z' \<subseteq> dom z \<Longrightarrow> proper z'"
  unfolding proper_def one_per_id_def by (blast intro: inj_on_subset finite_subset)

lemma proper_card: "proper z \<Longrightarrow> dom z' \<subseteq> dom z \<Longrightarrow> card (dom z') \<le> card (dom z)"
  by (rule card_mono) (auto simp: proper_def)

lemma reserved:
  assumes "proper (zs db key)" "card (dom (zs db key)) \<le> n" "plain_id rid" "rid \<notin> id_of ` dom (zs db key)" "0 \<le> a"
    and "reserve_lua ops number key now win a limit (member_of rid a) db = ((ok, tot), db')"
  shows "proper (zs db' key) \<and> card (dom (zs db' key)) \<le> Suc n \<and>
    (if ok then recorded number (zs db' key) * (1 - unit_roundoff) ^ (n + 2)
        \<le> fadd limit (lit 1 9) + 1 / (2 * 10 ^ 10) + of_nat (n + 2) * tiny
     else dom (zs db' key) \<subseteq> dom (zs db key))"
proof -
  let ?z = "zs db key" and ?m = "member_of rid a"
  obtain pruned where p: "zs pruned key = live now win ?z" "tot = sum_members number 0 (zrange ops pruned key)"
    "ok \<longleftrightarrow> fadd tot a \<le> fadd limit (lit 1 9)"
    "zs db' = (zs db)(key := if ok then (live now win ?z)(?m \<mapsto> now) else live now win ?z)"
    using reserve_lua_effect [OF laws assms(6)] by blast
  have sub: "dom (live now win ?z) \<subseteq> dom ?z" by (auto simp: live_def restrict_map_def split: if_splits)
  note live = proper_subset [OF assms(1) sub] proper_card [OF assms(1) sub]
  have fresh: "rid \<notin> id_of ` dom (live now win ?z)" using assms(4) sub by blast
  then have new: "?m \<notin> dom (live now win ?z)" using id_of_member [OF assms(3), of a] by (metis image_eqI)
  show ?thesis
  proof (cases ok)
    case True
    have pr: "proper ((live now win ?z)(?m \<mapsto> now))"
      using live(1) one_per_id_scripts(3) [OF _ fresh assms(3)] assms(3,5) unfolding proper_def by auto
    let ?ms = "zrange ops pruned key"
    have ms: "distinct ?ms" "set ?ms = dom (live now win ?z)"
      using redis_lawsD(1,2) [OF laws, of pruned key] p(1) by simp_all
    have "length ?ms \<le> n" using distinct_card [OF ms(1)] ms(2) live(2) assms(2) by simp
    have "recorded number ((live now win ?z)(?m \<mapsto> now)) = sum_list (map (amount_of number) ?ms) + round_dec 10 a"
      using new live(1) recorded_list [OF ms(1,2), of number] assms(3,5) by (simp add: recorded_def proper_def)
    moreover have "(sum_list (map (amount_of number) ?ms) + round_dec 10 a) * (1 - unit_roundoff) ^ (n + 2)
        \<le> fadd limit (lit 1 9) + 1 / (2 * 10 ^ 10) + of_nat (n + 2) * tiny"
      using True p(2,3) ms(2) amounts_nonneg [OF live(1)] assms(5) \<open>length ?ms \<le> n\<close> by (intro granted_bound) auto
    moreover have "card (dom ((live now win ?z)(?m \<mapsto> now))) \<le> Suc n"
      using new live assms(2) by (simp add: proper_def)
    ultimately show ?thesis using True pr p(4) by simp
  next
    case False
    then show ?thesis using live sub assms(2) p(4) by simp
  qed
qed

lemma hold_found:
  assumes "proper (zs db key)" "plain_id rid"
  shows "(hold_of ops key rid db = None \<and> rid \<notin> id_of ` dom (zs db key)) \<or>
    (\<exists>a. 0 \<le> a \<and> hold_of ops key rid db = Some (member_of rid a) \<and> member_of rid a \<in> dom (zs db key))"
proof (cases "rid \<in> id_of ` dom (zs db key)")
  case True
  then obtain m where m: "m \<in> dom (zs db key)" "id_of m = rid" by blast
  with assms obtain rid' a where a: "plain_id rid'" "0 \<le> a" "m = member_of rid' a" unfolding proper_def by blast
  then have "member_of rid a \<in> dom (zs db key)" using m by simp
  with hold_of_Some [OF laws assms(2) _ this] assms(1) a(2) show ?thesis unfolding proper_def by blast
qed (use hold_of_None [OF laws assms(2)] in blast)

lemma settled:
  assumes "proper (zs db key)" "plain_id rid" "0 \<le> c"
    and db'_def: "db' = snd (settle_lua ops key ukey now rid c win db)"
  shows "proper (zs db' key) \<and> card (dom (zs db' key)) \<le> Suc (card (dom (zs db key))) \<and>
    recorded number (zs db' key) \<le> recorded number (zs db key) + max 0 (round_dec 10 c - amount_found ops number key rid db)"
  using hold_found [OF assms(1,2)]
proof (elim disjE conjE exE)
  let ?z = "zs db key" and ?c = "member_of rid c"
  have one: "one_per_id ?z" and fin: "finite (dom ?z)" using assms(1) by (simp_all add: proper_def)
  note [simp] = round_dec_nonneg [OF assms(3)]
  {
    assume h: "hold_of ops key rid db = None" "rid \<notin> id_of ` dom ?z"
    then have z': "zs db' key = ?z(?c \<mapsto> now)"
      unfolding db'_def by (simp add: settle_lua_def redis_lawsD [OF laws] Let_def)
    have "?c \<notin> dom ?z" using h(2) assms(2) by (metis id_of_member image_eqI)
    moreover have "proper (?z(?c \<mapsto> now))"
      using assms(1) one_per_id_scripts(3) [OF one h(2) assms(2)] assms(2,3) unfolding proper_def by auto
    ultimately show ?thesis
      using fin assms(2,3) by (simp add: z' recorded_def amount_found_def h(1) max_def)
  next
    fix a assume h: "0 \<le> a" "hold_of ops key rid db = Some (member_of rid a)" "member_of rid a \<in> dom ?z"
    let ?m = "member_of rid a"
    have z': "zs db' key = ?z(?m := None, ?c \<mapsto> now)"
      unfolding db'_def using close_lua_effect(2) [OF laws assms(2) one h(3)] by simp
    have f: "amount_found ops number key rid db = round_dec 10 a" using h assms(2) by (simp add: amount_found_def)
    have "proper (?z(?m := None, ?c \<mapsto> now))"
      using assms(1) one_per_id_scripts(4) [OF one assms(2) h(3)] assms(2,3) unfolding proper_def by auto
    moreover have "card (insert ?c (dom ?z - {?m})) \<le> Suc (card (dom ?z))"
      using fin card_mono [OF fin, of "dom ?z - {?m}"] by (auto simp: card_insert_if)
    moreover have "recorded number (?z(?m := None, ?c \<mapsto> now)) \<le> recorded number ?z + max 0 (round_dec 10 c - round_dec 10 a)"
    proof -
      have "recorded number (?z(?m := None, ?c \<mapsto> now)) = sum (amount_of number) (insert ?c (dom ?z - {?m}))"
        by (simp add: recorded_def)
      also have "\<dots> \<le> round_dec 10 c + sum (amount_of number) (dom ?z - {?m})"
        using fin assms(2,3) by (cases "?c \<in> dom ?z - {?m}") (simp_all add: insert_absorb)
      also have "\<dots> \<le> max 0 (round_dec 10 c - round_dec 10 a) + round_dec 10 a + sum (amount_of number) (dom ?z - {?m})"
        by simp
      also have "\<dots> = recorded number ?z + max 0 (round_dec 10 c - round_dec 10 a)"
        using fin assms(2) h by (simp add: recorded_def sum.remove [OF fin h(3)])
      finally show ?thesis .
    qed
    ultimately show ?thesis unfolding z' f by simp
  }
qed

lemma released_dom: "dom (zs (snd (release_lua ops key rid db)) key) \<subseteq> dom (zs db key)"
  by (auto simp: release_lua_def redis_lawsD(4) [OF laws] split: option.splits if_splits)

lemma pruned_dom: "dom (zs (zremrangebyscore ops db key cutoff) key) \<subseteq> dom (zs db key)"
  by (auto simp: redis_lawsD(5) [OF laws] restrict_map_def split: if_splits)

text \<open>The invariant after \<open>n\<close> executions.\<close>

definition budget_kept :: "string \<Rightarrow> rat \<Rightarrow> nat \<Rightarrow> rat \<Rightarrow> 'db \<Rightarrow> bool" where
  "budget_kept key B n extra db \<longleftrightarrow> proper (zs db key) \<and> card (dom (zs db key)) \<le> n \<and> 0 \<le> extra \<and>
     recorded number (zs db key) * (1 - unit_roundoff) ^ (n + 1) \<le> B + extra + of_nat (n + 1) * tiny"

lemma kept_change:
  assumes "budget_kept key B n extra db" "proper (zs db' key)" "card (dom (zs db' key)) \<le> Suc n"
    and "recorded number (zs db' key) \<le> recorded number (zs db key) + more_extra" "0 \<le> more_extra"
  shows "budget_kept key B (Suc n) (extra + more_extra) db'"
proof -
  have "0 \<le> recorded number (zs db key)" using assms(1) recorded_nonneg by (simp add: budget_kept_def)
  from bound_step [OF this assms(4,5)] assms(1,2,3,5) show ?thesis unfolding budget_kept_def by simp
qed

lemma kept_fewer:
  assumes "budget_kept key B n extra db" "dom (zs db' key) \<subseteq> dom (zs db key)"
  shows "budget_kept key B (Suc n) extra db'"
proof -
  have p: "proper (zs db key)" "card (dom (zs db key)) \<le> n" using assms(1) by (simp_all add: budget_kept_def)
  have "card (dom (zs db' key)) \<le> Suc n" using proper_card [OF p(1) assms(2)] p(2) by linarith
  with kept_change [OF assms(1) proper_subset [OF p(1) assms(2)], of 0] recorded_subset [OF p(1) assms(2)]
  show ?thesis by simp
qed

lemma fleet_invariant:
  assumes "fleet_run ops zs number key win limit n extra db" "0 \<le> limit"
  shows "budget_kept key (fadd limit (lit 1 9) + 1 / (2 * 10 ^ 10)) n extra db"
  using assms(1)
proof induction
  case (fleet_start db)
  have "0 \<le> fadd limit (lit 1 9)" using assms(2) by (intro fadd_nonneg lit_nonneg) simp_all
  with fleet_start roundoff_bounds(3) show ?case by (simp add: budget_kept_def proper_def one_per_id_def recorded_def)
next
  case (fleet_reserve n extra db rid a now)
  obtain ok tot db' where r: "reserve_lua ops number key now win a limit (member_of rid a) db = ((ok, tot), db')"
    by (metis prod.exhaust)
  have p: "proper (zs db key)" "card (dom (zs db key)) \<le> n" "0 \<le> extra"
    using fleet_reserve.IH by (simp_all add: budget_kept_def)
  show ?case
  proof (cases ok)
    case True
    with reserved [OF p(1,2) fleet_reserve(2-4) r] p(3) show ?thesis by (simp add: r budget_kept_def)
  next
    case False
    with reserved [OF p(1,2) fleet_reserve(2-4) r] have "dom (zs db' key) \<subseteq> dom (zs db key)" by simp
    from kept_fewer [OF fleet_reserve.IH this] show ?thesis by (simp add: r)
  qed
next
  case (fleet_settle n extra db rid c ukey now)
  have p: "proper (zs db key)" "card (dom (zs db key)) \<le> n" using fleet_settle.IH by (simp_all add: budget_kept_def)
  from settled [OF p(1) fleet_settle(2,3) refl, of ukey now win] p(2) show ?case
    by (intro kept_change [OF fleet_settle.IH]) auto
next
  case (fleet_release n extra db rid)
  show ?case by (rule kept_fewer [OF fleet_release.IH released_dom])
next
  case (fleet_prune n extra db cutoff)
  show ?case by (rule kept_fewer [OF fleet_prune.IH pruned_dom])
next
  case (fleet_expire n extra db db')
  show ?case by (rule kept_fewer [OF fleet_expire.IH]) (simp add: fleet_expire)
next
  case (fleet_elsewhere n extra db db')
  show ?case by (rule kept_fewer [OF fleet_elsewhere.IH]) (simp add: fleet_elsewhere)
qed

end

section \<open>Properties\<close>

text \<open>The contract holds for the Redis of lists.\<close>

interpretation lists: redis_client list_redis "\<lambda>db k. map_of (db k)" read_fixed
  by unfold_locales (rule list_redis_laws, rule read_fixed_reads)

text \<open>C5. The fleet keeps the budget: however many replicas reserve, settle, release and prune on the shared data, in
  any order and with any clocks (also ones that disagree), and whenever keys expire, what is held and charged for
  a user never exceeds the limit by more than the epsilon of the check, half a unit of the tenth decimal (the
  newest amount as written), what settlements charged beyond the hold they found (everything, where the hold had
  been pruned), and the roundings of the additions, one of at most 2^-53 of the sum per script execution.\<close>

theorem fleet_budget_holds:
  fixes db :: 'db
  assumes "redis_laws ops zs" "reads_fixed number" "fleet_run ops zs number key win limit n extra db" "0 \<le> limit"
  shows "recorded number (zs db key) * (1 - unit_roundoff) ^ (n + 1)
      \<le> fadd limit (lit 1 9) + 1 / (2 * 10 ^ 10) + extra + of_nat (n + 1) * tiny"
  using redis_client.fleet_invariant [OF redis_client.intro [OF assms(1,2)] assms(3,4)]
  unfolding redis_client.budget_kept_def [OF redis_client.intro [OF assms(1,2)]] by blast

theorem fleet_budget_holds_witness:
  "\<exists>db extra. fleet_run list_redis (\<lambda>db k. map_of (db k)) read_fixed ''k'' 60 5 2 extra db \<and>
     recorded read_fixed (map_of (db ''k'')) * (1 - unit_roundoff) ^ 3 \<le>
       fadd 5 (lit 1 9) + 1 / (2 * 10 ^ 10) + extra + 3 * tiny"
proof -
  let ?run = "fleet_run list_redis (\<lambda>db k. map_of (db k)) read_fixed ''k'' 60 5"
  have p: "plain_id ''a''" by (simp add: plain_id_def)
  have "?run 0 0 (\<lambda>_. [])" by (rule fleet_start) simp
  from fleet_reserve [OF this p _ zero_le_one, of 100]
  have "?run 1 0 (snd (reserve_lua list_redis read_fixed ''k'' 100 60 1 5 (member_of ''a'' 1) (\<lambda>_. [])))" by simp
  from fleet_settle [OF this p zero_le_one, of "''h''" 110]
  obtain db extra where db: "?run 2 extra db" by (metis numeral_2_eq_2 One_nat_def)
  from fleet_budget_holds [OF list_redis_laws read_fixed_reads this] db show ?thesis
    by (intro exI [of _ db] exI [of _ extra]) simp
qed

end
