(* ===== verification/FleetLedger.thy ===== *)
theory FleetLedger
  imports RedisLedger
begin

text \<open>
  The clients of a fleet on one Redis. \<open>FleetBudget.thy\<close> runs the scripts; here the methods of \<open>RedisLedger\<close> run, on any
  number of replicas, each call with its own fate on the network, and a world records beside the shared data
  what became of every reservation as its caller sees it: refused, open, released or settled. \<open>disturbed\<close> is
  history: a message of one of the reservation's calls was lost. \<open>stamp\<close> is the time the replica gave to its
  last write, \<open>cutoffs\<close> are the times up to which a user's set was pruned, and \<open>lapsed\<close> says that the user's key
  expired after that write. \<open>EXPIRE\<close> sets the life of a key by the clock of the server, which no replica sees, so
  an expiry is a step of its own that can come at any time and removes all members of the key.
\<close>

section \<open>Worlds and steps\<close>

datatype fate =
    RefusedClaim
  | OpenClaim reservation
  | ReleasedClaim
  | SettledClaim f64

record claim =
  claim_user :: string
  claim_amount :: f64
  fate :: fate
  disturbed :: bool
  stamp :: f64
  lapsed :: bool

record 'db fleet =
  shared :: 'db
  claims :: "string \<Rightarrow> claim option"
  cutoffs :: "string \<Rightarrow> f64 list"

type_synonym net = "transport \<times> transport \<times> transport"

datatype fleet_event =
    FleetReserve redis_ledger script_state net f64 string string f64 f64
  | FleetSettle redis_ledger script_state net f64 string f64 string int int
  | FleetRelease redis_ledger script_state net string
  | FleetSpent redis_ledger transport transport f64 string
  | FleetExpire string

definition undisturbed :: "net \<Rightarrow> bool" where
  "undisturbed n \<longleftrightarrow> n = (Delivered, Delivered, Delivered)"

definition put_claim :: "'db fleet \<Rightarrow> 'db \<Rightarrow> string \<Rightarrow> claim \<Rightarrow> 'db fleet" where
  "put_claim F db rid cl = F\<lparr>shared := db, claims := (claims F)(rid \<mapsto> cl)\<rparr>"

definition put_cutoff :: "string \<Rightarrow> f64 \<Rightarrow> (string \<Rightarrow> f64 list) \<Rightarrow> string \<Rightarrow> f64 list" where
  "put_cutoff u k cuts = cuts(u := k # cuts u)"

text \<open>The key is gone: every member is removed, and the user's reservations have lapsed.\<close>

definition delete_key :: "'db redis_ops \<Rightarrow> string \<Rightarrow> 'db \<Rightarrow> 'db" where
  "delete_key ops key db = foldl (\<lambda>db m. zrem ops db key m) db (zrange ops db key)"

definition lapse :: "string \<Rightarrow> (string \<Rightarrow> claim option) \<Rightarrow> string \<Rightarrow> claim option" where
  "lapse u C rid = map_option (\<lambda>cl. if claim_user cl = u then cl\<lparr>lapsed := True\<rparr> else cl) (C rid)"

text \<open>Every replica uses the same namespace; a reservation id is fresh and has no colon (it is hexadecimal).\<close>

fun fleet_do ::
  "'db redis_ops \<Rightarrow> (string \<Rightarrow> f64 option) \<Rightarrow> (f64 \<Rightarrow> f64) \<Rightarrow> string \<Rightarrow> fleet_event \<Rightarrow> 'db fleet \<Rightarrow> 'db fleet option"
where
  "fleet_do ops number reported ns (FleetReserve R ss n now rid u amount limit) F =
     (if namespace R = ns \<and> plain_id rid \<and> claims F rid = None
      then case redis_reserve ops number reported n R ss now rid u amount limit (shared F) of (res, ss', db) \<Rightarrow>
        Some ((put_claim F db rid \<lparr>claim_user = u, claim_amount = amount,
            fate = (case res of Inl x \<Rightarrow> RefusedClaim | Inr rv \<Rightarrow> OpenClaim rv), disturbed = \<not> undisturbed n, stamp = now, lapsed = False\<rparr>)
          \<lparr>cutoffs := put_cutoff u (fsub now (redis_window R)) (cutoffs F)\<rparr>)
      else None)"
| "fleet_do ops number reported ns (FleetSettle R ss n now rid c mname inp out) F =
     (case claims F rid of None \<Rightarrow> None
      | Some cl \<Rightarrow> (case fate cl of
          OpenClaim rv \<Rightarrow> if namespace R = ns
            then case redis_settle ops n R ss now rv c mname inp out (shared F) of (res, rv', R', ss', db) \<Rightarrow>
              Some (put_claim F db rid (cl\<lparr>fate := SettledClaim c,
                disturbed := disturbed cl \<or> \<not> undisturbed n, stamp := now, lapsed := False\<rparr>))
            else None
        | _ \<Rightarrow> None))"
| "fleet_do ops number reported ns (FleetRelease R ss n rid) F =
     (case claims F rid of None \<Rightarrow> None
      | Some cl \<Rightarrow> (case fate cl of
          OpenClaim rv \<Rightarrow> if namespace R = ns
            then case redis_release ops n R ss rv (shared F) of (res, rv', ss', db) \<Rightarrow>
              Some (put_claim F db rid (cl\<lparr>fate := ReleasedClaim, disturbed := disturbed cl \<or> \<not> undisturbed n\<rparr>))
            else None
        | _ \<Rightarrow> None))"
| "fleet_do ops number reported ns (FleetSpent R t1 t2 now u) F =
     (if namespace R = ns
      then Some (F\<lparr>shared := snd (redis_spent ops number t1 t2 R now u (shared F)),
        cutoffs := put_cutoff u (fsub now (redis_window R)) (cutoffs F)\<rparr>)
      else None)"
| "fleet_do ops number reported ns (FleetExpire u) F =
     Some (F\<lparr>shared := delete_key ops (ns @ '':spend:'' @ u) (shared F), claims := lapse u (claims F)\<rparr>)"

fun fleet_exec ::
  "'db redis_ops \<Rightarrow> (string \<Rightarrow> f64 option) \<Rightarrow> (f64 \<Rightarrow> f64) \<Rightarrow> string \<Rightarrow> fleet_event list \<Rightarrow> 'db fleet \<Rightarrow> 'db fleet option"
where
  "fleet_exec ops number reported ns [] F = Some F"
| "fleet_exec ops number reported ns (ev # evs) F =
     (case fleet_do ops number reported ns ev F of None \<Rightarrow> None | Some F' \<Rightarrow> fleet_exec ops number reported ns evs F')"

section \<open>What a member may stand for\<close>

text \<open>A member of a user's set against the reservation it names: the hold of an open one, the charge of a settled one,
  or, when a message was lost, a hold that was left behind.\<close>

definition member_ok :: "string \<Rightarrow> claim \<Rightarrow> string \<Rightarrow> bool" where
  "member_ok rid cl m \<longleftrightarrow>
     (case fate cl of
        OpenClaim rv \<Rightarrow> m = member_of rid (claim_amount cl)
      | SettledClaim c \<Rightarrow> m = member_of rid c \<or> disturbed cl \<and> m = member_of rid (claim_amount cl)
      | _ \<Rightarrow> disturbed cl \<and> m = member_of rid (claim_amount cl))"

text \<open>The member a reservation must have, until it is pruned.\<close>

definition standing :: "string \<Rightarrow> claim \<Rightarrow> string option" where
  "standing rid cl =
     (case fate cl of
        OpenClaim rv \<Rightarrow> Some (member_of rid (claim_amount cl))
      | SettledClaim c \<Rightarrow> Some (member_of rid c)
      | _ \<Rightarrow> None)"

definition user_key :: "string \<Rightarrow> string \<Rightarrow> string" where
  "user_key ns u = ns @ '':spend:'' @ u"

definition claims_ok :: "(string \<Rightarrow> claim option) \<Rightarrow> bool" where
  "claims_ok C \<longleftrightarrow> (\<forall>rid cl. C rid = Some cl \<longrightarrow> plain_id rid \<and>
     (\<forall>rv. fate cl = OpenClaim rv \<longrightarrow> \<not> res_closed rv \<and> res_user rv = claim_user cl \<and> res_id rv = rid))"

definition set_ok :: "string \<Rightarrow> (string \<Rightarrow> claim option) \<Rightarrow> f64 list \<Rightarrow> zset \<Rightarrow> bool" where
  "set_ok u C cuts z \<longleftrightarrow> one_per_id z \<and>
     (\<forall>m \<in> dom z. \<exists>cl. C (id_of m) = Some cl \<and> claim_user cl = u \<and> member_ok (id_of m) cl m) \<and>
     (\<forall>rid cl m. C rid = Some cl \<and> claim_user cl = u \<and> \<not> disturbed cl \<and> \<not> lapsed cl \<and>
        standing rid cl = Some m \<and> (\<forall>k \<in> set cuts. k < stamp cl) \<longrightarrow> z m = Some (stamp cl))"

definition fleet_ok :: "('db \<Rightarrow> string \<Rightarrow> zset) \<Rightarrow> string \<Rightarrow> 'db fleet \<Rightarrow> bool" where
  "fleet_ok zs ns F \<longleftrightarrow> claims_ok (claims F) \<and>
     (\<forall>u. set_ok u (claims F) (cutoffs F u) (zs (shared F) (user_key ns u)))"

section \<open>Facts\<close>

lemma user_key_inj [simp]: "user_key ns u = user_key ns v \<longleftrightarrow> u = v"
  by (simp add: user_key_def)

lemma spend_key_user: "namespace R = ns \<Longrightarrow> spend_key R u = user_key ns u"
  by (simp add: spend_key_def user_key_def)

lemma set_okD:
  assumes "set_ok u C cuts z"
  shows "one_per_id z"
    and "m \<in> dom z \<Longrightarrow> \<exists>cl. C (id_of m) = Some cl \<and> claim_user cl = u \<and> member_ok (id_of m) cl m"
    and "C rid = Some cl \<Longrightarrow> claim_user cl = u \<Longrightarrow> \<not> disturbed cl \<Longrightarrow> \<not> lapsed cl \<Longrightarrow> standing rid cl = Some m \<Longrightarrow>
      (\<forall>k \<in> set cuts. k < stamp cl) \<Longrightarrow> z m = Some (stamp cl)"
  using assms unfolding set_ok_def by blast+

lemma set_okI:
  assumes "one_per_id z"
    and "\<And>m. m \<in> dom z \<Longrightarrow> \<exists>cl. C (id_of m) = Some cl \<and> claim_user cl = u \<and> member_ok (id_of m) cl m"
    and "\<And>rid cl m. C rid = Some cl \<Longrightarrow> claim_user cl = u \<Longrightarrow> \<not> disturbed cl \<Longrightarrow> \<not> lapsed cl \<Longrightarrow> standing rid cl = Some m \<Longrightarrow>
      (\<forall>k \<in> set cuts. k < stamp cl) \<Longrightarrow> z m = Some (stamp cl)"
  shows "set_ok u C cuts z"
  using assms unfolding set_ok_def by blast

lemma set_ok_live:
  assumes "set_ok u C cuts z"
  shows "set_ok u C (fsub now w # cuts) (live now w z)"
proof (rule set_okI)
  show "one_per_id (live now w z)" using set_okD(1) [OF assms] one_per_id_scripts(1) by blast
  show "\<exists>cl. C (id_of m) = Some cl \<and> claim_user cl = u \<and> member_ok (id_of m) cl m" if "m \<in> dom (live now w z)" for m
  proof -
    have "m \<in> dom z" using that by (auto simp: live_def)
    from set_okD(2) [OF assms this] show ?thesis .
  qed
  show "live now w z m = Some (stamp cl)"
    if "C rid = Some cl" "claim_user cl = u" "\<not> disturbed cl" "\<not> lapsed cl" "standing rid cl = Some m"
      "\<forall>k \<in> set (fsub now w # cuts). k < stamp cl" for rid cl m
    using set_okD(3) [OF assms that(1-5)] that(6) by (simp add: live_def)
qed

lemma set_ok_cut: "set_ok u C cuts z \<Longrightarrow> set_ok u C (k # cuts) z"
  by (rule set_okI) (auto dest: set_okD)

text \<open>An expiry leaves nothing, and nothing that must be there.\<close>

lemma zs_delete_key:
  assumes "redis_laws ops zs"
  shows "zs (delete_key ops key db) = (zs db)(key := Map.empty)"
proof -
  have "zs (foldl (\<lambda>db m. zrem ops db key m) db ms) = (zs db)(key := zs db key |` (- set ms))" for ms
    by (induction ms rule: rev_induct) (auto simp: redis_lawsD(4) [OF assms] fun_eq_iff restrict_map_def)
  then show ?thesis
    by (auto simp: delete_key_def redis_lawsD(1) [OF assms] fun_eq_iff restrict_map_def)
qed

lemma lapse_Some:
  assumes "lapse u C rid = Some cl"
  shows "\<exists>cl0. C rid = Some cl0 \<and> cl = (if claim_user cl0 = u then cl0\<lparr>lapsed := True\<rparr> else cl0)"
  using assms unfolding lapse_def by (cases "C rid") (simp_all add: eq_commute)

lemma lapse_other: "C rid = Some cl \<Longrightarrow> claim_user cl \<noteq> u \<Longrightarrow> lapse u C rid = Some cl"
  by (simp add: lapse_def)

lemma claims_ok_lapse: "claims_ok C \<Longrightarrow> claims_ok (lapse u C)"
  unfolding claims_ok_def
proof (intro allI impI, goal_cases)
  case (1 rid cl)
  from lapse_Some [OF 1(2)] obtain cl0 where
    "C rid = Some cl0" "cl = (if claim_user cl0 = u then cl0\<lparr>lapsed := True\<rparr> else cl0)" by blast
  with 1(1) show ?case by (cases "claim_user cl0 = u") simp_all
qed

lemma set_ok_lapse:
  assumes "set_ok v C cuts z"
  shows "set_ok v (lapse u C) cuts (if v = u then Map.empty else z)"
proof (rule set_okI)
  show "one_per_id (if v = u then Map.empty else z)" using set_okD(1) [OF assms] by (simp add: one_per_id_def)
  show "\<exists>cl. lapse u C (id_of m) = Some cl \<and> claim_user cl = v \<and> member_ok (id_of m) cl m"
    if m: "m \<in> dom (if v = u then Map.empty else z)" for m
  proof -
    have "v \<noteq> u" "m \<in> dom z" using m by (auto split: if_splits)
    with set_okD(2) [OF assms] lapse_other show ?thesis by metis
  qed
  show "(if v = u then Map.empty else z) m = Some (stamp cl)"
    if c: "lapse u C rid = Some cl" "claim_user cl = v" "\<not> disturbed cl" "\<not> lapsed cl" "standing rid cl = Some m"
      "\<forall>k \<in> set cuts. k < stamp cl" for rid cl m
  proof -
    from lapse_Some [OF c(1)] obtain cl0 where
      "C rid = Some cl0" "cl = (if claim_user cl0 = u then cl0\<lparr>lapsed := True\<rparr> else cl0)" by blast
    then have "C rid = Some cl" "claim_user cl \<noteq> u" using c(4) by (cases "claim_user cl0 = u"; simp)+
    with set_okD(3) [OF assms _ c(2-6)] c(2) show ?thesis by simp
  qed
qed

text \<open>A change of one reservation's record and of no other reservation's members.\<close>

lemma set_ok_write:
  assumes "set_ok u C cuts z" "claims_ok C" "claim_user cl = u" "one_per_id z'"
    and same: "\<And>m. id_of m \<noteq> rid \<Longrightarrow> z' m = z m"
    and own: "\<And>m. m \<in> dom z' \<Longrightarrow> id_of m = rid \<Longrightarrow> member_ok rid cl m"
    and stands: "\<And>m. \<not> disturbed cl \<Longrightarrow> standing rid cl = Some m \<Longrightarrow> z' m = Some (stamp cl)"
  shows "set_ok u (C(rid \<mapsto> cl)) cuts z'"
proof (rule set_okI)
  show "one_per_id z'" by (rule assms(4))
  show "\<exists>cl'. (C(rid \<mapsto> cl)) (id_of m) = Some cl' \<and> claim_user cl' = u \<and> member_ok (id_of m) cl' m" if m: "m \<in> dom z'" for m
  proof (cases "id_of m = rid")
    case True
    with own [OF m] assms(3) show ?thesis by simp
  next
    case False
    with m same have "m \<in> dom z" by auto
    from set_okD(2) [OF assms(1) this] False show ?thesis by simp
  qed
  show "z' m = Some (stamp cl')"
    if c: "(C(rid \<mapsto> cl)) rid' = Some cl'" "claim_user cl' = u" "\<not> disturbed cl'" "\<not> lapsed cl'" "standing rid' cl' = Some m"
      "\<forall>k \<in> set cuts. k < stamp cl'" for rid' cl' m
  proof (cases "rid' = rid")
    case True
    with c stands show ?thesis by simp
  next
    case False
    then have C: "C rid' = Some cl'" using c(1) by simp
    then have "plain_id rid'" using assms(2) by (simp add: claims_ok_def)
    then have "id_of m = rid'" using c(5) by (auto simp: standing_def split: fate.splits)
    with same False set_okD(3) [OF assms(1) C c(2-6)] show ?thesis by simp
  qed
qed

text \<open>The record of one user's reservation does not concern another user's set.\<close>

lemma set_ok_elsewhere:
  assumes "set_ok v C cuts z" "claim_user cl \<noteq> v" "\<And>cl0. C rid = Some cl0 \<Longrightarrow> claim_user cl0 \<noteq> v"
  shows "set_ok v (C(rid \<mapsto> cl)) cuts z"
proof (rule set_okI)
  show "one_per_id z" by (rule set_okD(1) [OF assms(1)])
  show "\<exists>cl'. (C(rid \<mapsto> cl)) (id_of m) = Some cl' \<and> claim_user cl' = v \<and> member_ok (id_of m) cl' m" if "m \<in> dom z" for m
    using set_okD(2) [OF assms(1) that] assms(3) by auto
qed (use set_okD(3) [OF assms(1)] assms(2) in \<open>auto split: if_splits\<close>)

lemma no_member_yet: "set_ok u C cuts z \<Longrightarrow> C rid = None \<Longrightarrow> m \<in> dom z \<Longrightarrow> id_of m \<noteq> rid"
  using set_okD(2) by fastforce

text \<open>A reservation's members are its hold or nothing while it is open.\<close>

lemma open_member:
  assumes "set_ok u C cuts z" "C rid = Some cl" "fate cl = OpenClaim rv" "m \<in> dom z" "id_of m = rid"
  shows "m = member_of rid (claim_amount cl)"
  using set_okD(2) [OF assms(1,4)] assms(2,3,5) by (simp add: member_ok_def)

text \<open>What a script leaves, whether or not the hold is still there.\<close>

lemma fleet_settle_set:
  assumes "redis_laws ops zs" "plain_id rid" "one_per_id (zs db key)" "\<And>m. m \<in> dom (zs db key) \<Longrightarrow> id_of m = rid \<Longrightarrow> m = member_of rid a"
  shows "zs (snd (settle_lua ops key ukey now rid c w db)) =
    (zs db)(key := (zs db key)(member_of rid a := None, member_of rid c \<mapsto> now))"
proof (cases "member_of rid a \<in> dom (zs db key)")
  case True
  from close_lua_effect(2) [OF assms(1-3) True] show ?thesis .
next
  case False
  then have "rid \<notin> id_of ` dom (zs db key)" using assms(4) by (metis imageE)
  from hold_of_None [OF assms(1,2) this] redis_lawsD [OF assms(1)]
  have "zs (snd (settle_lua ops key ukey now rid c w db)) = (zs db)(key := (zs db key)(member_of rid c \<mapsto> now))"
    by (simp add: settle_lua_def Let_def fun_eq_iff)
  moreover have "(zs db key)(member_of rid a := None) = zs db key" using False by (auto simp: fun_eq_iff)
  ultimately show ?thesis by simp
qed

lemma fleet_release_set:
  assumes "redis_laws ops zs" "plain_id rid" "one_per_id (zs db key)" "\<And>m. m \<in> dom (zs db key) \<Longrightarrow> id_of m = rid \<Longrightarrow> m = member_of rid a"
  shows "zs (snd (release_lua ops key rid db)) = (zs db)(key := (zs db key)(member_of rid a := None))"
proof (cases "member_of rid a \<in> dom (zs db key)")
  case True
  from close_lua_effect(1) [OF assms(1-3) True] show ?thesis .
next
  case False
  then have "rid \<notin> id_of ` dom (zs db key)" using assms(4) by (metis imageE)
  from hold_of_None [OF assms(1,2) this] have "zs (snd (release_lua ops key rid db)) = zs db"
    by (simp add: release_lua_def)
  moreover have "(zs db key)(member_of rid a := None) = zs db key" using False by (auto simp: fun_eq_iff)
  ultimately show ?thesis by simp
qed

lemma charge_one_per_id:
  assumes "plain_id rid" "one_per_id z" "\<And>m. m \<in> dom z \<Longrightarrow> id_of m = rid \<Longrightarrow> m = member_of rid a"
  shows "one_per_id (z(member_of rid a := None, member_of rid c \<mapsto> now))"
  using assms unfolding one_per_id_def inj_on_def by (auto split: if_splits)

text \<open>A call that was not disturbed ran its script and brought its reply.\<close>

lemma undisturbed_runs:
  assumes "eval_script t1 t2 t3 ss run db = ((reply, db'), ss')" "undisturbed (t1, t2, t3)"
  shows "reply = Some (fst (run db))" "db' = snd (run db)"
  using assms by (auto simp: eval_script_def Let_def over_def undisturbed_def split: if_splits prod.splits)

section \<open>The steps\<close>

text \<open>The data after a call is that before it or that after the script; with a disturbed call it may be either.\<close>

lemma fleet_okI:
  assumes "claims_ok C" "\<And>v. set_ok v C (cuts v) (zs db (user_key ns v))"
  shows "fleet_ok zs ns \<lparr>shared = db, claims = C, cutoffs = cuts\<rparr>"
  using assms by (simp add: fleet_ok_def)

lemma claims_ok_put:
  assumes "claims_ok C" "plain_id rid"
    and "\<And>rv. fate cl = OpenClaim rv \<Longrightarrow> \<not> res_closed rv \<and> res_user rv = claim_user cl \<and> res_id rv = rid"
  shows "claims_ok (C(rid \<mapsto> cl))"
  using assms by (simp add: claims_ok_def)

lemma reserve_step:
  assumes laws: "redis_laws ops zs" and C: "claims_ok C" and F: "\<And>v. set_ok v C (cuts v) (zs db (user_key ns v))"
    and new: "plain_id rid" "C rid = None" and R: "namespace R = ns"
    and call: "redis_reserve ops number reported n R ss now rid u a limit db = (res, ss', db')"
    and cl: "cl = \<lparr>claim_user = u, claim_amount = a, fate = (case res of Inl x \<Rightarrow> RefusedClaim | Inr rv \<Rightarrow> OpenClaim rv),
      disturbed = \<not> undisturbed n, stamp = now, lapsed = False\<rparr>"
  shows "claims_ok (C(rid \<mapsto> cl))"
    and "set_ok v (C(rid \<mapsto> cl)) (put_cutoff u (fsub now (redis_window R)) cuts v) (zs db' (user_key ns v))"
proof -
  obtain t1 t2 t3 where n: "n = (t1, t2, t3)" by (metis prod_cases3)
  let ?run = "reserve_lua ops number (user_key ns u) now (redis_window R) a limit (member_of rid a)"
  obtain reply where e: "eval_script t1 t2 t3 ss ?run db = ((reply, db'), ss')"
    and res: "res = reserve_reply reported R now rid u a limit reply"
    using call by (auto simp: redis_reserve_def n spend_key_user [OF R] split: prod.splits)
  obtain ok tot db1 where run: "?run db = ((ok, tot), db1)" by (metis prod.exhaust)
  define z where "z = zs db (user_key ns u)"
  define z1 where "z1 = live now (redis_window R) z"
  have db1: "zs db1 = (zs db)(user_key ns u := if ok then z1(member_of rid a \<mapsto> now) else z1)"
    using reserve_lua_effect [OF laws run] unfolding z1_def z_def by metis
  have rv: "\<not> res_closed rv \<and> res_user rv = u \<and> res_id rv = rid" if "res = Inr rv" for rv
    using that unfolding res by (auto simp: reserve_reply_def Let_def split: option.splits prod.splits if_splits)
  then show C': "claims_ok (C(rid \<mapsto> cl))" using C new(1) by (intro claims_ok_put) (auto simp: cl split: sum.splits)
  show "set_ok v (C(rid \<mapsto> cl)) (put_cutoff u (fsub now (redis_window R)) cuts v) (zs db' (user_key ns v))"
  proof (cases "v = u")
    case False
    have "zs db' (user_key ns v) = zs db (user_key ns v)"
      using eval_script_cases [OF e] db1 run False by auto
    with set_ok_elsewhere [OF F [of v], of cl rid] False new(2) show ?thesis by (simp add: cl put_cutoff_def)
  next
    case True
    define cut where "cut = fsub now (redis_window R)"
    have ok_z: "set_ok u C (cut # cuts u) z" using set_ok_cut [OF F] by (simp add: z_def)
    have ok_z1: "set_ok u C (cut # cuts u) z1" unfolding z1_def cut_def z_def by (rule set_ok_live [OF F])
    have none: "id_of m \<noteq> rid" if "m \<in> dom z" for m using no_member_yet [OF ok_z new(2) that] .
    have none1: "id_of m \<noteq> rid" if "m \<in> dom z1" for m using no_member_yet [OF ok_z1 new(2) that] .
    have free: "set_ok u (C(rid \<mapsto> cl)) (cut # cuts u) z0"
      if "set_ok u C (cut # cuts u) z0" "\<And>m. m \<in> dom z0 \<Longrightarrow> id_of m \<noteq> rid" "disturbed cl \<or> fate cl = RefusedClaim" for z0
      by (rule set_ok_write [OF that(1) C _ set_okD(1) [OF that(1)]]) (use that in \<open>auto simp: cl standing_def\<close>)
    have held: "set_ok u (C(rid \<mapsto> cl)) (cut # cuts u) (z1(member_of rid a \<mapsto> now))"
      if "disturbed cl \<or> (\<exists>rv. fate cl = OpenClaim rv)"
    proof (rule set_ok_write [OF ok_z1 C])
      show "one_per_id (z1(member_of rid a \<mapsto> now))"
        by (rule one_per_id_scripts(3) [OF set_okD(1) [OF ok_z1] _ new(1)]) (metis imageE none1)
      show "member_ok rid cl m" if "m \<in> dom (z1(member_of rid a \<mapsto> now))" "id_of m = rid" for m
        using that none1 \<open>disturbed cl \<or> (\<exists>rv. fate cl = OpenClaim rv)\<close>
        by (auto simp: member_ok_def cl split: fate.splits sum.splits)
    qed (use new(1) in \<open>auto simp: cl standing_def split: fate.splits sum.splits\<close>)
    show ?thesis
    proof (cases "undisturbed n")
      case True
      from undisturbed_runs [OF e True [unfolded n]] run have rep: "reply = Some (ok, tot)" "db' = db1" by simp_all
      then have "fate cl = RefusedClaim \<and> \<not> ok \<or> (\<exists>rv. fate cl = OpenClaim rv) \<and> ok"
        by (auto simp: cl res reserve_reply_def Let_def)
      with rep db1 free [OF ok_z1 none1] held \<open>v = u\<close> show ?thesis by (auto simp: cut_def put_cutoff_def)
    next
      case False
      then have d: "disturbed cl" by (simp add: cl)
      from eval_script_cases [OF e] run have "db' = db \<or> db' = db1" by auto
      then show ?thesis
        using free [OF ok_z none] free [OF ok_z1 none1] held d db1 \<open>v = u\<close> by (auto simp: cut_def z_def put_cutoff_def)
    qed
  qed
qed

text \<open>Closing a reservation: its set is as it was or as the script leaves it.\<close>

lemma close_step:
  assumes C: "claims_ok C" and F: "\<And>v. set_ok v C (cuts v) (zs db (user_key ns v))"
    and cl: "C rid = Some cl" "fate cl = OpenClaim rv" and rid: "plain_id rid"
    and cl': "claim_user cl' = claim_user cl" "claim_amount cl' = claim_amount cl"
    and f: "fate cl' = ReleasedClaim \<or> fate cl' = SettledClaim c \<and> stamp cl' = now"
    and d: "disturbed cl \<longrightarrow> disturbed cl'"
    and db': "disturbed cl' \<and> zs db' = zs db \<or> (let z = zs db (user_key ns (claim_user cl)) in
      zs db' = (zs db)(user_key ns (claim_user cl) := if fate cl' = ReleasedClaim
        then z(member_of rid (claim_amount cl) := None)
        else z(member_of rid (claim_amount cl) := None, member_of rid c \<mapsto> now)))"
  shows "claims_ok (C(rid \<mapsto> cl'))" and "set_ok v (C(rid \<mapsto> cl')) (cuts v) (zs db' (user_key ns v))"
proof -
  show "claims_ok (C(rid \<mapsto> cl'))" using C rid f by (intro claims_ok_put) auto
  define z where "z = zs db (user_key ns (claim_user cl))"
  have ok: "set_ok (claim_user cl) C (cuts (claim_user cl)) z" unfolding z_def by (rule F)
  have own: "m = member_of rid (claim_amount cl)" if "m \<in> dom z" "id_of m = rid" for m
    by (rule open_member [OF ok cl that])
  show "set_ok v (C(rid \<mapsto> cl')) (cuts v) (zs db' (user_key ns v))"
  proof (cases "v = claim_user cl")
    case False
    then have "zs db' (user_key ns v) = zs db (user_key ns v)" using db' by (auto simp: Let_def)
    with set_ok_elsewhere [OF F [of v], of cl' rid] False cl cl' show ?thesis by simp
  next
    case True
    let ?z' = "zs db' (user_key ns v)"
    consider (left) "disturbed cl'" "?z' = z"
      | (released) "fate cl' = ReleasedClaim" "?z' = z(member_of rid (claim_amount cl) := None)"
      | (charged) "fate cl' = SettledClaim c" "stamp cl' = now"
          "?z' = z(member_of rid (claim_amount cl) := None, member_of rid c \<mapsto> now)"
      using db' f True by (auto simp: z_def Let_def split: if_splits)
    then show ?thesis
    proof cases
      case left
      show ?thesis
      proof (rule set_ok_write [OF ok [folded True] C])
        show "member_ok rid cl' m" if "m \<in> dom ?z'" "id_of m = rid" for m
          using own [of m] that left f cl' by (auto simp only: member_ok_def split: fate.splits)
      qed (use left cl' True set_okD(1) [OF ok] in simp_all)
    next
      case released
      show ?thesis
      proof (rule set_ok_write [OF ok [folded True] C])
        show "one_per_id ?z'" unfolding released by (rule one_per_id_scripts(2) [OF set_okD(1) [OF ok]])
        show "member_ok rid cl' m" if "m \<in> dom ?z'" "id_of m = rid" for m
          using that own [of m] unfolding released by (auto split: if_splits)
      qed (use released rid cl' True in \<open>auto simp: standing_def\<close>)
    next
      case charged
      show ?thesis
      proof (rule set_ok_write [OF ok [folded True] C])
        show "one_per_id ?z'" unfolding charged by (rule charge_one_per_id [OF rid set_okD(1) [OF ok] own])
        show "member_ok rid cl' m" if "m \<in> dom ?z'" "id_of m = rid" for m
          using that own [of m] charged by (auto simp: member_ok_def split: if_splits)
      qed (use charged rid cl' True in \<open>auto simp: standing_def\<close>)
    qed
  qed
qed

lemma settle_step:
  assumes laws: "redis_laws ops zs" and C: "claims_ok C" and F: "\<And>v. set_ok v C (cuts v) (zs db (user_key ns v))"
    and cl: "C rid = Some cl" "fate cl = OpenClaim rv" and R: "namespace R = ns"
    and call: "redis_settle ops n R ss now rv c mname inp out db = (res, rv', R', ss', db')"
    and cl': "cl' = cl\<lparr>fate := SettledClaim c, disturbed := disturbed cl \<or> \<not> undisturbed n, stamp := now, lapsed := False\<rparr>"
  shows "claims_ok (C(rid \<mapsto> cl'))" and "set_ok v (C(rid \<mapsto> cl')) (cuts v) (zs db' (user_key ns v))"
proof -
  obtain t1 t2 t3 where n: "n = (t1, t2, t3)" by (metis prod_cases3)
  have rv: "plain_id rid" "\<not> res_closed rv" "res_user rv = claim_user cl" "res_id rv = rid"
    using C cl by (auto simp: claims_ok_def)
  let ?run = "settle_lua ops (user_key ns (claim_user cl)) (usage_key R (claim_user cl)) now rid c (redis_window R)"
  obtain reply where e: "eval_script t1 t2 t3 ss ?run db = ((reply, db'), ss')"
    using call rv by (auto simp: redis_settle_def n spend_key_user [OF R] Let_def split: prod.splits if_splits)
  have set: "zs (snd (?run db)) = (zs db)(user_key ns (claim_user cl) := (zs db (user_key ns (claim_user cl)))
      (member_of rid (claim_amount cl) := None, member_of rid c \<mapsto> now))"
    by (rule fleet_settle_set [OF laws rv(1) set_okD(1) [OF F] open_member [OF F cl]])
  have "undisturbed n \<Longrightarrow> db' = snd (?run db)" using undisturbed_runs(2) [OF e] n by simp
  then have "disturbed cl' \<and> zs db' = zs db \<or> (let z = zs db (user_key ns (claim_user cl)) in
      zs db' = (zs db)(user_key ns (claim_user cl) := if fate cl' = ReleasedClaim
        then z(member_of rid (claim_amount cl) := None)
        else z(member_of rid (claim_amount cl) := None, member_of rid c \<mapsto> now)))"
    using eval_script_cases [OF e] set by (auto simp: cl' Let_def)
  from close_step [OF C F cl rv(1) _ _ _ _ this]
  show "claims_ok (C(rid \<mapsto> cl'))" and "set_ok v (C(rid \<mapsto> cl')) (cuts v) (zs db' (user_key ns v))"
    by (simp_all add: cl')
qed

lemma release_step:
  assumes laws: "redis_laws ops zs" and C: "claims_ok C" and F: "\<And>v. set_ok v C (cuts v) (zs db (user_key ns v))"
    and cl: "C rid = Some cl" "fate cl = OpenClaim rv" and R: "namespace R = ns"
    and call: "redis_release ops n R ss rv db = (res, rv', ss', db')"
    and cl': "cl' = cl\<lparr>fate := ReleasedClaim, disturbed := disturbed cl \<or> \<not> undisturbed n\<rparr>"
  shows "claims_ok (C(rid \<mapsto> cl'))" and "set_ok v (C(rid \<mapsto> cl')) (cuts v) (zs db' (user_key ns v))"
proof -
  obtain t1 t2 t3 where n: "n = (t1, t2, t3)" by (metis prod_cases3)
  have rv: "plain_id rid" "\<not> res_closed rv" "res_user rv = claim_user cl" "res_id rv = rid"
    using C cl by (auto simp: claims_ok_def)
  let ?run = "release_lua ops (user_key ns (claim_user cl)) rid"
  obtain reply where e: "eval_script t1 t2 t3 ss ?run db = ((reply, db'), ss')"
    using call rv by (auto simp: redis_release_def n spend_key_user [OF R] split: prod.splits if_splits)
  have set: "zs (snd (?run db)) = (zs db)(user_key ns (claim_user cl) := (zs db (user_key ns (claim_user cl)))
      (member_of rid (claim_amount cl) := None))"
    by (rule fleet_release_set [OF laws rv(1) set_okD(1) [OF F] open_member [OF F cl]])
  have "undisturbed n \<Longrightarrow> db' = snd (?run db)" using undisturbed_runs(2) [OF e] n by simp
  then have "disturbed cl' \<and> zs db' = zs db \<or> (let z = zs db (user_key ns (claim_user cl)) in
      zs db' = (zs db)(user_key ns (claim_user cl) := if fate cl' = ReleasedClaim
        then z(member_of rid (claim_amount cl) := None)
        else z(member_of rid (claim_amount cl) := None, member_of rid 0 \<mapsto> 0)))"
    using eval_script_cases [OF e] set by (auto simp: cl' Let_def)
  from close_step [OF C F cl rv(1) _ _ _ _ this]
  show "claims_ok (C(rid \<mapsto> cl'))" and "set_ok v (C(rid \<mapsto> cl')) (cuts v) (zs db' (user_key ns v))"
    by (simp_all add: cl')
qed

lemma spent_step:
  assumes "redis_laws ops zs" "\<And>v. set_ok v C (cuts v) (zs db (user_key ns v))" "namespace R = ns"
  shows "set_ok v C (put_cutoff u (fsub now (redis_window R)) cuts v) (zs (snd (redis_spent ops number t1 t2 R now u db)) (user_key ns v))"
proof -
  let ?p = "zremrangebyscore ops db (user_key ns u) (fsub now (redis_window R))"
  have "snd (redis_spent ops number t1 t2 R now u db) = db \<or> snd (redis_spent ops number t1 t2 R now u db) = ?p"
    by (auto simp: redis_spent_def over_def Let_def spend_key_user [OF assms(3)] split: transport.splits)
  moreover have "set_ok v C (put_cutoff u (fsub now (redis_window R)) cuts v) (zs ?p (user_key ns v))"
    using set_ok_live [OF assms(2) [of v], of now "redis_window R"] assms(2) [of v]
    by (cases "v = u") (simp_all add: redis_lawsD(5) [OF assms(1)] live_def put_cutoff_def)
  moreover have "set_ok v C (put_cutoff u (fsub now (redis_window R)) cuts v) (zs db (user_key ns v))"
    using assms(2) [of v] set_ok_cut by (cases "v = u") (simp_all add: put_cutoff_def)
  ultimately show ?thesis by auto
qed

lemma fleet_ok_step:
  assumes "redis_laws ops zs" "fleet_ok zs ns F" "fleet_do ops number reported ns ev F = Some F'"
  shows "fleet_ok zs ns F'"
proof -
  have C: "claims_ok (claims F)" and S: "set_ok v (claims F) (cutoffs F v) (zs (shared F) (user_key ns v))" for v
    using assms(2) by (simp_all add: fleet_ok_def)
  show ?thesis
  proof (cases ev)
    case (FleetReserve R ss n now rid u a limit)
    obtain res ss' db where r: "redis_reserve ops number reported n R ss now rid u a limit (shared F) = (res, ss', db)"
      by (metis prod_cases3)
    have g: "plain_id rid" "claims F rid = None" "namespace R = ns"
      using assms(3) FleetReserve by (auto split: if_splits)
    with reserve_step [OF assms(1) C S g r refl] assms(3) FleetReserve r show ?thesis
      by (auto simp: fleet_ok_def put_claim_def)
  next
    case (FleetSettle R ss n now rid c mname inp out)
    then obtain cl rv where cl: "claims F rid = Some cl" "fate cl = OpenClaim rv" "namespace R = ns"
      using assms(3) by (auto split: option.splits fate.splits if_splits)
    obtain res rv' R' ss' db where r: "redis_settle ops n R ss now rv c mname inp out (shared F) = (res, rv', R', ss', db)"
      by (metis prod.exhaust)
    with settle_step [OF assms(1) C S cl r refl] assms(3) FleetSettle cl show ?thesis
      by (auto simp: fleet_ok_def put_claim_def)
  next
    case (FleetRelease R ss n rid)
    then obtain cl rv where cl: "claims F rid = Some cl" "fate cl = OpenClaim rv" "namespace R = ns"
      using assms(3) by (auto split: option.splits fate.splits if_splits)
    obtain res rv' ss' db where r: "redis_release ops n R ss rv (shared F) = (res, rv', ss', db)"
      by (metis prod.exhaust)
    with release_step [OF assms(1) C S cl r refl] assms(3) FleetRelease cl show ?thesis
      by (auto simp: fleet_ok_def put_claim_def)
  next
    case (FleetSpent R t1 t2 now u)
    then have "namespace R = ns" using assms(3) by (auto split: if_splits)
    with spent_step [OF assms(1) S this] C assms(3) FleetSpent show ?thesis
      by (auto simp: fleet_ok_def)
  next
    case (FleetExpire u)
    then have F': "shared F' = delete_key ops (user_key ns u) (shared F)" "claims F' = lapse u (claims F)" "cutoffs F' = cutoffs F"
      using assms(3) by (auto simp: user_key_def)
    have "set_ok v (lapse u (claims F)) (cutoffs F v) (zs (shared F') (user_key ns v))" for v
      using set_ok_lapse [OF S [of v], of u] by (cases "v = u") (simp_all add: F' zs_delete_key [OF assms(1)])
    with claims_ok_lapse [OF C] show ?thesis by (simp add: fleet_ok_def F')
  qed
qed

lemma fleet_ok_exec:
  "redis_laws ops zs \<Longrightarrow> fleet_ok zs ns F \<Longrightarrow> fleet_exec ops number reported ns evs F = Some F' \<Longrightarrow> fleet_ok zs ns F'"
proof (induction evs arbitrary: F)
  case (Cons ev evs)
  then obtain F1 where "fleet_do ops number reported ns ev F = Some F1" "fleet_exec ops number reported ns evs F1 = Some F'"
    by (auto split: option.splits simp del: fleet_do.simps)
  with Cons fleet_ok_step show ?case by blast
qed simp

definition new_fleet :: "'db \<Rightarrow> 'db fleet" where
  "new_fleet db = \<lparr>shared = db, claims = Map.empty, cutoffs = (\<lambda>_. [])\<rparr>"

lemma fleet_ok_new: "(\<And>u. zs db (user_key ns u) = Map.empty) \<Longrightarrow> fleet_ok zs ns (new_fleet db)"
  by (simp add: fleet_ok_def new_fleet_def claims_ok_def set_ok_def one_per_id_def)

section \<open>Properties\<close>

text \<open>C6. The fleet's books are exact whatever the network loses. On any number of replicas, each with its own clock and
  outage policy, every member of a user's set belongs to one reservation of that user, and no reservation has two:
  it is the hold of an open reservation or the one charge of a settled one; only a reservation of which a message
  was lost may have left its hold behind after it was refused, released or settled. And the hold of an open
  reservation, or the charge of a settled one, of which no message was lost, is in the set, with the time its
  replica gave it, until a replica prunes the user's set up to that time or the user's key expires.\<close>

theorem fleet_accounts_are_exact:
  assumes "redis_laws ops zs" "\<And>u. zs db (user_key ns u) = Map.empty"
    and "fleet_exec ops number reported ns evs (new_fleet db) = Some F"
  shows "one_per_id (zs (shared F) (user_key ns u)) \<and>
    (\<forall>m \<in> dom (zs (shared F) (user_key ns u)).
       \<exists>cl. claims F (id_of m) = Some cl \<and> claim_user cl = u \<and> member_ok (id_of m) cl m) \<and>
    (\<forall>rid cl m. claims F rid = Some cl \<and> claim_user cl = u \<and> \<not> disturbed cl \<and> \<not> lapsed cl \<and>
       standing rid cl = Some m \<and> (\<forall>k \<in> set (cutoffs F u). k < stamp cl) \<longrightarrow>
       zs (shared F) (user_key ns u) m = Some (stamp cl))"
proof -
  have "fleet_ok zs ns (new_fleet db)" by (rule fleet_ok_new) (rule assms(2))
  from fleet_ok_exec [OF assms(1) this assms(3)] show ?thesis unfolding fleet_ok_def set_ok_def by blast
qed

text \<open>A reservation and its settlement at half the hold.\<close>

theorem fleet_accounts_are_exact_witness:
  "\<exists>F. fleet_exec list_redis read_fixed id ''llm''
       [FleetReserve \<lparr>redis_window = 60, namespace = ''llm'', fail_closed = True, max_records = 10, local_records = []\<rparr>
          \<lparr>hash_cached = False, known_to_server = False\<rparr> (Delivered, Delivered, Delivered) 100 ''a'' ''u'' 1 5,
        FleetSettle \<lparr>redis_window = 60, namespace = ''llm'', fail_closed = True, max_records = 10, local_records = []\<rparr>
          \<lparr>hash_cached = True, known_to_server = False\<rparr> (Delivered, Delivered, Delivered) 110 ''a'' (1 / 2) ''m'' 3 4]
       (new_fleet (\<lambda>_. [])) = Some F \<and>
     map_of (shared F (user_key ''llm'' ''u'')) (member_of ''a'' (1 / 2)) = Some 110"
proof -
  let ?R = "\<lparr>redis_window = 60, namespace = ''llm'', fail_closed = True, max_records = 10, local_records = []\<rparr>"
  let ?net = "(Delivered, Delivered, Delivered)"
  let ?evs = "[FleetReserve ?R \<lparr>hash_cached = False, known_to_server = False\<rparr> ?net 100 ''a'' ''u'' 1 5,
        FleetSettle ?R \<lparr>hash_cached = True, known_to_server = False\<rparr> ?net 110 ''a'' (1 / 2) ''m'' 3 4]"
  have "\<not> fadd 5 (lit 1 9) < fadd 0 1" by code_simp
  then have ok: "fst (fst (reserve_lua list_redis read_fixed ''llm:spend:u'' 100 60 1 5 (member_of ''a'' 1) (\<lambda>_. [])))"
    by (simp add: reserve_lua_def list_redis_def Let_def)
  obtain tot db where l: "reserve_lua list_redis read_fixed ''llm:spend:u'' 100 60 1 5 (member_of ''a'' 1) (\<lambda>_. []) = ((True, tot), db)"
    using ok by (cases "reserve_lua list_redis read_fixed ''llm:spend:u'' 100 60 1 5 (member_of ''a'' 1) (\<lambda>_. [])") auto
  then obtain rv ss where r: "redis_reserve list_redis read_fixed id ?net ?R \<lparr>hash_cached = False, known_to_server = False\<rparr>
      100 ''a'' ''u'' 1 5 (\<lambda>_. []) = (Inr rv, ss, db)"
    by (simp add: redis_reserve_def eval_script_def over_def reserve_reply_def spend_key_def Let_def)
  obtain res rv' R' ss' db' where t: "redis_settle list_redis ?net ?R \<lparr>hash_cached = True, known_to_server = False\<rparr>
      110 rv (1 / 2) ''m'' 3 4 db = (res, rv', R', ss', db')" by (metis prod.exhaust)
  let ?cl = "\<lparr>claim_user = ''u'', claim_amount = 1, fate = SettledClaim (1 / 2), disturbed = False, stamp = 110, lapsed = False\<rparr>"
  have e: "fleet_exec list_redis read_fixed id ''llm'' ?evs (new_fleet (\<lambda>_. [])) =
      Some \<lparr>shared = db', claims = [''a'' \<mapsto> ?cl], cutoffs = put_cutoff ''u'' (fsub 100 60) (\<lambda>_. [])\<rparr>"
    by (simp add: r t new_fleet_def put_claim_def plain_id_def undisturbed_def)
  have k: "fsub 100 60 < 110" by code_simp
  have st: "standing ''a'' ?cl = Some (member_of ''a'' (1 / 2))" by (simp add: standing_def)
  have "\<And>u. map_of ((\<lambda>_. []) (user_key ''llm'' u) :: (string \<times> f64) list) = Map.empty" by simp
  note exact = fleet_accounts_are_exact [OF list_redis_laws this e, of "''u''", THEN conjunct2, THEN conjunct2, rule_format]
  have "map_of (db' (user_key ''llm'' ''u'')) (member_of ''a'' (1 / 2)) = Some 110"
    using exact [of "''a''" ?cl "member_of ''a'' (1 / 2)"] st k by (simp add: put_cutoff_def)
  with e show ?thesis by simp
qed

end
