(* ===== verification/LedgerRefinement.thy ===== *)
theory LedgerRefinement
  imports RedisLedger
begin

text \<open>
  The two ledgers of \<open>app/cost/\<close>: the Redis scripts implement the in-process ledger. A user's entries, in the order
  of their times, stand for a sorted set with the member \<open>id:amount\<close> at the time of each. A member says its amount
  to ten decimals, so the entry it stands for has the amount that is read back (\<open>as_written\<close>); the amount that
  was written is \<open>f id\<close>. The times differ, since Redis orders members of one time by name; \<open>in_score_order\<close> is
  Redis' order of \<open>ZRANGE\<close>.
\<close>

section \<open>Representation\<close>

definition in_score_order :: "'db redis_ops \<Rightarrow> ('db \<Rightarrow> string \<Rightarrow> zset) \<Rightarrow> bool" where
  "in_score_order ops zs \<longleftrightarrow> (\<forall>db k. sorted (map (\<lambda>m. the (zs db k m)) (zrange ops db k)))"

type_synonym amounts = "string \<Rightarrow> f64"

abbreviation member_at :: "amounts \<Rightarrow> entry \<Rightarrow> string" where
  "member_at f x \<equiv> member_of (entry_id x) (f (entry_id x))"

definition represents_by :: "amounts \<Rightarrow> zset \<Rightarrow> entry list \<Rightarrow> bool" where
  "represents_by f z es \<longleftrightarrow>
     (\<forall>m t. z m = Some t \<longleftrightarrow> (\<exists>x \<in> set es. m = member_at f x \<and> t = entry_time x)) \<and> distinct (map entry_id es) \<and>
     sorted_wrt (<) (map entry_time es) \<and>
     (\<forall>x \<in> set es. plain_id (entry_id x) \<and> 0 \<le> f (entry_id x) \<and> entry_amount x = round_dec 10 (f (entry_id x)))"

definition represents :: "zset \<Rightarrow> entry list \<Rightarrow> bool" where
  "represents z es \<longleftrightarrow> (\<exists>f. represents_by f z es)"

text \<open>The entries with the amount of one of them as Redis has it.\<close>

definition as_written :: "string \<Rightarrow> entry list \<Rightarrow> entry list" where
  "as_written rid es = map (\<lambda>x. if entry_id x = rid then (entry_time x, round_dec 10 (entry_amount x), rid) else x) es"

lemma as_written_absent: "rid \<notin> entry_id ` set es \<Longrightarrow> as_written rid es = es"
  unfolding as_written_def by (rule map_idI) auto

lemma as_written_append: "as_written rid (es @ es') = as_written rid es @ as_written rid es'"
  by (simp add: as_written_def)

lemma represents_members:
  assumes "represents_by f z es"
  shows "distinct (map (member_at f) es)" "dom z = member_at f ` set es" "x \<in> set es \<Longrightarrow> z (member_at f x) = Some (entry_time x)"
    "x \<in> set es \<Longrightarrow> id_of (member_at f x) = entry_id x"
proof -
  have i: "id_of (member_at f x) = entry_id x" if "x \<in> set es" for x using assms that by (simp add: represents_by_def)
  then show "x \<in> set es \<Longrightarrow> id_of (member_at f x) = entry_id x" .
  have "map id_of (map (member_at f) es) = map entry_id es" using i by simp
  then have "distinct (map id_of (map (member_at f) es))" using assms by (simp only: represents_by_def)
  then show "distinct (map (member_at f) es)" by (simp only: distinct_map)
  show "dom z = member_at f ` set es" "x \<in> set es \<Longrightarrow> z (member_at f x) = Some (entry_time x)"
    using assms unfolding represents_by_def by auto
qed

lemma represents_range:
  assumes "redis_laws ops zs" "in_score_order ops zs" "represents_by f (zs db key) es"
  shows "zrange ops db key = map (member_at f) es"
proof -
  let ?f = "\<lambda>m. the (zs db key m)"
  note m = represents_members [OF assms(3)]
  have f: "map ?f (map (member_at f) es) = map entry_time es" using m(3) by simp
  have strict: "sorted (map entry_time es)" "distinct (map entry_time es)"
    using assms(3) by (simp_all add: represents_by_def strict_sorted_iff)
  have set: "set (zrange ops db key) = set (map (member_at f) es)" using redis_lawsD(1) [OF assms(1)] m(2) by simp
  have inj: "inj_on ?f (set (map (member_at f) es))" using strict(2) unfolding f [symmetric] by (simp only: distinct_map)
  then have "distinct (map ?f (zrange ops db key))"
    using redis_lawsD(2) [OF assms(1)] set by (simp add: distinct_map)
  moreover have "sorted (map ?f (zrange ops db key))" using assms(2) by (simp add: in_score_order_def)
  ultimately show ?thesis
    using inj set strict unfolding f [symmetric] by (intro map_sorted_distinct_set_unique [of ?f]) simp_all
qed

lemma represents_sum:
  assumes "reads_fixed number" "represents_by f z es"
  shows "sum_members number 0 (map (member_at f) es) = total es"
proof -
  have "sum_members number t (map (member_at f) xs) = foldl fadd t (map entry_amount xs)"
    if "\<forall>x \<in> set xs. plain_id (entry_id x) \<and> 0 \<le> f (entry_id x) \<and> entry_amount x = round_dec 10 (f (entry_id x))" for t xs
    using that by (induction xs arbitrary: t) (simp_all add: member_amount_member [OF _ assms(1)])
  then show ?thesis using assms(2) by (simp add: represents_by_def total_def fsum_def)
qed

section \<open>Operations on the representation\<close>

lemma represents_live:
  assumes "represents_by f z es" "fsub now win \<notin> entry_time ` set es"
  shows "represents_by f (live now win z) (filter (\<lambda>x. fsub now win \<le> entry_time x) es)"
proof -
  let ?c = "fsub now win"
  have "live now win z m = Some t \<longleftrightarrow> (\<exists>x \<in> set (filter (\<lambda>x. ?c \<le> entry_time x) es). m = member_at f x \<and> t = entry_time x)" for m t
  proof -
    have "live now win z m = Some t \<longleftrightarrow> z m = Some t \<and> ?c < t" by (auto simp: live_def restrict_map_def)
    also have "\<dots> \<longleftrightarrow> (\<exists>x \<in> set es. m = member_at f x \<and> t = entry_time x) \<and> ?c < t" using assms(1) by (simp add: represents_by_def)
    also have "\<dots> \<longleftrightarrow> (\<exists>x \<in> set (filter (\<lambda>x. ?c \<le> entry_time x) es). m = member_at f x \<and> t = entry_time x)"
    proof -
      have "?c < entry_time x \<longleftrightarrow> ?c \<le> entry_time x" if "x \<in> set es" for x
        using assms(2) that by (metis image_eqI less_le)
      then show ?thesis unfolding set_filter by blast
    qed
    finally show ?thesis .
  qed
  moreover have "distinct (map entry_id (filter (\<lambda>x. ?c \<le> entry_time x) es))" "sorted_wrt (<) (map entry_time (filter (\<lambda>x. ?c \<le> entry_time x) es))"
    using assms(1) by (simp_all add: represents_by_def distinct_map_filter sorted_wrt_map sorted_wrt_filter)
  ultimately show ?thesis using assms(1) unfolding represents_by_def by auto
qed

lemma represents_append:
  assumes "represents_by f z es" "plain_id rid" "rid \<notin> entry_id ` set es" "0 \<le> a" "\<forall>x \<in> set es. entry_time x < now"
  shows "represents_by (f(rid := a)) (z(member_of rid a \<mapsto> now)) (es @ [(now, round_dec 10 a, rid)])"
proof -
  let ?f = "f(rid := a)" and ?x = "(now, round_dec 10 a, rid)"
  have f: "member_at ?f x = member_at f x" "?f (entry_id x) = f (entry_id x)" if "x \<in> set es" for x
    using assms(3) that by auto
  have new: "member_at ?f x \<noteq> member_of rid a" if "x \<in> set es" for x
  proof
    assume "member_at ?f x = member_of rid a"
    with f(1) [OF that] have "member_at f x = member_of rid a" by (rule trans [OF sym])
    then have "id_of (member_at f x) = rid" using assms(2) by simp
    with represents_members(4) [OF assms(1) that] assms(3) that show False by auto
  qed
  have z: "z m = Some t \<longleftrightarrow> (\<exists>x \<in> set es. m = member_at ?f x \<and> t = entry_time x)" for m t
    using assms(1) f(1) unfolding represents_by_def by metis
  have "(z(member_of rid a \<mapsto> now)) m = Some t \<longleftrightarrow> (\<exists>x \<in> set (es @ [?x]). m = member_at ?f x \<and> t = entry_time x)" for m t
  proof (cases "m = member_of rid a")
    case True
    have "(\<exists>x \<in> set (es @ [?x]). m = member_at ?f x \<and> t = entry_time x) \<longleftrightarrow>
        (\<exists>x \<in> set es. m = member_at ?f x \<and> t = entry_time x) \<or> t = now" using True by auto
    with True new show ?thesis by (metis fun_upd_same option.inject)
  next
    case False
    then have "(\<exists>x \<in> set (es @ [?x]). m = member_at ?f x \<and> t = entry_time x) \<longleftrightarrow>
        (\<exists>x \<in> set es. m = member_at ?f x \<and> t = entry_time x)" by auto
    with False z show ?thesis by simp
  qed
  moreover have "distinct (map entry_id (es @ [?x]))" "sorted_wrt (<) (map entry_time (es @ [?x]))"
    using assms unfolding represents_by_def by (auto simp: sorted_wrt_append)
  moreover have "\<forall>x \<in> set (es @ [?x]). plain_id (entry_id x) \<and> 0 \<le> ?f (entry_id x) \<and> entry_amount x = round_dec 10 (?f (entry_id x))"
    using assms(1,2,4) f(2) unfolding represents_by_def by simp
  ultimately show ?thesis unfolding represents_by_def by blast
qed

lemma represents_drop:
  assumes "represents_by f z es"
  shows "represents_by f (case List.find (\<lambda>x. entry_id x = rid) es of None \<Rightarrow> z | Some x \<Rightarrow> z(member_at f x := None)) (drop_entry rid es)"
    and "rid \<notin> entry_id ` set (drop_entry rid es)" "set (drop_entry rid es) \<subseteq> set es"
proof -
  have ids: "distinct (map entry_id es)" using assms by (simp add: represents_by_def)
  then show no: "rid \<notin> entry_id ` set (drop_entry rid es)" by (rule drop_removes)
  show sub: "set (drop_entry rid es) \<subseteq> set es" by (auto simp: drop_entry_filter [OF ids])
  let ?z = "case List.find (\<lambda>x. entry_id x = rid) es of None \<Rightarrow> z | Some x \<Rightarrow> z(member_at f x := None)"
  have "?z m = Some t \<longleftrightarrow> (\<exists>x \<in> set (drop_entry rid es). m = member_at f x \<and> t = entry_time x)" for m t
  proof (cases "List.find (\<lambda>x. entry_id x = rid) es")
    case None
    then have "drop_entry rid es = es" by (intro drop_entry_absent) (auto simp: find_None_iff)
    with None assms show ?thesis by (simp add: represents_by_def)
  next
    case (Some y)
    note y = find_SomeD [OF Some]
    have "member_at f x = member_at f y \<longleftrightarrow> entry_id x = rid" if "x \<in> set es" for x
    proof
      assume "member_at f x = member_at f y"
      then show "entry_id x = rid" using represents_members(4) [OF assms] that y by metis
    next
      assume "entry_id x = rid"
      then have "x = y" using y that ids by (auto simp: distinct_map dest: inj_onD)
      then show "member_at f x = member_at f y" by simp
    qed
    then have iff: "(z(member_at f y := None)) m = Some t \<longleftrightarrow>
        (\<exists>x \<in> set es. entry_id x \<noteq> rid \<and> m = member_at f x \<and> t = entry_time x)"
    proof (cases "m = member_at f y")
      case True
      then show ?thesis using \<open>\<And>x. x \<in> set es \<Longrightarrow> (member_at f x = member_at f y) = (entry_id x = rid)\<close> by (metis fun_upd_same option.distinct(1))
    next
      case False
      have "z m = Some t \<longleftrightarrow> (\<exists>x \<in> set es. m = member_at f x \<and> t = entry_time x)" using assms by (simp add: represents_by_def)
      with False \<open>\<And>x. x \<in> set es \<Longrightarrow> (member_at f x = member_at f y) = (entry_id x = rid)\<close> show ?thesis
        unfolding fun_upd_apply by metis
    qed
    have "set (drop_entry rid es) = {x \<in> set es. entry_id x \<noteq> rid}" by (simp add: drop_entry_filter [OF ids])
    with Some iff show ?thesis by (simp only: option.case) blast
  qed
  moreover have "sorted_wrt (<) (map entry_time (drop_entry rid es))" "distinct (map entry_id (drop_entry rid es))"
    using assms by (simp_all add: drop_entry_filter [OF ids] represents_by_def distinct_map_filter sorted_wrt_map sorted_wrt_filter)
  ultimately show "represents_by f ?z (drop_entry rid es)" using assms sub unfolding represents_by_def by blast
qed

lemma represents_hold:
  assumes "redis_laws ops zs" "in_score_order ops zs" "represents_by f (zs db key) es" "plain_id rid"
  shows "hold_of ops key rid db = map_option (member_at f) (List.find (\<lambda>x. entry_id x = rid) es)"
proof -
  have "starts_with (rid @ '':'') (member_at f x) \<longleftrightarrow> entry_id x = rid" if "x \<in> set es" for x
    using prefix_id [OF assms(4)] represents_members(4) [OF assms(3) that] by metis
  then have "List.find (starts_with (rid @ '':'')) (map (member_at f) es) = map_option (member_at f) (List.find (\<lambda>x. entry_id x = rid) es)"
    by (induction es) auto
  then show ?thesis by (simp add: hold_of_def represents_range [OF assms(1-3)])
qed

lemma settle_lua_set:
  assumes "redis_laws ops zs"
  shows "zs (snd (settle_lua ops key ukey now rid c win db)) key =
    (case hold_of ops key rid db of None \<Rightarrow> zs db key | Some m \<Rightarrow> (zs db key)(m := None))(member_of rid c \<mapsto> now)"
  by (simp add: settle_lua_def Let_def redis_lawsD [OF assms] split: option.split)

lemma release_lua_set:
  assumes "redis_laws ops zs"
  shows "zs (snd (release_lua ops key rid db)) key =
    (case hold_of ops key rid db of None \<Rightarrow> zs db key | Some m \<Rightarrow> (zs db key)(m := None))"
  by (simp add: release_lua_def redis_lawsD [OF assms] split: option.split)

section \<open>A Redis in score order\<close>

definition sorted_redis :: "list_db redis_ops" where
  "sorted_redis = list_redis\<lparr>zrange := \<lambda>db k. sort_key (\<lambda>m. the (map_of (db k) m)) (remdups (map fst (db k)))\<rparr>"

lemma sorted_redis_laws:
  "redis_laws sorted_redis (\<lambda>db k. map_of (db k))" "in_score_order sorted_redis (\<lambda>db k. map_of (db k))"
  using list_redis_laws by (simp_all add: redis_laws_def sorted_redis_def list_redis_def in_score_order_def)

section \<open>Properties\<close>

text \<open>C14. The Redis ledger implements the in-process one, on amounts of ten decimals: on a sorted set that stands for
  the user's entries, the reserve script sees the total that \<open>Ledger.reserve\<close> sees and grants what it grants, and
  the sets after reserving, settling and releasing stand for the entries that \<open>Ledger\<close> then has, the new amount
  rounded to the ten decimals that are written. Two things are excluded: an entry exactly as old as the window,
  which \<open>_prune\<close> keeps and \<open>ZREMRANGEBYSCORE\<close> removes, and a clock that is not later than every entry, as Redis
  keeps the entries by time and the process by arrival.\<close>

theorem redis_ledger_refines_in_process:
  fixes db :: 'db
  assumes "redis_laws ops zs" "in_score_order ops zs" "reads_fixed number" "represents (zs db key) (spend L u)"
    and "\<forall>x \<in> set (spend L u). entry_time x < now" "fsub now (window_seconds L) \<notin> entry_time ` set (spend L u)"
    and "plain_id rid" "rid \<notin> entry_ids L u" "0 \<le> a"
    and "\<not> res_closed rv" "res_user rv = u" "plain_id (res_id rv)" "0 \<le> c"
  shows "(case reserve_lua ops number key now (window_seconds L) a limit (member_of rid a) db of ((ok, tot), db') \<Rightarrow>
      ok = (\<exists>r. fst (reserve now rid L u a limit) = Inr r) \<and> tot = total (spend (prune now L u) u) \<and>
      represents (zs db' key) (as_written rid (spend (snd (reserve now rid L u a limit)) u))) \<and>
    represents (zs (snd (settle_lua ops key ukey now (res_id rv) c (window_seconds L) db)) key)
      (as_written (res_id rv) (spend (fst (settle now L rv c mname i j)) u)) \<and>
    represents (zs (snd (release_lua ops key (res_id rv) db)) key) (spend (fst (release L rv)) u)"
proof (intro conjI)
  let ?es = "spend L u" and ?win = "window_seconds L"
  let ?live = "filter (\<lambda>x. fsub now ?win \<le> entry_time x) ?es"
  obtain f where f: "represents_by f (zs db key) ?es" using assms(4) unfolding represents_def by blast
  have pr: "spend (prune now L u) u = ?live" by (simp add: prune_def)
  note live = represents_live [OF f assms(6)]
  obtain ok tot db' where r: "reserve_lua ops number key now ?win a limit (member_of rid a) db = ((ok, tot), db')"
    by (metis prod.exhaust)
  obtain pruned where p: "zs pruned key = live now ?win (zs db key)" "tot = sum_members number 0 (zrange ops pruned key)"
    "ok \<longleftrightarrow> fadd tot a \<le> fadd limit (lit 1 9)"
    "zs db' = (zs db)(key := if ok then (live now ?win (zs db key))(member_of rid a \<mapsto> now) else live now ?win (zs db key))"
    using reserve_lua_effect [OF assms(1) r] by blast
  have tot: "tot = total ?live"
    using represents_range [OF assms(1,2), of f pruned key ?live] represents_sum [OF assms(3) live] live p(1,2) by simp
  have new: "rid \<notin> entry_id ` set ?live" "\<forall>x \<in> set ?live. entry_time x < now"
    using assms(5,8) by (auto simp: entry_ids_def)
  have written: "as_written rid (es @ [(t, x, rid)]) = es @ [(t, round_dec 10 x, rid)]"
    if "rid \<notin> entry_id ` set es" for es t x rid
    using that by (simp add: as_written_append as_written_absent) (simp add: as_written_def)
  have "represents (zs db' key) (as_written rid (spend (snd (reserve now rid L u a limit)) u))"
    using live represents_append [OF live assms(7) new(1) assms(9) new(2)] p(3,4) tot
    unfolding represents_def
    by (auto simp: reserve_def Let_def pr not_less written [OF new(1)] as_written_absent [OF new(1)])
  moreover have "ok = (\<exists>r. fst (reserve now rid L u a limit) = Inr r)"
    using p(3) tot by (simp add: reserve_def Let_def pr not_less)
  ultimately show "case reserve_lua ops number key now ?win a limit (member_of rid a) db of ((ok, tot), db') \<Rightarrow>
      ok = (\<exists>r. fst (reserve now rid L u a limit) = Inr r) \<and> tot = total (spend (prune now L u) u) \<and>
      represents (zs db' key) (as_written rid (spend (snd (reserve now rid L u a limit)) u))"
    using tot by (simp add: r pr)
  note drop = represents_drop [OF f, of "res_id rv"]
  have hold: "(case hold_of ops key (res_id rv) db of None \<Rightarrow> zs db key | Some m \<Rightarrow> (zs db key)(m := None)) =
      (case List.find (\<lambda>x. entry_id x = res_id rv) ?es of None \<Rightarrow> zs db key | Some x \<Rightarrow> (zs db key)(member_at f x := None))"
    by (simp add: represents_hold [OF assms(1,2) f assms(12)] split: option.split)
  show "represents (zs (snd (release_lua ops key (res_id rv) db)) key) (spend (fst (release L rv)) u)"
    using drop(1) assms(10,11) unfolding represents_def by (auto simp: release_lua_set [OF assms(1)] hold release_def)
  have "\<forall>x \<in> set (drop_entry (res_id rv) ?es). entry_time x < now" using drop(3) assms(5) by blast
  from represents_append [OF drop(1) assms(12) drop(2) assms(13) this]
  show "represents (zs (snd (settle_lua ops key ukey now (res_id rv) c ?win db)) key)
      (as_written (res_id rv) (spend (fst (settle now L rv c mname i j)) u))"
    using assms(10,11) unfolding represents_def
    by (auto simp: settle_lua_set [OF assms(1)] hold settle_def Let_def written [OF drop(2)])
qed

text \<open>A hold of an amount with more than ten decimals, beside one of 2 dollars.\<close>

theorem redis_ledger_refines_in_process_witness:
  "\<exists>ok tot db'. reserve_lua sorted_redis read_fixed ''k'' 100 86400 (1 / 2 ^ 20) 5 (member_of ''b'' (1 / 2 ^ 20))
       (\<lambda>k. if k = ''k'' then [(member_of ''a'' 2, 50)] else []) = ((ok, tot), db') \<and>
     ok \<and> tot = 2 \<and> represents (map_of (db' ''k'')) [(50, 2, ''a''), (100, round_dec 10 (1 / 2 ^ 20), ''b'')]"
proof -
  let ?a = "1 / 2 ^ 20 :: f64"
  let ?db = "\<lambda>k. if k = ''k'' then [(member_of ''a'' 2, 50 :: f64)] else []"
  let ?L = "new_ledger\<lparr>spend := (\<lambda>_. [(50, 2, ''a'')])\<rparr>"
  let ?rv = "\<lparr>res_user = ''u'', res_amount = 2, res_created_at = 50, res_id = ''a'', res_closed = False\<rparr>"
  have p: "plain_id ''a''" "plain_id ''b''" by (simp_all add: plain_id_def)
  have d: "round_dec 10 2 = 2" by code_simp
  have "represents_by (\<lambda>_. 2) (map_of (?db ''k'')) (spend ?L ''u'')" using p(1) d by (simp add: represents_by_def)
  then have rep: "represents (map_of (?db ''k'')) (spend ?L ''u'')" unfolding represents_def by blast
  have cut: "fsub 100 86400 = (- 86300)" by code_simp
  obtain ok tot db' where r: "reserve_lua sorted_redis read_fixed ''k'' 100 86400 ?a 5 (member_of ''b'' ?a) ?db = ((ok, tot), db')"
    by (metis prod.exhaust)
  have gr: "fsum [2] = 2" "\<not> fadd 5 (lit 1 9) < fadd 2 ?a" by code_simp+
  have pr: "spend (prune 100 ?L ''u'') ''u'' = [(50, 2, ''a'')]" by (simp add: prune_def new_ledger_def cut)
  have res: "reserve 100 ''b'' ?L ''u'' ?a 5 = (Inr \<lparr>res_user = ''u'', res_amount = ?a, res_created_at = 100, res_id = ''b'',
      res_closed = False\<rparr>, set_spend (prune 100 ?L ''u'') ''u'' [(50, 2, ''a''), (100, ?a, ''b'')])"
    using gr by (simp add: reserve_def Let_def pr total_def)
  have win: "window_seconds ?L = 86400" by (simp add: new_ledger_def)
  note R = redis_ledger_refines_in_process [where ops = sorted_redis and zs = "\<lambda>db k. map_of (db k)" and number = read_fixed
      and db = ?db and key = "''k''" and L = ?L and u = "''u''" and now = 100 and rid = "''b''" and a = ?a and rv = ?rv
      and c = 1 and limit = 5]
  have "(case reserve_lua sorted_redis read_fixed ''k'' 100 (window_seconds ?L) ?a 5 (member_of ''b'' ?a) ?db of ((ok, tot), db') \<Rightarrow>
      ok = (\<exists>r. fst (reserve 100 ''b'' ?L ''u'' ?a 5) = Inr r) \<and> tot = total (spend (prune 100 ?L ''u'') ''u'') \<and>
      represents (map_of (db' ''k'')) (as_written ''b'' (spend (snd (reserve 100 ''b'' ?L ''u'' ?a 5)) ''u'')))"
    by (rule conjunct1 [OF R [OF sorted_redis_laws read_fixed_reads rep]])
      (simp_all add: p entry_ids_def win cut)
  then have "ok \<and> tot = 2 \<and> represents (map_of (db' ''k'')) (as_written ''b'' [(50, 2, ''a''), (100, ?a, ''b'')])"
    unfolding win r prod.case res pr total_def by (simp add: gr(1))
  then show ?thesis using r unfolding as_written_def
    by (intro exI [of _ ok] exI [of _ tot] exI [of _ db']) simp
qed

end
