(* ===== verification/FleetService.thy ===== *)
theory FleetService
  imports Http RedisLedger
begin

text \<open>
  \<open>app/service.py\<close> with the Redis ledger: the parts of \<open>handle\<close> that call the ledger, when these calls can raise.
  The in-process ledger of the state is not used here; its place takes \<open>remote\<close>, the client with its data and the
  three cached scripts. \<open>net\<close> is the fate of the three messages of a script call. The segments agree with those
  of \<open>Service.thy\<close> as long as the calls get through.
\<close>

section \<open>The ledger as the service holds it\<close>

record 'db remote =
  client :: redis_ledger
  data :: 'db
  reserve_script :: script_state
  settle_script :: script_state
  release_script :: script_state

type_synonym net = "transport \<times> transport \<times> transport"

definition remote_release ::
  "'db redis_ops \<Rightarrow> net \<Rightarrow> 'db remote \<Rightarrow> reservation \<Rightarrow> (exc, unit) result \<times> reservation \<times> 'db remote"
where
  "remote_release ops net M rv =
     (case redis_release ops net (client M) (release_script M) rv (data M) of
        (res, rv', ss, db) \<Rightarrow> (res, rv', M\<lparr>release_script := ss, data := db\<rparr>))"

definition remote_settle ::
  "'db redis_ops \<Rightarrow> net \<Rightarrow> 'db remote \<Rightarrow> f64 \<Rightarrow> reservation \<Rightarrow> f64 \<Rightarrow> string \<Rightarrow> int \<Rightarrow> int \<Rightarrow>
   (exc, unit) result \<times> reservation \<times> 'db remote"
where
  "remote_settle ops net M now rv actual mname inp out =
     (case redis_settle ops net (client M) (settle_script M) now rv actual mname inp out (data M) of
        (res, rv', R, ss, db) \<Rightarrow> (res, rv', M\<lparr>client := R, settle_script := ss, data := db\<rparr>))"

section \<open>Segments\<close>

text \<open>\<open>_reserve\<close>.\<close>

definition fleet_reserve_budget ::
  "'db redis_ops \<Rightarrow> (string \<Rightarrow> f64 option) \<Rightarrow> (f64 \<Rightarrow> f64) \<Rightarrow> net \<Rightarrow> env \<Rightarrow> settings \<Rightarrow> service \<Rightarrow> 'db remote \<Rightarrow>
   routing_decision \<Rightarrow> request \<Rightarrow> (exc, reservation) result \<times> service \<times> 'db remote"
where
  "fleet_reserve_budget ops number reported net e s sv M d r =
     (case read_clock (wall e) sv of (now, sv') \<Rightarrow>
      case redis_reserve ops number reported net (client M) (reserve_script M) now (fresh_id e (reads sv)) (user_id r)
          (projected_cost d) (user_limit s r) (data M) of
        (res, ss, db) \<Rightarrow>
          let M = M\<lparr>reserve_script := ss, data := db\<rparr> in
          case res of
            Inl (UserBudgetExceededError u sp l a) \<Rightarrow> (Inl (UserBudgetExceededError u sp l a), count request_rejected sv', M)
          | Inl LedgerUnavailableError \<Rightarrow> (Inl LedgerUnavailableError, count request_rejected sv', M)
          | _ \<Rightarrow> (res, sv', M))"

text \<open>The timeout branch of \<open>_admit\<close>.\<close>

definition fleet_shed ::
  "settings \<Rightarrow> 'db redis_ops \<Rightarrow> net \<Rightarrow> service \<Rightarrow> 'db remote \<Rightarrow> reservation \<Rightarrow> exc \<times> reservation \<times> service \<times> 'db remote"
where
  "fleet_shed s ops net sv M rv =
     (let sv = count request_shed sv in
      case remote_release ops net M rv of
        (Inl y, rv', M) \<Rightarrow> (y, rv', sv, M)
      | (Inr _, rv', M) \<Rightarrow> (AdmissionTimeoutError (admission_timeout_s s), rv', sv, M))"

text \<open>The \<open>except Exception\<close> branch with the \<open>finally\<close>: when the refund raises, its exception replaces the one being
  handled and \<open>request_finished\<close> is not reached.\<close>

definition fleet_abort ::
  "'db redis_ops \<Rightarrow> net \<Rightarrow> service \<Rightarrow> 'db remote \<Rightarrow> reservation \<Rightarrow> exc \<Rightarrow> exc \<times> reservation \<times> service \<times> 'db remote"
where
  "fleet_abort ops net sv M rv x =
     (case remote_release ops net M rv of
        (Inl y, rv', M) \<Rightarrow> (y, rv', sv\<lparr>gate := Gate.release (gate sv)\<rparr>, M)
      | (Inr _, rv', M) \<Rightarrow>
          (x, rv', (count (\<lambda>m. request_finished m 0 0 0 False) sv)\<lparr>gate := Gate.release (gate sv)\<rparr>, M))"

text \<open>The provider returned: \<open>settle\<close>, then the counters, the cache and the result. \<open>net'\<close> is the network of the
  refund in the \<open>except\<close> branch.\<close>

definition fleet_returned ::
  "env \<Rightarrow> settings \<Rightarrow> 'db redis_ops \<Rightarrow> net \<Rightarrow> net \<Rightarrow> service \<Rightarrow> 'db remote \<Rightarrow> request \<Rightarrow> reservation \<Rightarrow>
   routing_decision \<Rightarrow> completion \<Rightarrow> (exc, inference_result) result \<times> reservation \<times> service \<times> 'db remote"
where
  "fleet_returned e s ops net net' sv M r rv served c =
     (let n = name (Router.model served);
          b = fst (get_breaker (breakers sv) n);
          sv = sv\<lparr>breakers := put_breaker (breakers sv) n (record_success b)\<rparr>;
          actual_cost = cost (Router.model served) (completion_in c) (completion_out c)
      in case read_clock (wall e) sv of (now, sv) \<Rightarrow>
         case remote_settle ops net M now rv actual_cost n (completion_in c) (completion_out c) of
           (Inl x, rv', M) \<Rightarrow>
             (case fleet_abort ops net' sv M rv' x of (y, rv'', sv, M) \<Rightarrow> (Inl y, rv'', sv, M))
         | (Inr _, rv', M) \<Rightarrow>
             let sv = count (\<lambda>m. request_finished m (completion_in c) (completion_out c) actual_cost (downgraded served)) sv;
                 sv = cache_store e s sv served (prompt r) (completion_text c)
                    \<lparr>usage_in = completion_in c, usage_out = completion_out c\<rparr>;
                 result = \<lparr>result_text = completion_text c, result_model = n,
                   result_complexity = result_tier (complexity served), result_in = completion_in c,
                   result_out = completion_out c, result_cost_usd = round_dec 6 actual_cost,
                   result_downgraded = downgraded served, result_notes = decision_notes served,
                   result_cached = False\<rparr>
             in (Inr result, rv', sv\<lparr>gate := Gate.release (gate sv)\<rparr>, M))"

text \<open>The detached settlement of a stream: an exception of the ledger is logged.\<close>

definition fleet_settle_stream ::
  "env \<Rightarrow> settings \<Rightarrow> 'db redis_ops \<Rightarrow> net \<Rightarrow> service \<Rightarrow> 'db remote \<Rightarrow> request \<Rightarrow> reservation \<Rightarrow>
   routing_decision \<Rightarrow> stream \<Rightarrow> usage \<Rightarrow> reservation \<times> service \<times> 'db remote"
where
  "fleet_settle_stream e s ops net sv M r rv d st u =
     (let c = cost (Router.model d) (usage_in u) (usage_out u) in
      case read_clock (wall e) sv of (now, sv) \<Rightarrow>
      case remote_settle ops net M now rv c (name (Router.model d)) (usage_in u) (usage_out u) of (_, rv', M) \<Rightarrow>
      let sv = (if completed st then cache_store e s sv d (prompt r) (concat (pieces st)) u else sv);
          sv = count (\<lambda>m. request_finished m (usage_in u) (usage_out u) c (downgraded d)) sv
      in (rv', sv\<lparr>gate := Gate.release (gate sv)\<rparr>, M))"

section \<open>Facts\<close>

lemma release_closed [simp]: "res_closed rv \<Longrightarrow> remote_release ops net M rv = (Inr (), rv, M)"
  by (simp add: redis_release_def remote_release_def)

lemma release_outcome:
  assumes "remote_release ops net M rv = (res, rv', M')"
  shows "res_closed rv'" "res = Inr () \<or> res = Inl LedgerUnavailableError \<and> fail_closed (client M)"
    "client M' = client M"
  using assms by (auto simp: remote_release_def redis_release_def split: prod.splits if_splits)

text \<open>The run of the settle script for a reservation.\<close>

definition settle_run :: "'db redis_ops \<Rightarrow> redis_ledger \<Rightarrow> f64 \<Rightarrow> reservation \<Rightarrow> f64 \<Rightarrow> 'db \<Rightarrow> bool \<times> 'db" where
  "settle_run ops R now rv c = settle_lua ops (spend_key R (res_user rv)) (usage_key R (res_user rv)) now (res_id rv) c
     (redis_window R)"

lemma settle_outcome:
  assumes "remote_settle ops net M now rv c m i out = (res, rv', M')"
  shows "res_closed rv'" "res = Inr () \<or> res = Inl LedgerUnavailableError \<and> fail_closed (client M)"
    "data M' = data M \<or> data M' = snd (settle_run ops (client M) now rv c (data M))"
    "net = (Delivered, Delivered, Delivered) \<longrightarrow> res = Inr ()"
proof -
  show "res_closed rv'" "res = Inr () \<or> res = Inl LedgerUnavailableError \<and> fail_closed (client M)"
    using assms by (auto simp: remote_settle_def redis_settle_def Let_def split: prod.splits if_splits)
  show "data M' = data M \<or> data M' = snd (settle_run ops (client M) now rv c (data M))"
    using assms eval_script_cases
    by (fastforce simp: remote_settle_def redis_settle_def settle_run_def Let_def split: prod.splits if_splits)
  show "net = (Delivered, Delivered, Delivered) \<longrightarrow> res = Inr ()"
    using assms
    by (auto simp: remote_settle_def redis_settle_def eval_script_def over_def Let_def split: prod.splits if_splits)
qed

lemma cache_store_ledger [simp]:
  "cache_store e s (sv\<lparr>ledger := L\<rparr>) d p x u = (cache_store e s sv d p x u)\<lparr>ledger := L\<rparr>"
  "ledger (cache_store e s sv d p x u) = ledger sv"
  by (simp_all add: cache_store_def read_clock_def split: option.split)

lemma cache_store_gate [simp]: "gate (cache_store e s sv d p x u) = gate sv"
  by (simp add: cache_store_def read_clock_def split: option.split)

lemma count_ledger [simp]: "count f (sv\<lparr>ledger := L\<rparr>) = (count f sv)\<lparr>ledger := L\<rparr>"
  "ledger (count f sv) = ledger sv" "gate (count f sv) = gate sv"
  by (simp_all add: count_def)

text \<open>The segment of \<open>Service.thy\<close>, with its in-process ledger taken out.\<close>

lemma fleet_returned_settled:
  assumes "remote_settle ops net M (wall e (reads sv)) rv
      (cost (Router.model d) (completion_in c) (completion_out c)) (name (Router.model d)) (completion_in c)
      (completion_out c) = (Inr (), rv', M')"
    and "provider_returned e s sv r rv d c = (Finish (Inr res), rv1, sv1)"
  shows "fleet_returned e s ops net net' sv M r rv d c = (Inr res, rv', sv1\<lparr>ledger := ledger sv\<rparr>, M')"
  using assms
  by (auto simp: fleet_returned_def provider_returned_def Let_def read_clock_def split: prod.splits)

section \<open>Properties\<close>

text \<open>C15. When the model has answered, the network decides between two outcomes only: the client gets the answer of the
  in-process service, which is then left in the same state; or, under fail-closed and only if a message was
  lost, the answer is thrown away, the client gets a 503 and the request counts as one without cost. Either way
  the slot is given back, the reservation is closed, and the charge was made once or not at all; so a request
  that was answered with an error can have been charged.\<close>

theorem fleet_answers_or_503:
  assumes "provider_returned e s sv r rv d c = (Finish (Inr res), rv1, sv1)"
    and "fleet_returned e s ops net net' sv M r rv d c = (out, rv', sv', M')"
  shows "gate sv' = Gate.release (gate sv) \<and> res_closed rv' \<and>
    (data M' = data M \<or> data M' = snd (settle_run ops (client M) (wall e (reads sv)) rv
       (cost (Router.model d) (completion_in c) (completion_out c)) (data M))) \<and>
    ((out, sv') = (Inr res, sv1\<lparr>ledger := ledger sv\<rparr>) \<or>
     out = Inl LedgerUnavailableError \<and> status_for LedgerUnavailableError = Some 503 \<and> fail_closed (client M) \<and>
     net \<noteq> (Delivered, Delivered, Delivered) \<and> metrics sv' = request_finished (metrics sv) 0 0 0 False)"
proof -
  let ?c = "cost (Router.model d) (completion_in c) (completion_out c)"
  obtain q rv2 M2 where st: "remote_settle ops net M (wall e (reads sv)) rv ?c (name (Router.model d)) (completion_in c)
      (completion_out c) = (q, rv2, M2)" by (metis prod_cases3)
  note o = settle_outcome [OF st]
  have "gate sv' = Gate.release (gate sv) \<and> res_closed rv' \<and> data M' = data M2 \<and>
    ((out, sv') = (Inr res, sv1\<lparr>ledger := ledger sv\<rparr>) \<or>
     out = Inl LedgerUnavailableError \<and> fail_closed (client M) \<and> net \<noteq> (Delivered, Delivered, Delivered) \<and>
     metrics sv' = request_finished (metrics sv) 0 0 0 False)"
  proof (cases q)
    case (Inl x)
    then show ?thesis using o assms(2) st
      by (auto simp: fleet_returned_def fleet_abort_def Let_def read_clock_def count_def)
  next
    case (Inr u)
    then have st': "remote_settle ops net M (wall e (reads sv)) rv ?c (name (Router.model d)) (completion_in c)
      (completion_out c) = (Inr (), rv2, M2)" using st by simp
    have "gate sv1 = Gate.release (gate sv)"
      using assms(1) by (auto simp: provider_returned_def Let_def read_clock_def count_def split: prod.splits)
    then show ?thesis using o(1) fleet_returned_settled [OF st' assms(1)] assms(2) by auto
  qed
  then show ?thesis using o(3) class_status(5) by simp
qed

theorem fleet_answers_or_503_witness:
  "\<forall>e r d c. \<exists>out rv' sv' M'. fleet_returned e default_settings list_redis (Delivered, ReplyLost, Delivered)
       (Delivered, Delivered, Delivered) (new_service default_settings)
       \<lparr>client = \<lparr>redis_window = 60, namespace = ''llm'', fail_closed = True, max_records = 10, local_records = []\<rparr>,
         data = (\<lambda>_. []), reserve_script = \<lparr>hash_cached = True, known_to_server = True\<rparr>,
         settle_script = \<lparr>hash_cached = True, known_to_server = True\<rparr>,
         release_script = \<lparr>hash_cached = True, known_to_server = True\<rparr>\<rparr> r
       \<lparr>res_user = ''u'', res_amount = 1, res_created_at = 90, res_id = ''a'', res_closed = False\<rparr> d c = (out, rv', sv', M') \<and>
     res_closed rv' \<and> gate sv' = Gate.release (gate (new_service default_settings))"
proof (intro allI, goal_cases)
  case (1 e r d c)
  let ?sv = "new_service default_settings"
  let ?ss = "\<lparr>hash_cached = True, known_to_server = True\<rparr>"
  let ?M = "\<lparr>client = \<lparr>redis_window = 60, namespace = ''llm'', fail_closed = True, max_records = 10, local_records = []\<rparr>,
         data = (\<lambda>_. []), reserve_script = ?ss, settle_script = ?ss, release_script = ?ss\<rparr>"
  let ?rv = "\<lparr>res_user = ''u'', res_amount = 1, res_created_at = 90, res_id = ''a'', res_closed = False\<rparr>"
  obtain out rv' sv' M' where f: "fleet_returned e default_settings list_redis (Delivered, ReplyLost, Delivered)
      (Delivered, Delivered, Delivered) ?sv ?M r ?rv d c = (out, rv', sv', M')" by (metis prod_cases4)
  obtain p rv1 sv1 where pr: "provider_returned e default_settings ?sv r ?rv d c = (p, rv1, sv1)" by (metis prod_cases3)
  obtain res where "p = Finish (Inr res)"
    using pr by (auto simp: provider_returned_def Let_def split: prod.splits)
  with pr have "provider_returned e default_settings ?sv r ?rv d c = (Finish (Inr res), rv1, sv1)" by simp
  from fleet_answers_or_503 [OF this f] f show ?case by blast
qed

text \<open>A refund that fails leaves the request in flight for good: when Redis cannot be reached while the service
  handles a failed request under fail-closed, the slot is given back, but the exception of the refund replaces
  the one of the request (so its status), \<open>request_finished\<close> is skipped, and the hold stays in Redis although the
  reservation is closed. When the refund gets through, the branch is that of the in-process service.\<close>

theorem failed_refund_leaks_in_flight:
  assumes "hash_cached (release_script M)" "known_to_server (release_script M)" "\<not> res_closed rv" "fail_closed (client M)"
  shows "fleet_abort ops (t1, Unsent, t3) sv M rv x =
      (LedgerUnavailableError, rv\<lparr>res_closed := True\<rparr>, sv\<lparr>gate := Gate.release (gate sv)\<rparr>, M) \<and>
    fleet_shed s ops (t1, Unsent, t3) sv M rv =
      (LedgerUnavailableError, rv\<lparr>res_closed := True\<rparr>, count request_shed sv, M) \<and>
    (\<exists>rv' M'. fleet_abort ops (t1, Delivered, t3) sv M rv x =
      (x, rv', (snd (snd (abort sv rv x)))\<lparr>ledger := ledger sv\<rparr>, M'))"
  using assms
  by (auto simp: fleet_abort_def fleet_shed_def abort_def remote_release_def redis_release_def eval_script_def over_def
      Let_def count_def split: prod.splits)

theorem failed_refund_leaks_in_flight_witness:
  "\<exists>rv' sv' M'. fleet_abort list_redis (Delivered, Unsent, Delivered) (count request_started (new_service default_settings))
       \<lparr>client = \<lparr>redis_window = 60, namespace = ''llm'', fail_closed = True, max_records = 10, local_records = []\<rparr>,
         data = (\<lambda>_. []), reserve_script = \<lparr>hash_cached = True, known_to_server = True\<rparr>,
         settle_script = \<lparr>hash_cached = True, known_to_server = True\<rparr>,
         release_script = \<lparr>hash_cached = True, known_to_server = True\<rparr>\<rparr>
       \<lparr>res_user = ''u'', res_amount = 1, res_created_at = 90, res_id = ''a'', res_closed = False\<rparr> ProviderTimeoutError
     = (LedgerUnavailableError, rv', sv', M') \<and> in_flight (metrics sv') = 1"
proof -
  let ?ss = "\<lparr>hash_cached = True, known_to_server = True\<rparr>"
  let ?M = "\<lparr>client = \<lparr>redis_window = 60, namespace = ''llm'', fail_closed = True, max_records = 10, local_records = []\<rparr>,
         data = (\<lambda>_. []), reserve_script = ?ss, settle_script = ?ss, release_script = ?ss\<rparr>"
  let ?rv = "\<lparr>res_user = ''u'', res_amount = 1, res_created_at = 90, res_id = ''a'', res_closed = False\<rparr>"
  from failed_refund_leaks_in_flight [of ?M ?rv list_redis Delivered Delivered
      "count request_started (new_service default_settings)" ProviderTimeoutError default_settings] show ?thesis
    by (simp add: count_def new_service_def new_metrics_def request_started_def)
qed

text \<open>A stream's settlement is immune to the network: whatever is lost, the service is left as the in-process
  settlement leaves it (counted, cached when complete, slot given back), the reservation is closed, and the
  charge was made once or not at all.\<close>

theorem fleet_stream_settles_regardless:
  "\<exists>rv' M'. fleet_settle_stream e s ops net sv M r rv d st u =
       (rv', (snd (snd (settle_stream e s sv r rv d st u)))\<lparr>ledger := ledger sv\<rparr>, M') \<and> res_closed rv' \<and>
     (data M' = data M \<or> data M' = snd (settle_run ops (client M) (wall e (reads sv)) rv
        (cost (Router.model d) (usage_in u) (usage_out u)) (data M)))"
proof -
  obtain q rv' M' where st: "remote_settle ops net M (wall e (reads sv)) rv
      (cost (Router.model d) (usage_in u) (usage_out u)) (name (Router.model d)) (usage_in u) (usage_out u) = (q, rv', M')"
    by (metis prod_cases3)
  with settle_outcome [OF st] show ?thesis
    by (auto simp: fleet_settle_stream_def settle_stream_def Let_def read_clock_def split: prod.splits)
qed

end
