(* ===== verification/SingleFlight.thy ===== *)
theory SingleFlight
  imports Errors
begin

text \<open>
  \<open>SingleFlight\<close> of \<open>app/cache.py\<close>: concurrent callers of one key share one execution of the factory. The state is
  the dictionary of the class with the tasks it has created and the coroutines inside \<open>run\<close>; the steps are what
  the event loop does between two suspensions. A coroutine awaits its task (the leader) or a shield around it (a
  follower); it can be cancelled there, and a task can end before the coroutines that await it run again.
\<close>

section \<open>State\<close>

datatype 'v outcome = Returned 'v | Threw exc | Cancelled

datatype 'v execution = Running | Ended "'v outcome"

text \<open>A coroutine in \<open>run\<close>: its key, the number of its task, and how it left.\<close>

datatype 'v caller =
    Leading string nat
  | Following string nat
  | Left string nat "'v outcome"

text \<open>Tasks are numbered in the order of their creation, each with its key and (history) the coroutine that created it.
  \<open>cancel_asked\<close> holds the tasks on which
  \<open>cancel\<close> was called, \<open>gave_up\<close> (history) the coroutines that were cancelled while they waited.\<close>

record 'v task =
  task_key :: string
  creator :: nat
  execution :: "'v execution"

record 'v flights =
  inflight :: "string \<Rightarrow> nat option"
  tasks :: "'v task list"
  cancel_asked :: "nat list"
  coroutines :: "nat \<Rightarrow> 'v caller option"
  gave_up :: "nat list"

definition new_single_flight :: "'v flights" where
  "new_single_flight = \<lparr>inflight = Map.empty, tasks = [], cancel_asked = [], coroutines = Map.empty, gave_up = []\<rparr>"

definition inflight_count :: "'v flights \<Rightarrow> nat" where
  "inflight_count S = card (dom (inflight S))"

section \<open>Steps\<close>

text \<open>\<open>run\<close> up to its \<open>await\<close>.\<close>

definition enter_run :: "nat \<Rightarrow> string \<Rightarrow> 'v flights \<Rightarrow> 'v flights" where
  "enter_run c key S =
     (case inflight S key of
        Some f \<Rightarrow> S\<lparr>coroutines := (coroutines S)(c \<mapsto> Following key f)\<rparr>
      | None \<Rightarrow>
          let f = length (tasks S) in
          S\<lparr>tasks := tasks S @ [\<lparr>task_key = key, creator = c, execution = Running\<rparr>], inflight := (inflight S)(key \<mapsto> f),
            coroutines := (coroutines S)(c \<mapsto> Leading key f)\<rparr>)"

text \<open>The factory's task ends.\<close>

definition task_ends :: "nat \<Rightarrow> 'v outcome \<Rightarrow> 'v flights \<Rightarrow> 'v flights" where
  "task_ends f out S = S\<lparr>tasks := (tasks S)[f := (tasks S ! f)\<lparr>execution := Ended out\<rparr>]\<rparr>"

text \<open>A coroutine leaves \<open>run\<close>; a leader passes through its \<open>finally\<close>.\<close>

definition leave_run :: "nat \<Rightarrow> 'v outcome \<Rightarrow> 'v flights \<Rightarrow> 'v flights" where
  "leave_run c out S =
     (case coroutines S c of
        Some (Leading key f) \<Rightarrow>
          S\<lparr>inflight := (inflight S)(key := None), coroutines := (coroutines S)(c \<mapsto> Left key f out)\<rparr>
      | Some (Following key f) \<Rightarrow> S\<lparr>coroutines := (coroutines S)(c \<mapsto> Left key f out)\<rparr>
      | _ \<Rightarrow> S)"

fun awaited :: "'v caller \<Rightarrow> nat" where
  "awaited (Leading key f) = f"
| "awaited (Following key f) = f"
| "awaited (Left key f out) = f"

text \<open>The loop runs a coroutine whose task has ended.\<close>

definition resume :: "nat \<Rightarrow> 'v flights \<Rightarrow> 'v flights" where
  "resume c S =
     (case coroutines S c of
        None \<Rightarrow> S
      | Some co \<Rightarrow> (case execution (tasks S ! awaited co) of Running \<Rightarrow> S | Ended out \<Rightarrow> leave_run c out S))"

text \<open>A coroutine is cancelled where it waits: the cancellation of a leader goes to the task it awaits, that of a
  follower stops at the shield; once the task has ended the coroutine itself is left to receive it.\<close>

definition cancel_run :: "nat \<Rightarrow> 'v flights \<Rightarrow> 'v flights" where
  "cancel_run c S =
     (case coroutines S c of
        Some (Leading key f) \<Rightarrow>
          (case execution (tasks S ! f) of
             Running \<Rightarrow> S\<lparr>cancel_asked := f # cancel_asked S\<rparr>
           | Ended _ \<Rightarrow> leave_run c Cancelled (S\<lparr>gave_up := c # gave_up S\<rparr>))
      | Some (Following key f) \<Rightarrow> leave_run c Cancelled (S\<lparr>gave_up := c # gave_up S\<rparr>)
      | _ \<Rightarrow> S)"

text \<open>Any number of callers, in any order.\<close>

inductive flown :: "'v flights \<Rightarrow> bool" where
  fly_new: "flown new_single_flight"
| fly_enter: "flown S \<Longrightarrow> coroutines S c = None \<Longrightarrow> flown (enter_run c key S)"
| fly_end: "flown S \<Longrightarrow> f < length (tasks S) \<Longrightarrow> execution (tasks S ! f) = Running \<Longrightarrow> flown (task_ends f out S)"
| fly_resume: "flown S \<Longrightarrow> flown (resume c S)"
| fly_cancel: "flown S \<Longrightarrow> flown (cancel_run c S)"

section \<open>The invariant\<close>

text \<open>The key of an execution is registered as long as its leader is inside \<open>run\<close>, an execution that has not ended
  has its leader inside, and whoever left took the outcome of its execution, unless it gave up.\<close>

definition flight_ok :: "'v flights \<Rightarrow> bool" where
  "flight_ok S \<longleftrightarrow>
     (\<forall>key f. inflight S key = Some f \<longrightarrow>
        f < length (tasks S) \<and> coroutines S (creator (tasks S ! f)) = Some (Leading key f)) \<and>
     (\<forall>c key f. coroutines S c = Some (Leading key f) \<longrightarrow>
        inflight S key = Some f \<and> f < length (tasks S) \<and> creator (tasks S ! f) = c \<and> task_key (tasks S ! f) = key) \<and>
     (\<forall>c key f. coroutines S c = Some (Following key f) \<longrightarrow> f < length (tasks S) \<and> task_key (tasks S ! f) = key) \<and>
     (\<forall>f < length (tasks S). execution (tasks S ! f) = Running \<longrightarrow>
        coroutines S (creator (tasks S ! f)) = Some (Leading (task_key (tasks S ! f)) f)) \<and>
     (\<forall>c key f out. coroutines S c = Some (Left key f out) \<longrightarrow>
        f < length (tasks S) \<and> task_key (tasks S ! f) = key \<and>
        (execution (tasks S ! f) = Ended out \<or> c \<in> set (gave_up S) \<and> out = Cancelled))"

lemma flight_okD:
  assumes "flight_ok S"
  shows "inflight S key = Some f \<Longrightarrow> f < length (tasks S) \<and> coroutines S (creator (tasks S ! f)) = Some (Leading key f)"
    and "coroutines S c = Some (Leading key f) \<Longrightarrow>
      inflight S key = Some f \<and> f < length (tasks S) \<and> creator (tasks S ! f) = c \<and> task_key (tasks S ! f) = key"
    and "coroutines S c = Some (Following key f) \<Longrightarrow> f < length (tasks S) \<and> task_key (tasks S ! f) = key"
    and "f < length (tasks S) \<Longrightarrow> execution (tasks S ! f) = Running \<Longrightarrow>
      coroutines S (creator (tasks S ! f)) = Some (Leading (task_key (tasks S ! f)) f)"
    and "coroutines S c = Some (Left key f out) \<Longrightarrow> f < length (tasks S) \<and> task_key (tasks S ! f) = key \<and>
        (execution (tasks S ! f) = Ended out \<or> c \<in> set (gave_up S) \<and> out = Cancelled)"
  using assms unfolding flight_ok_def by blast+

lemma lone_leader:
  assumes "flight_ok S" "coroutines S c = Some (Leading key f)" "coroutines S c' = Some (Leading key f')"
  shows "c = c'"
  using flight_okD(2) [OF assms(1,2)] flight_okD(2) [OF assms(1,3)] by simp

lemma enter_ok:
  assumes "flight_ok S" "coroutines S c = None"
  shows "flight_ok (enter_run c key S)"
proof (cases "inflight S key")
  case None
  note D = flight_okD [OF assms(1)]
  let ?S = "enter_run c key S"
  have S: "tasks ?S = tasks S @ [\<lparr>task_key = key, creator = c, execution = Running\<rparr>]"
    "inflight ?S = (inflight S)(key \<mapsto> length (tasks S))"
    "coroutines ?S = (coroutines S)(c \<mapsto> Leading key (length (tasks S)))" "gave_up ?S = gave_up S"
    using None by (simp_all add: enter_run_def Let_def)
  have c: "creator (tasks S ! f) \<noteq> c" if "coroutines S (creator (tasks S ! f)) = Some x" for f x
    using that assms(2) by auto
  have "inflight ?S k = Some f \<Longrightarrow>
      f < length (tasks ?S) \<and> coroutines ?S (creator (tasks ?S ! f)) = Some (Leading k f)" for k f
    using D(1) [of k f] c [of f] by (cases "k = key") (auto simp: S nth_append)
  moreover have "coroutines ?S a = Some (Leading k f) \<Longrightarrow> inflight ?S k = Some f \<and> f < length (tasks ?S) \<and>
      creator (tasks ?S ! f) = a \<and> task_key (tasks ?S ! f) = k" for a k f
    using S D(2) [of a k f] None by (cases "a = c") (auto simp: nth_append)
  moreover have "coroutines ?S a = Some (Following k f) \<Longrightarrow> f < length (tasks ?S) \<and> task_key (tasks ?S ! f) = k" for a k f
    using D(3) [of a k f] by (cases "a = c") (auto simp: S nth_append)
  moreover have "f < length (tasks ?S) \<Longrightarrow> execution (tasks ?S ! f) = Running \<Longrightarrow>
      coroutines ?S (creator (tasks ?S ! f)) = Some (Leading (task_key (tasks ?S ! f)) f)" for f
    using D(4) [of f] c [of f] by (cases "f = length (tasks S)") (auto simp: S nth_append)
  moreover have "coroutines ?S a = Some (Left k f out) \<Longrightarrow> f < length (tasks ?S) \<and> task_key (tasks ?S ! f) = k \<and>
      (execution (tasks ?S ! f) = Ended out \<or> a \<in> set (gave_up ?S) \<and> out = Cancelled)" for a k f out
    using D(5) [of a k f out] by (cases "a = c") (auto simp: S nth_append)
  ultimately show ?thesis unfolding flight_ok_def by blast
next
  case (Some f)
  note D = flight_okD [OF assms(1)]
  have "task_key (tasks S ! f) = key" using D(1) [OF Some] D(2) by blast
  then show ?thesis
    using D(1) [OF Some] D assms(2) Some unfolding flight_ok_def enter_run_def by auto
qed

lemma end_ok:
  assumes "flight_ok S" "f < length (tasks S)" "execution (tasks S ! f) = Running"
  shows "flight_ok (task_ends f out S)"
proof -
  have nth: "(tasks S)[f := (tasks S ! f)\<lparr>execution := Ended out\<rparr>] ! g =
      (if g = f then (tasks S ! f)\<lparr>execution := Ended out\<rparr> else tasks S ! g)" for g
    using assms(2) by (simp add: nth_list_update)
  note D = flight_okD [OF assms(1)]
  have left: "c \<in> set (gave_up S) \<and> o' = Cancelled" if "coroutines S c = Some (Left key f o')" for c key o'
    using D(5) [OF that] assms(3) by simp
  show ?thesis
    using assms D left unfolding task_ends_def flight_ok_def [of "tasks_update _ S"] by (auto simp: nth)
qed

lemma leave_ok:
  assumes "flight_ok S" "coroutines S c = Some co" "execution (tasks S ! awaited co) = Ended out' \<or> co = Following k f"
    and "execution (tasks S ! awaited co) = Ended out \<or> c \<in> set (gave_up S) \<and> out = Cancelled"
  shows "flight_ok (leave_run c out S)"
proof (cases co)
  case (Leading key g)
  with assms(2) have l: "coroutines S c = Some (Leading key g)" by simp
    have other: "creator (tasks S ! f) \<noteq> c" if "inflight S k = Some f" "k \<noteq> key" for k f
  proof
    assume "creator (tasks S ! f) = c"
    with flight_okD(1) [OF assms(1) that(1)] l that(2) show False by simp
  qed
  have lone: "k \<noteq> key" if "coroutines S a = Some (Leading k f)" "a \<noteq> c" for a k f
    using lone_leader [OF assms(1) l, of a f] that by auto
  have ended: "execution (tasks S ! f) = Running \<Longrightarrow> f \<noteq> g" for f using assms(3) Leading by auto
  have g: "g < length (tasks S)" "task_key (tasks S ! g) = key" using flight_okD(2) [OF assms(1) l] by simp_all
  have run: "f < length (tasks S) \<Longrightarrow> execution (tasks S ! f) = Running \<Longrightarrow> creator (tasks S ! f) \<noteq> c" for f
    using flight_okD(4) [OF assms(1), of f] l ended [of f] by auto
  let ?S = "leave_run c out S"
  have S: "tasks ?S = tasks S" "gave_up ?S = gave_up S" "inflight ?S = (inflight S)(key := None)"
    "coroutines ?S = (coroutines S)(c \<mapsto> Left key g out)" using l by (simp_all add: leave_run_def)
  note D = flight_okD [OF assms(1)]
  have "inflight ?S k = Some f \<Longrightarrow>
      f < length (tasks ?S) \<and> coroutines ?S (creator (tasks ?S ! f)) = Some (Leading k f)" for k f
    using D(1) [of k f] other [of k f] by (simp add: S split: if_splits)
  moreover have "coroutines ?S a = Some (Leading k f) \<Longrightarrow> inflight ?S k = Some f \<and> f < length (tasks ?S) \<and>
      creator (tasks ?S ! f) = a \<and> task_key (tasks ?S ! f) = k" for a k f
    using D(2) [of a k f] lone [of a k f] by (simp add: S split: if_splits)
  moreover have "coroutines ?S a = Some (Following k f) \<Longrightarrow> f < length (tasks ?S) \<and> task_key (tasks ?S ! f) = k" for a k f
    using D(3) [of a k f] by (simp add: S split: if_splits)
  moreover have "f < length (tasks ?S) \<Longrightarrow> execution (tasks ?S ! f) = Running \<Longrightarrow>
      coroutines ?S (creator (tasks ?S ! f)) = Some (Leading (task_key (tasks ?S ! f)) f)" for f
    using D(4) [of f] run [of f] by (simp add: S)
  moreover have "coroutines ?S a = Some (Left k f o') \<Longrightarrow> f < length (tasks ?S) \<and> task_key (tasks ?S ! f) = k \<and>
      (execution (tasks ?S ! f) = Ended o' \<or> a \<in> set (gave_up ?S) \<and> o' = Cancelled)" for a k f o'
    using D(5) [of a k f o'] g assms(4) Leading by (auto simp: S split: if_splits)
  ultimately show ?thesis unfolding flight_ok_def by blast
qed (use assms in \<open>auto simp: flight_ok_def leave_run_def\<close>)

lemma gave_up_ok: "flight_ok S \<Longrightarrow> flight_ok (S\<lparr>gave_up := c # gave_up S\<rparr>)"
  unfolding flight_ok_def by simp blast

lemma flown_ok: "flown S \<Longrightarrow> flight_ok S"
proof (induction rule: flown.induct)
  case fly_new
  then show ?case by (simp add: flight_ok_def new_single_flight_def)
next
  case (fly_resume S c)
  then show ?case by (auto simp: resume_def split: option.split execution.split intro: leave_ok)
next
  case (fly_cancel S c)
  note g = gave_up_ok [OF fly_cancel.IH, of c]
  have "flight_ok (S\<lparr>cancel_asked := f # cancel_asked S\<rparr>)" for f using fly_cancel.IH unfolding flight_ok_def by simp
  with leave_ok [OF g, of c _ _ _ _ Cancelled] fly_cancel.IH show ?case
    by (auto simp: cancel_run_def split: option.split caller.split execution.split)
qed (simp_all add: enter_ok end_ok)

section \<open>Properties\<close>

text \<open>C24. Callers of one key share their work: whatever the callers and tasks do, two executions of one key are never
  unfinished at the same time, a caller that left without being cancelled itself took the outcome of an
  execution of its own key, and when no leader of a key is inside the key is not registered, so the next caller
  starts afresh and nothing is kept for ever.\<close>

theorem callers_share_one_execution:
  assumes "flown S"
  shows "(\<forall>f < length (tasks S). \<forall>g < length (tasks S). task_key (tasks S ! f) = task_key (tasks S ! g) \<longrightarrow>
      execution (tasks S ! f) = Running \<longrightarrow> execution (tasks S ! g) = Running \<longrightarrow> f = g) \<and>
    (\<forall>c key f out. coroutines S c = Some (Left key f out) \<longrightarrow> c \<notin> set (gave_up S) \<longrightarrow>
      task_key (tasks S ! f) = key \<and> execution (tasks S ! f) = Ended out) \<and>
    (\<forall>key. (\<forall>c f. coroutines S c \<noteq> Some (Leading key f)) \<longrightarrow> inflight S key = None)"
proof -
  note ok = flown_ok [OF assms]
  note D = flight_okD [OF ok]
  show ?thesis
  proof (intro conjI allI impI, goal_cases)
    case (1 f g)
    have "inflight S (task_key (tasks S ! f)) = Some f" "inflight S (task_key (tasks S ! g)) = Some g"
      using D(2) [OF D(4) [OF 1(1,4)]] D(2) [OF D(4) [OF 1(2,5)]] by blast+
    then have "Some f = Some g" unfolding 1(3) by (rule trans [OF sym])
    then show ?case by (rule option.inject [THEN iffD1])
  next
    case (2 c key f out)
    with D(5) [OF 2(1)] show ?case by simp
  next
    case (3 c key f out)
    with D(5) [OF 3(1)] show ?case by simp
  next
    case (4 key)
    with D(1) [of key] show ?case by (cases "inflight S key") auto
  qed
qed

text \<open>A run: a leads, b follows, b gives up, the task returns, a takes the value.\<close>

theorem callers_share_one_execution_witness:
  "let S = resume 0 (task_ends 0 (Returned (7 :: nat)) (cancel_run 1 (enter_run 1 ''k'' (enter_run 0 ''k'' new_single_flight))))
   in flown S \<and> coroutines S 0 = Some (Left ''k'' 0 (Returned 7)) \<and> coroutines S 1 = Some (Left ''k'' 0 Cancelled) \<and>
      execution (tasks S ! 0) = Ended (Returned 7) \<and> inflight S ''k'' = None"
proof -
  let ?T = "cancel_run 1 (enter_run 1 ''k'' (enter_run 0 ''k'' (new_single_flight :: nat flights)))"
  let ?S = "resume 0 (task_ends 0 (Returned 7) ?T)"
  have T: "tasks ?T = [\<lparr>task_key = ''k'', creator = 0, execution = Running\<rparr>]"
    by (simp add: new_single_flight_def enter_run_def cancel_run_def leave_run_def)
  have "flown ?T" by (intro flown.intros) (simp_all add: new_single_flight_def enter_run_def)
  then have S: "flown ?S" using T by (intro fly_resume fly_end) simp_all
  have c: "coroutines ?S 0 = Some (Left ''k'' 0 (Returned 7))" "coroutines ?S 1 = Some (Left ''k'' 0 Cancelled)"
    "gave_up ?S = [1]"
    by (simp_all add: new_single_flight_def enter_run_def cancel_run_def leave_run_def task_ends_def resume_def)
  have "coroutines ?S d \<noteq> Some (Leading ''k'' f)" for d f
    by (simp add: new_single_flight_def enter_run_def cancel_run_def leave_run_def task_ends_def resume_def)
  then show ?thesis using callers_share_one_execution [OF S] S c by (simp add: Let_def)
qed

text \<open>A follower that gives up disturbs nobody, as the class promises; but a leader that gives up cancels the shared
  task, and a follower that did not give up leaves with its cancellation.\<close>

theorem only_a_leader_cancels_the_work:
  "(coroutines S c = Some (Following key f) \<longrightarrow>
      cancel_run c S = S\<lparr>coroutines := (coroutines S)(c \<mapsto> Left key f Cancelled), gave_up := c # gave_up S\<rparr>) \<and>
   (\<exists>S' :: 'v flights. flown S' \<and> cancel_asked S' = [0] \<and> 1 \<notin> set (gave_up S') \<and>
      coroutines S' 1 = Some (Left ''k'' 0 Cancelled))"
proof -
  let ?T = "cancel_run 0 (enter_run 1 ''k'' (enter_run 0 ''k'' (new_single_flight :: 'v flights)))"
  let ?S = "resume 1 (task_ends 0 Cancelled ?T)"
  have T: "tasks ?T = [\<lparr>task_key = ''k'', creator = 0, execution = Running\<rparr>]"
    by (simp add: new_single_flight_def enter_run_def cancel_run_def leave_run_def)
  have "flown ?T" by (intro flown.intros) (simp_all add: new_single_flight_def enter_run_def)
  then have S: "flown ?S" using T by (intro fly_resume fly_end) simp_all
  have "cancel_asked ?S = [0] \<and> 1 \<notin> set (gave_up ?S) \<and> coroutines ?S 1 = Some (Left ''k'' 0 Cancelled)"
    by (simp add: new_single_flight_def enter_run_def cancel_run_def leave_run_def task_ends_def resume_def)
  with S have "\<exists>S' :: 'v flights. flown S' \<and> cancel_asked S' = [0] \<and> 1 \<notin> set (gave_up S') \<and>
      coroutines S' 1 = Some (Left ''k'' 0 Cancelled)" by blast
  then show ?thesis by (simp add: cancel_run_def leave_run_def)
qed

end
