(* ===== verification/Lifecycle.thy ===== *)
theory Lifecycle
  imports Delivery Factory "HOL-Library.While_Combinator"
begin

text \<open>
  What runs beside the requests (\<open>run_autoscaler\<close>, \<open>drain_settlements\<close> and \<open>aclose\<close> of \<open>app/service.py\<close>) and the
  hook of \<open>app/main.py\<close> that starts and stops it (\<open>lifespan\<close>), on the worlds of \<open>Interleaving.thy\<close>.
\<close>

section \<open>The autoscaler's loop\<close>

text \<open>The loop tests \<open>stop\<close>, ticks and sleeps; a tick that raises is logged. It can be cancelled where it sleeps, or
  before it has started, and \<open>lifespan\<close> awaits that.\<close>

datatype scaler = Checking | Sleeping | Over

fun scaler_turn :: "env \<Rightarrow> settings \<Rightarrow> bool \<Rightarrow> scaler \<times> world \<Rightarrow> scaler \<times> world" where
  "scaler_turn e s stopped (Checking, w) =
     (if stopped then (Over, w)
      else case autoscale_tick e s (svc w) of
          (Inl x, sv) \<Rightarrow> (Sleeping, w\<lparr>svc := sv\<rparr>)
        | (Inr d, sv) \<Rightarrow> (Sleeping, w\<lparr>svc := sv\<rparr>))"
| "scaler_turn e s stopped (Sleeping, w) = (Checking, w)"
| "scaler_turn e s stopped (Over, w) = (Over, w)"

section \<open>Waiting for settlements\<close>

text \<open>\<open>_pending\<close>: the detached tasks that have not run yet.\<close>

definition unsettled :: "world \<Rightarrow> task set" where
  "unsettled w = {t. \<exists>j st u. jobs w t = Some j \<and> job_phase j = Streaming st \<and> suspended_at st = Settling u}"

text \<open>\<open>gather\<close> over a list of these tasks; and the loop of \<open>drain_settlements\<close>, \<open>listed\<close> being the order of the set.\<close>

fun gather_settlements :: "env \<Rightarrow> settings \<Rightarrow> task list \<Rightarrow> world \<Rightarrow> world" where
  "gather_settlements e s [] w = w"
| "gather_settlements e s (t # ts) w =
     gather_settlements e s ts (case svc_do e s (SettleStream t) w of None \<Rightarrow> w | Some w' \<Rightarrow> w')"

definition drain_settlements :: "env \<Rightarrow> settings \<Rightarrow> (world \<Rightarrow> task list) \<Rightarrow> world \<Rightarrow> world option" where
  "drain_settlements e s listed w =
     while_option (\<lambda>w. listed w \<noteq> []) (\<lambda>w. gather_settlements e s (listed w) w) w"

section \<open>Closing\<close>

text \<open>What the \<open>aclose\<close> of a backend does, when it has one: nothing, close its connection without looking at errors,
  or close it and let an error out.\<close>

datatype closing = Quiet | Swallows | Exposes

fun provider_aclose :: "provider_choice \<Rightarrow> closing option" where
  "provider_aclose (MockBackend m) = Some Quiet"
| "provider_aclose (VLLMBackend v) = Some Exposes"

fun ledger_aclose :: "ledger_choice \<Rightarrow> closing option" where
  "ledger_aclose (MemoryLedger L) = Some Quiet"
| "ledger_aclose (FleetLedger R) = Some Exposes"

fun cache_aclose :: "cache_choice option \<Rightarrow> closing option" where
  "cache_aclose None = None"
| "cache_aclose (Some (MemoryCache c)) = Some Quiet"
| "cache_aclose (Some (FleetCache c)) = Some Swallows"

fun limiter_aclose :: "limiter_choice option \<Rightarrow> closing option" where
  "limiter_aclose None = None"
| "limiter_aclose (Some (MemoryLimiter l)) = None"
| "limiter_aclose (Some (FleetLimiter l)) = Some Swallows"

definition closeables :: "wiring \<Rightarrow> (string \<times> closing option) list" where
  "closeables W =
     [(''provider'', provider_aclose (use_provider W)), (''ledger'', ledger_aclose (use_ledger W)),
      (''cache'', cache_aclose (use_cache W)), (''rate_limiter'', limiter_aclose (use_limiter W))]"

text \<open>The loop of \<open>aclose\<close>: the connections it closes, and the errors it logs, when closing the connections \<open>broken\<close>
  raises.\<close>

fun close_each :: "(string \<Rightarrow> bool) \<Rightarrow> (string \<times> closing option) list \<Rightarrow> string list \<times> string list" where
  "close_each broken [] = ([], [])"
| "close_each broken ((n, close) # rest) =
     (case close_each broken rest of (shut, logged) \<Rightarrow>
      case close of
        None \<Rightarrow> (shut, logged)
      | Some Quiet \<Rightarrow> (shut, logged)
      | Some Swallows \<Rightarrow> (n # shut, logged)
      | Some Exposes \<Rightarrow> (n # shut, if broken n then n # logged else logged))"

text \<open>\<open>aclose\<close>, the start of \<open>lifespan\<close>, and its end: the loop is cancelled, then the service closed.\<close>

definition lifespan_enter :: "world \<Rightarrow> scaler \<times> world" where
  "lifespan_enter w = (Checking, w)"

definition aclose ::
  "env \<Rightarrow> settings \<Rightarrow> (world \<Rightarrow> task list) \<Rightarrow> (string \<Rightarrow> bool) \<Rightarrow> wiring \<Rightarrow> world \<Rightarrow>
   (world \<times> string list \<times> string list) option" where
  "aclose e s listed broken W w =
     map_option (\<lambda>w'. (w', close_each broken (closeables W))) (drain_settlements e s listed w)"

definition lifespan_exit ::
  "env \<Rightarrow> settings \<Rightarrow> (world \<Rightarrow> task list) \<Rightarrow> (string \<Rightarrow> bool) \<Rightarrow> wiring \<Rightarrow> scaler \<times> world \<Rightarrow>
   (scaler \<times> world \<times> string list \<times> string list) option" where
  "lifespan_exit e s listed broken W app =
     (case app of (loop, w) \<Rightarrow> map_option (\<lambda>r. (Over, r)) (aclose e s listed broken W w))"

section \<open>Facts\<close>

lemma scaler_round:
  "scaler_turn e s False (scaler_turn e s False (Checking, w)) = (Checking, w\<lparr>svc := snd (autoscale_tick e s (svc w))\<rparr>)"
  by (auto split: prod.splits sum.splits)

lemma scaler_rounds:
  "\<exists>w'. ((scaler_turn e s False \<circ> scaler_turn e s False) ^^ n) (Checking, w) = (Checking, w') \<and>
     svc_exec e s (replicate n Tick) w = Some w'"
proof (induction n arbitrary: w)
  case (Suc n)
  then show ?case by (simp add: funpow_Suc_right scaler_round del: scaler_turn.simps funpow.simps)
qed simp

text \<open>One settlement.\<close>

lemma settle_one:
  assumes "reachable e s w" "inj (fresh_id e)" "t \<in> unsettled w"
  obtains w' j' res r where "svc_do e s (SettleStream t) w = Some w'" "reachable e s w'"
    "jobs w' t = Some j'" "job_phase j' = Done (Inr res)" "res_closed (job_reservation j')"
    "\<And>t'. t' \<noteq> t \<Longrightarrow> jobs w' t' = jobs w t'" "t \<notin> set (holding w')" "set (holding w') \<subseteq> set (holding w)"
    "usage_records (ledger (svc w')) = usage_records (ledger (svc w)) @ [r]"
proof -
  obtain j st u where j: "jobs w t = Some j" "job_phase j = Streaming st" "suspended_at st = Settling u"
    using assms(3) by (auto simp: unsettled_def)
  let ?w' = "land w t j (settle_stream e s (svc w) (job_request j) (job_reservation j) (job_decision j) st u)"
  note L = settle_stream_landed [OF assms(1,2) j(1,2) refl, of u]
  have d: "svc_do e s (SettleStream t) w = Some ?w'" using j by simp
  from L(1) obtain j' where "jobs ?w' t = Some j'" "job_phase j' = Done (Inr (stream_result (job_decision j) st u))"
    "res_closed (job_reservation j')" by blast
  moreover from L(3) obtain r where "usage_records (ledger (svc ?w')) = usage_records (ledger (svc w)) @ [r]" by blast
  moreover have "jobs ?w' t' = jobs w t'" if "t' \<noteq> t" for t' using that by (simp add: land_jobs)
  moreover have "set (holding ?w') \<subseteq> set (holding w)"
    by (auto simp: land_def split: prod.splits progress.splits dest: notin_set_remove1 set_remove1_subset [THEN subsetD])
  ultimately show thesis using that [OF d reach_step [OF assms(1) svc_do_step [OF d]]] L(2) by blast
qed

lemma gather_settles:
  assumes "reachable e s w" "inj (fresh_id e)" "distinct ts" "set ts \<subseteq> unsettled w"
  shows "reachable e s (gather_settlements e s ts w) \<and>
    unsettled (gather_settlements e s ts w) = unsettled w - set ts \<and>
    (\<forall>t'. t' \<notin> set ts \<longrightarrow> jobs (gather_settlements e s ts w) t' = jobs w t') \<and>
    (\<forall>t \<in> set ts. t \<notin> set (holding (gather_settlements e s ts w)) \<and>
      (\<exists>j res. jobs (gather_settlements e s ts w) t = Some j \<and> job_phase j = Done (Inr res) \<and>
        res_closed (job_reservation j))) \<and>
    set (holding (gather_settlements e s ts w)) \<subseteq> set (holding w) \<and>
    length (usage_records (ledger (svc (gather_settlements e s ts w)))) =
      length (usage_records (ledger (svc w))) + length ts"
  using assms
proof (induction ts arbitrary: w)
  case (Cons t ts)
  have t: "t \<in> unsettled w" using Cons.prems(4) by simp
  obtain w' j' res r where o: "svc_do e s (SettleStream t) w = Some w'" "reachable e s w'"
    "jobs w' t = Some j'" "job_phase j' = Done (Inr res)" "res_closed (job_reservation j')"
    "\<And>t'. t' \<noteq> t \<Longrightarrow> jobs w' t' = jobs w t'" "t \<notin> set (holding w')" "set (holding w') \<subseteq> set (holding w)"
    "usage_records (ledger (svc w')) = usage_records (ledger (svc w)) @ [r]"
    using settle_one [OF Cons.prems(1,2) t] by blast
  have un: "unsettled w' = unsettled w - {t}"
  proof -
    have "t' \<in> unsettled w' \<longleftrightarrow> t' \<in> unsettled w - {t}" for t'
      using o(3,4,6) by (cases "t' = t") (simp_all add: unsettled_def)
    then show ?thesis by blast
  qed
  have "distinct ts" "set ts \<subseteq> unsettled w'" "t \<notin> set ts" using Cons.prems(3,4) un by auto
  note IH = Cons.IH [OF o(2) Cons.prems(2) this(1,2)]
  have g: "gather_settlements e s (t # ts) w = gather_settlements e s ts w'" using o(1) by simp
  show ?case unfolding g using IH o un \<open>t \<notin> set ts\<close> by auto
qed simp

lemma drain_settles:
  assumes "reachable e s w" "inj (fresh_id e)"
    and "\<And>v. reachable e s v \<Longrightarrow> distinct (listed v) \<and> set (listed v) = unsettled v"
  shows "drain_settlements e s listed w = Some (gather_settlements e s (listed w) w)"
proof -
  let ?w = "gather_settlements e s (listed w) w"
  note l = assms(3) [OF assms(1)]
  have "set (listed w) \<subseteq> unsettled w" using l by simp
  note g = gather_settles [OF assms(1,2) conjunct1 [OF l] this]
  have "set (listed ?w) = {}" using g l assms(3) [of ?w] by simp
  then have stop: "while_option (\<lambda>v. listed v \<noteq> []) (\<lambda>v. gather_settlements e s (listed v) v) ?w = Some ?w"
    by (simp add: while_option_unfold [of _ _ ?w])
  show ?thesis
  proof (cases "listed w = []")
    case True
    then show ?thesis by (simp add: drain_settlements_def while_option_unfold [of _ _ w])
  next
    case False
    then show ?thesis by (simp add: drain_settlements_def while_option_unfold [of _ _ w] stop)
  qed
qed

text \<open>The backends with a connection to close.\<close>

definition connections :: "wiring \<Rightarrow> string list" where
  "connections W = map fst (filter (\<lambda>p. snd p = Some Swallows \<or> snd p = Some Exposes) (closeables W))"

lemma close_each_all: "fst (close_each broken cs) = map fst (filter (\<lambda>p. snd p = Some Swallows \<or> snd p = Some Exposes) cs)"
  by (induction broken cs rule: close_each.induct) (auto split: prod.splits option.splits closing.splits)

text \<open>Only finitely many requests have come, so the pending tasks can be listed.\<close>

lemma finite_jobs: "reachable e s w \<Longrightarrow> finite (dom (jobs w))"
proof (induction rule: reachable.induct)
  case reach_new
  then show ?case by (simp add: new_svc_world_def)
next
  case (reach_step w ev w')
  have "\<exists>t. dom (jobs w') \<subseteq> insert t (dom (jobs w))"
    using reach_step(2)
    by cases (auto simp: land_jobs at_gate_def Let_def put_job_def leave_shed_def set_gate_def split: if_splits prod.splits)
  then show ?case using reach_step.IH by (auto elim: finite_subset)
qed

lemma unsettled_listed:
  "reachable e s w \<Longrightarrow> distinct (sorted_list_of_set (unsettled w)) \<and> set (sorted_list_of_set (unsettled w)) = unsettled w"
proof -
  assume "reachable e s w"
  moreover have "unsettled w \<subseteq> dom (jobs w)" by (auto simp: unsettled_def)
  ultimately have "finite (unsettled w)" using finite_jobs finite_subset by blast
  then show ?thesis by simp
qed

section \<open>Properties\<close>

text \<open>C11. Shutting down loses no bill: whatever was going on, \<open>drain_settlements\<close> ends, with every settlement that was
  pending written to the ledger, its reservation closed and its slot free, and then every connection of the
  chosen backends is closed, also after one of them raised.\<close>

theorem shutdown_loses_no_bill:
  assumes "reachable e s w" "inj (fresh_id e)"
    and "\<And>v. reachable e s v \<Longrightarrow> distinct (listed v) \<and> set (listed v) = unsettled v"
  shows "\<exists>w' logged. lifespan_exit e s listed broken W (loop, w) = Some (Over, w', connections W, logged) \<and>
    reachable e s w' \<and> unsettled w' = {} \<and>
    (\<forall>t \<in> unsettled w. t \<notin> set (holding w') \<and>
      (\<exists>j res. jobs w' t = Some j \<and> job_phase j = Done (Inr res) \<and> res_closed (job_reservation j))) \<and>
    length (usage_records (ledger (svc w'))) = length (usage_records (ledger (svc w))) + card (unsettled w)"
proof -
  let ?w = "gather_settlements e s (listed w) w"
  note l = assms(3) [OF assms(1)]
  have "set (listed w) \<subseteq> unsettled w" using l by simp
  note g = gather_settles [OF assms(1,2) conjunct1 [OF l] this]
  have len: "length (listed w) = card (unsettled w)" using l distinct_card by metis
  obtain shut logged where c: "close_each broken (closeables W) = (shut, logged)" by (metis prod.exhaust)
  then have "shut = connections W" using close_each_all [of broken "closeables W"] by (simp add: connections_def)
  then have "lifespan_exit e s listed broken W (loop, w) = Some (Over, ?w, connections W, logged)"
    by (simp add: lifespan_exit_def aclose_def drain_settles [OF assms] c)
  moreover have "reachable e s ?w \<and> unsettled ?w = {}" using g l by simp
  ultimately show ?thesis using g l len by auto
qed

theorem shutdown_loses_no_bill_witness:
  "\<exists>w w' logged. 0 \<in> unsettled w \<and> lifespan_exit demo_env demo_settings (\<lambda>v. sorted_list_of_set (unsettled v)) (\<lambda>_. True)
       \<lparr>use_provider = MockBackend (new_mock 4), use_ledger = MemoryLedger new_ledger, use_cache = None,
         use_limiter = None\<rparr> (Sleeping, w) = Some (Over, w', [], logged) \<and> unsettled w' = {} \<and> 0 \<notin> set (holding w')"
proof -
  obtain j st where j: "jobs (demo_world demo_streaming) 0 = Some j" "job_phase j = Streaming st"
    and st: "last_usage st = Some \<lparr>usage_in = 1000, usage_out = 500\<rparr>" "suspended_at st = AtDelta"
    using demo_streaming_job by blast
  let ?st = "st\<lparr>suspended_at := Settling \<lparr>usage_in = 1000, usage_out = 500\<rparr>\<rparr>"
  let ?w = "put_job (demo_world demo_streaming) 0 (j\<lparr>job_phase := Streaming ?st\<rparr>)"
  have "stream_next demo_env demo_settings (job_decision j) Closed st = Some ?st"
    using st by (simp add: finalize_def Streaming.final_usage_def)
  from reach_step [OF demo_streaming_reachable step_stream [OF j this]]
  have w: "reachable demo_env demo_settings ?w" .
  have u: "0 \<in> unsettled ?w" by (simp add: unsettled_def put_job_def)
  let ?W = "\<lparr>use_provider = MockBackend (new_mock 4), use_ledger = MemoryLedger new_ledger, use_cache = None,
         use_limiter = None\<rparr>"
  have "connections ?W = []" by (simp add: connections_def closeables_def)
  with shutdown_loses_no_bill [OF w demo_ids unsettled_listed, where W = ?W and loop = Sleeping and broken = "\<lambda>_. True"] u show ?thesis by metis
qed

text \<open>A failing tick does not end the loop: in any number of rounds in which \<open>stop\<close> is not set the loop makes one
  tick each, whether it succeeds or raises, and is there for the next; it ends at the first test of a set \<open>stop\<close>,
  without another tick.\<close>

theorem scaling_survives_errors:
  assumes "reachable e s w"
  shows "\<exists>w'. ((scaler_turn e s False \<circ> scaler_turn e s False) ^^ n) (Checking, w) = (Checking, w') \<and>
    svc_exec e s (replicate n Tick) w = Some w' \<and> reachable e s w' \<and> scaler_turn e s True (Checking, w') = (Over, w')"
  using scaler_rounds [where e = e and s = s and n = n and w = w] svc_exec_reachable [OF assms] by fastforce

text \<open>With a target of no requests per replica a tick divides by zero as soon as there is load.\<close>

theorem scaling_survives_errors_witness:
  "let s = demo_settings\<lparr>target_concurrency_per_replica := 0\<rparr>;
       w = the (svc_exec demo_env s [Arrive 0 demo_request, Enter 0] (new_svc_world s)) in
   fst (autoscale_tick demo_env s (svc w)) = Inl ZeroDivisionError \<and>
   (\<exists>w'. ((scaler_turn demo_env s False \<circ> scaler_turn demo_env s False) ^^ 3) (Checking, w) = (Checking, w') \<and>
      reachable demo_env s w')"
proof -
  let ?s = "demo_settings\<lparr>target_concurrency_per_replica := 0\<rparr>"
  let ?run = "svc_exec demo_env ?s [Arrive 0 demo_request, Enter 0] (new_svc_world ?s)"
  have "(case ?run of None \<Rightarrow> False | Some w \<Rightarrow> fst (autoscale_tick demo_env ?s (svc w)) = Inl ZeroDivisionError)"
    by code_simp
  then obtain w where w: "?run = Some w" "fst (autoscale_tick demo_env ?s (svc w)) = Inl ZeroDivisionError"
    by (auto split: option.splits)
  from scaling_survives_errors [OF svc_exec_reachable [OF reach_new w(1)], of 3] w show ?thesis
    by (auto simp: Let_def)
qed

end
