(* ===== verification/Surface.thy ===== *)
theory Surface
  imports Guarantees Http
begin

text \<open>
  The edges of the HTTP surface: the request and response bodies of \<open>app/schemas.py\<close> and the exposition text of
  \<open>Metrics.prometheus\<close>. Parsing the JSON of a body is the framework's; its checks of the fields are modelled. How
  Python writes an integer or a float is a parameter, of which only is used that it writes no line feed.
\<close>

section \<open>Bodies\<close>

record body =
  prompt_field :: string
  user_field :: "string option"
  task_field :: "string option"
  max_output_field :: "int option"
  budget_field :: "f64 option"
  daily_budget_field :: "f64 option"
  model_field :: "string option"

text \<open>The constraints of the fields (\<open>ge\<close>), which hold of a value that is given, and the default of the user.\<close>

definition at_least :: "'a :: linorder \<Rightarrow> 'a option \<Rightarrow> bool" where
  "at_least bound v = (case v of None \<Rightarrow> True | Some x \<Rightarrow> bound \<le> x)"

definition request_of_body :: "body \<Rightarrow> request option" where
  "request_of_body b =
     (if at_least 1 (max_output_field b) \<and> at_least 0 (budget_field b) \<and> at_least 0 (daily_budget_field b)
      then Some \<lparr>prompt = prompt_field b,
        user_id = (case user_field b of None \<Rightarrow> ''anonymous'' | Some u \<Rightarrow> u), task_type = task_field b,
        max_output_tokens = max_output_field b, budget_usd = budget_field b,
        user_daily_budget_usd = daily_budget_field b, force_model = model_field b\<rparr>
      else None)"

definition inference_response :: "(routing_note \<Rightarrow> string) \<Rightarrow> inference_result \<Rightarrow> json" where
  "inference_response show_note res = JObj
     [(''text'', JStr (result_text res)), (''model'', JStr (result_model res)),
      (''complexity'', JStr (tier_name (result_complexity res))), (''input_tokens'', JInt (result_in res)),
      (''output_tokens'', JInt (result_out res)), (''cost_usd'', JFloat (result_cost_usd res)),
      (''downgraded'', JBool (result_downgraded res)), (''cached'', JBool (result_cached res)),
      (''routing_notes'', JList (map (JStr \<circ> show_note) (result_notes res)))]"

text \<open>\<open>POST /v1/infer\<close> with its body: what the schema refuses never reaches the service.\<close>

definition post_infer ::
  "(routing_note \<Rightarrow> string) \<Rightarrow> (service \<Rightarrow> request \<Rightarrow> (exc, inference_result) result \<times> service) \<Rightarrow> service \<Rightarrow> body \<Rightarrow>
   json answer \<times> service"
where
  "post_infer show_note handle sv b =
     (case request_of_body b of
        None \<Rightarrow> (Refusal \<lparr>status_code = 422, headers = []\<rparr>, sv)
      | Some r \<Rightarrow>
          (case handle sv r of (res, sv') \<Rightarrow>
             (case infer res of
                Answer a \<Rightarrow> (Answer (inference_response show_note a), sv')
              | Refusal h \<Rightarrow> (Refusal h, sv')
              | Crash x \<Rightarrow> (Crash x, sv'))))"

section \<open>Metrics as text\<close>

definition prometheus_line :: "(metric_value \<Rightarrow> string) \<Rightarrow> string \<times> metric_value \<Rightarrow> string list" where
  "prometheus_line show_value kv =
     (case kv of (key, v) \<Rightarrow>
       [''# TYPE llm_'' @ key @ '' gauge'', ''llm_'' @ key @ '' '' @ show_value v])"

fun join_lines :: "string list \<Rightarrow> string" where
  "join_lines [] = []"
| "join_lines [l] = l"
| "join_lines (l # ls) = l @ nl # join_lines ls"

definition prometheus :: "(metric_value \<Rightarrow> string) \<Rightarrow> metrics \<Rightarrow> string" where
  "prometheus show_value m = join_lines (concat (map (prometheus_line show_value) (snapshot m))) @ [nl]"

text \<open>\<open>GET /metrics\<close>\<close>

definition metrics_page :: "(metric_value \<Rightarrow> string) \<Rightarrow> service \<Rightarrow> string \<times> service" where
  "metrics_page show_value sv =
     (let sv = count (\<lambda>m. set_queue_depth m (waiting (gate sv))) sv in (prometheus show_value (metrics sv), sv))"

text \<open>What a scraper makes of the text: comments and empty lines are dropped, a sample is a name, a space, a value.\<close>

definition sample_of :: "string \<Rightarrow> (string \<times> string) option" where
  "sample_of l =
     (if l = [] \<or> starts_with ''#'' l then None
      else case py_partition CHR '' '' l of (metric, _, number) \<Rightarrow> Some (metric, number))"

definition scrape :: "string \<Rightarrow> (string \<times> string) list" where
  "scrape page = List.map_filter sample_of (py_split nl page)"

section \<open>Facts\<close>

lemma join_lines_split:
  "ls \<noteq> [] \<Longrightarrow> (\<And>l. l \<in> set ls \<Longrightarrow> nl \<notin> set l) \<Longrightarrow> py_split nl (join_lines ls @ [nl]) = ls @ [[]]"
proof (induction ls rule: join_lines.induct)
  case (2 l)
  then show ?case using py_split_append [of nl l "[]"] by simp
next
  case (3 l l' ls)
  then show ?case using py_split_append [of nl l "join_lines (l' # ls) @ [nl]"] by simp
qed simp

lemma sample_lines:
  assumes "CHR '' '' \<notin> set key"
  shows "List.map_filter sample_of (prometheus_line show_value (key, v)) = [(''llm_'' @ key, show_value v)]"
proof -
  have "py_partition CHR '' '' ((''llm_'' @ key) @ CHR '' '' # show_value v) = (''llm_'' @ key, '' '', show_value v)"
    using assms by (intro py_partition_append) simp
  then show ?thesis by (simp add: prometheus_line_def sample_of_def starts_with_def List.map_filter_def)
qed

lemma map_filter_append: "List.map_filter f (xs @ ys) = List.map_filter f xs @ List.map_filter f ys"
  by (simp add: List.map_filter_def)

lemma map_filter_samples:
  "\<forall>p \<in> set kvs. CHR '' '' \<notin> set (fst p) \<Longrightarrow>
   List.map_filter sample_of (concat (map (prometheus_line show_value) kvs)) =
     map (\<lambda>(k, v). (''llm_'' @ k, show_value v)) kvs"
proof (induction kvs)
  case (Cons p kvs)
  obtain k v where "p = (k, v)" by fastforce
  with Cons show ?case by (simp add: map_filter_append sample_lines)
qed (simp add: List.map_filter_def)

text \<open>No name in the snapshot has a blank or a line feed.\<close>

lemma snapshot_names: "\<forall>p \<in> set (snapshot m). CHR '' '' \<notin> set (fst p) \<and> nl \<notin> set (fst p)"
  by (simp add: snapshot_def nl_def)

section \<open>Properties\<close>

text \<open>The metrics page is readable: a scraper gets from it each number of the snapshot once, in order, under its name
  with the prefix \<open>llm_\<close>.\<close>

theorem prometheus_page_reads_back:
  assumes "\<And>v. nl \<notin> set (show_value v)"
  shows "scrape (prometheus show_value m) = map (\<lambda>(k, v). (''llm_'' @ k, show_value v)) (snapshot m) \<and>
    distinct (map fst (scrape (prometheus show_value m)))"
proof -
  let ?ls = "concat (map (prometheus_line show_value) (snapshot m))"
  have "nl \<notin> set l" if "l \<in> set ?ls" for l
    using that assms snapshot_names [of m] by (auto simp: prometheus_line_def nl_def)
  moreover have "?ls \<noteq> []" by (simp add: snapshot_def prometheus_line_def)
  ultimately have "py_split nl (prometheus show_value m) = ?ls @ [[]]"
    unfolding prometheus_def by (intro join_lines_split) simp_all
  then have s: "scrape (prometheus show_value m) = map (\<lambda>(k, v). (''llm_'' @ k, show_value v)) (snapshot m)"
    using map_filter_samples [of "snapshot m" show_value] snapshot_names [of m]
    by (simp add: scrape_def map_filter_append sample_of_def List.map_filter_def)
  have "distinct (map fst (map (\<lambda>(k, v). (''llm_'' @ k, show_value v)) (snapshot m)))"
    by (simp add: snapshot_def)
  with s show ?thesis by simp
qed

theorem prometheus_page_reads_back_witness:
  "map_of (scrape (prometheus (\<lambda>v. case v of Count n \<Rightarrow> show_nat (nat n) | Amount x \<Rightarrow> ''0'') (request_shed new_metrics)))
     ''llm_total_shed'' = Some ''1''"
proof -
  let ?show = "\<lambda>v. case v of Count n \<Rightarrow> show_nat (nat n) | Amount x \<Rightarrow> ''0''"
  have "nl \<notin> set (?show v)" for v
    using show_nat_digits by (cases v) (fastforce simp: nl_def)+
  from prometheus_page_reads_back [of ?show "request_shed new_metrics", OF this] show ?thesis
    by (simp add: snapshot_def request_shed_def new_metrics_def) code_simp
qed

text \<open>C36. What the schema accepts meets the contract of the ledger: a hold it leads to is not negative and within the
  request's own budget, for at least one token, and the limit it is checked against is not negative.\<close>

theorem accepted_bodies_meet_the_ledger:
  assumes "request_of_body b = Some r" "arrive e s sv r = (Holding d rv, sv')"
    and "sound_tokenizer (tokenizer e)" "\<forall>m \<in> set (catalog s). priced m" "0 \<le> default_user_daily_budget_usd s"
  shows "0 \<le> res_amount rv \<and> 0 \<le> user_limit s r \<and> 1 \<le> projected_output_tokens d \<and>
    (case budget_field b of None \<Rightarrow> True | Some x \<Rightarrow> res_amount rv \<le> x)"
proof -
  obtain now n where rt: "route (tokenizer e) (prompt r) s (task_type r) (max_output_tokens r) (budget_usd r)
      (force_model r) {} = Inr d"
    and rs: "reserve now (fresh_id e n) (ledger sv) (user_id r) (projected_cost d) (user_limit s r) = (Inr rv, ledger sv')"
    using arrive_effect(3) [OF assms(2) refl] by blast
  obtain c inp where c: "count_tokens (tokenizer e) (prompt r) (chars_per_token s) = Inr inp"
    and "if forced (force_model r)
     then route_forced (available s {}) (the (force_model r)) c inp
       (estimate_output_tokens (max_output_tokens r) (default_max_output_tokens s)) (request_budget s (budget_usd r)) = Inr d
     else route_by_tier (available s {}) c inp
       (estimate_output_tokens (max_output_tokens r) (default_max_output_tokens s)) (request_budget s (budget_usd r)) = Inr d"
    using rt by (elim route_Inr) blast
  then have d: "Router.input_tokens d = inp"
    "projected_output_tokens d = estimate_output_tokens (max_output_tokens r) (default_max_output_tokens s)"
    by (auto simp: route_forced_def route_by_tier_def bind_result_Inr_iff Let_def split: if_splits option.splits list.splits)
  note safe = route_safe [OF rt]
  have out: "1 \<le> projected_output_tokens d" using estimate_output_tokens_pos d(2) by simp
  have "0 \<le> inp" using count_tokens_nonneg [OF assms(3) c] .
  then have "0 \<le> projected_cost d" using safe assms(4) out d(1) by (auto simp: available_set intro: cost_nonneg)
  moreover have "res_amount rv = projected_cost d" using reserve_granted(1) [OF rs] by simp
  moreover have "0 \<le> user_limit s r" "budget_usd r = budget_field b"
    using assms(1,5) by (auto simp: request_of_body_def user_limit_def at_least_def split: if_splits option.splits)
  ultimately show ?thesis using safe out by (auto simp: request_budget_def split: option.splits)
qed

theorem accepted_bodies_meet_the_ledger_witness:
  "\<exists>r d rv sv'. request_of_body \<lparr>prompt_field = ''hi'', user_field = None, task_field = Some ''simple'',
       max_output_field = Some 100, budget_field = Some 1, daily_budget_field = None, model_field = None\<rparr> = Some r \<and>
     user_id r = ''anonymous'' \<and>
     arrive demo_env demo_settings (new_service demo_settings) r = (Holding d rv, sv') \<and> 0 \<le> res_amount rv \<and> res_amount rv \<le> 1"
proof -
  let ?b = "\<lparr>prompt_field = ''hi'', user_field = None, task_field = Some ''simple'',
       max_output_field = Some 100, budget_field = Some 1, daily_budget_field = None, model_field = None\<rparr>"
  let ?r = "\<lparr>prompt = ''hi'', user_id = ''anonymous'', task_type = Some ''simple'', max_output_tokens = Some 100,
       budget_usd = Some 1, user_daily_budget_usd = None, force_model = None\<rparr>"
  have b: "request_of_body ?b = Some ?r" by (simp add: request_of_body_def at_least_def)
  have "(case arrive demo_env demo_settings (new_service demo_settings) ?r of (Holding d rv, sv') \<Rightarrow> True | _ \<Rightarrow> False)"
    by code_simp
  then obtain d rv sv' where a: "arrive demo_env demo_settings (new_service demo_settings) ?r = (Holding d rv, sv')"
    by (auto split: prod.splits arrival.splits)
  have "sound_tokenizer (tokenizer demo_env)" "\<forall>m \<in> set (catalog demo_settings). priced m"
    "0 \<le> default_user_daily_budget_usd demo_settings"
    by (simp_all add: demo_env_def demo_settings_def demo_small_def default_settings_def priced_def
        sound_tokenizer_def run_tokenizer_def)
  from accepted_bodies_meet_the_ledger [OF b a this] a b show ?thesis by auto
qed

end
