(* ===== verification/Progress.thy ===== *)
theory Progress
  imports Delivery
begin

text \<open>
  How a request ends: by its own steps, whatever the other requests do. \<open>can_end\<close>: at most two steps take a
  request to its answer; \<open>cancelling\<close> names those that a cancellation of its task takes it through.
\<close>

section \<open>The ways out\<close>

fun acts_for :: "task \<Rightarrow> svc_event \<Rightarrow> bool" where
  "acts_for t (Expire u) \<longleftrightarrow> u = t"
| "acts_for t (Shed u) \<longleftrightarrow> u = t"
| "acts_for t (Begin u) \<longleftrightarrow> u = t"
| "acts_for t (Fault u x) \<longleftrightarrow> u = t"
| "acts_for t (Stream u i) \<longleftrightarrow> u = t"
| "acts_for t (SettleStream u) \<longleftrightarrow> u = t"
| "acts_for t ev \<longleftrightarrow> False"

fun in_service :: "phase \<Rightarrow> bool" where
  "in_service Leaving = False"
| "in_service (Dropped c) = False"
| "in_service (Done a) = False"
| "in_service p = True"

text \<open>The events of a cancellation, by the phase it finds the request in; the streams have their own way out.\<close>

fun cancelling :: "task \<Rightarrow> phase \<Rightarrow> svc_event list" where
  "cancelling t Reserved = [GiveUp t]"
| "cancelling t Queued = [GiveUp t, Leave t]"
| "cancelling t Leaving = [Leave t]"
| "cancelling t (Calling d ex) = [CancelCall t]"
| "cancelling t p = []"

definition finished :: "world \<Rightarrow> task \<Rightarrow> bool" where
  "finished w t \<longleftrightarrow> (\<exists>j. jobs w t = Some j \<and> is_done (job_phase j))"

definition can_end :: "env \<Rightarrow> settings \<Rightarrow> world \<Rightarrow> task \<Rightarrow> bool" where
  "can_end e s w t \<longleftrightarrow> (\<exists>evs w'. length evs \<le> 2 \<and> list_all (acts_for t) evs \<and> svc_exec e s evs w = Some w' \<and> finished w' t)"

section \<open>Facts\<close>

lemma can_endI:
  "svc_exec e s evs w = Some w' \<Longrightarrow> finished w' t \<Longrightarrow> length evs \<le> 2 \<Longrightarrow> list_all (acts_for t) evs \<Longrightarrow> can_end e s w t"
  unfolding can_end_def by blast

lemma svc_exec_snoc: "svc_exec e s evs w = Some v \<Longrightarrow> svc_exec e s (evs @ vs) w = svc_exec e s vs v"
  by (induction evs arbitrary: w) (auto split: option.splits)

lemma svc_exec_appendD:
  "svc_exec e s (evs @ vs) w = Some w' \<Longrightarrow> \<exists>v. svc_exec e s evs w = Some v \<and> svc_exec e s vs v = Some w'"
  by (induction evs arbitrary: w) (auto split: option.splits)

lemma finished_land: "fst out = Finish a \<Longrightarrow> finished (land w t j out) t"
  by (simp add: finished_def land_jobs)

lemma finished_shed: "finished (leave_shed s w t j) t"
  using leave_shed_jobs [of s w t j] by (elim exE) (simp add: finished_def)

lemma client_fault_lands:
  "finished (land w t j (provider_failed e s sv r rv d ex ProviderError)) t"
proof -
  have "\<exists>a. fst (provider_failed e s sv r rv d ex ProviderError) = Finish a"
    by (auto simp: provider_failed_def server_fault_def abort_def split: prod.splits)
  then show ?thesis by (elim exE) (rule finished_land)
qed

text \<open>A future that was cancelled is in the queue, marked.\<close>

lemma cancelled_future:
  assumes "gate_part w" "jobs w t = Some j" "in_queue (job_phase j)"
  shows "(t, Cancelling) \<in> set (waiters (cancel t (gate (svc w))))"
proof -
  have "t \<in> fst ` set (waiters (gate (svc w)))" using assms by (simp add: gate_part_def in_phase_iff)
  then obtain st where "(t, st) \<in> set (waiters (gate (svc w)))" by force
  from imageI [OF this, of "\<lambda>(u, st). (u, if u = t then Cancelling else st)"] show ?thesis
    by (simp add: cancel_def)
qed

lemma queued_ends:
  assumes "gate_part w" "jobs w t = Some j" "job_phase j = Queued" "0 < admission_timeout_s s"
  shows "can_end e s w t"
  by (rule can_endI [where evs = "[Expire t, Shed t]"])
    (use cancelled_future [OF assms(1,2)] assms(2-4) finished_shed in simp_all)

lemma admitted_ends:
  assumes "jobs w t = Some j" "job_phase j = Admitted"
  shows "can_end e s w t"
proof -
  let ?out = "begin_generation e s (svc w) (job_request j) (job_reservation j) (job_decision j)"
  let ?v = "land (w\<lparr>calling := t # calling w\<rparr>) t j ?out"
  have v: "svc_exec e s [Begin t] w = Some ?v" using assms by simp
  show ?thesis
  proof (cases "fst ?out")
    case (Finish a)
    then have "finished ?v t" by (rule finished_land)
    with v show ?thesis by (rule can_endI) simp_all
  next
    case (Call d ex)
    then obtain j' where j': "jobs ?v t = Some j'" "job_phase j' = Calling d ex" by (simp add: land_jobs)
    have "svc_exec e s [Fault t ProviderError] ?v =
        Some (land ?v t j' (provider_failed e s (svc ?v) (job_request j') (job_reservation j') d ex ProviderError))"
      using j' by simp
    with svc_exec_snoc [OF v, of "[Fault t ProviderError]"] client_fault_lands show ?thesis
      by (intro can_endI [where evs = "[Begin t, Fault t ProviderError]"]) simp_all
  qed
qed

lemma stream_ends:
  assumes "stream_run e s (job_decision j) st" "chars_per_token s \<noteq> 0" "jobs w t = Some j" "job_phase j = Streaming st"
  shows "can_end e s w t"
proof -
  have settled: "finished (land v t j' (settle_stream e s sv r rv d st' u)) t" for v j' sv r rv d st' u
    by (rule finished_land) (simp add: settle_stream_def Let_def split: prod.splits)
  from stream_closes [OF assms(1,2)]
  consider u where "suspended_at st = Settling u"
    | st' u where "stream_next e s (job_decision j) Closed st = Some st'" "suspended_at st' = Settling u"
    by blast
  then show ?thesis
  proof cases
    case (1 u)
    with assms(3,4) settled show ?thesis by (intro can_endI [where evs = "[SettleStream t]"]) simp_all
  next
    case (2 st' u)
    with assms(3,4) settled show ?thesis
      by (intro can_endI [where evs = "[Stream t Closed, SettleStream t]"]) (simp_all del: stream_next.simps)
  qed
qed

lemma exec_reachable: "reachable e s w \<Longrightarrow> svc_exec e s evs w = Some w' \<Longrightarrow> reachable e s w'"
  by (rule svc_exec_reachable)

text \<open>A finished request holds nothing: no slot, no place in the queue, no open reservation.\<close>

lemma finished_is_clean:
  assumes "reachable e s w" "inj (fresh_id e)" "finished w t"
  shows "\<exists>j. jobs w t = Some j \<and> is_done (job_phase j) \<and> res_closed (job_reservation j) \<and>
    t \<notin> set (holding w) \<and> t \<notin> fst ` set (waiters (gate (svc w))) \<and> t \<notin> set (calling w)"
proof -
  obtain j where j: "jobs w t = Some j" "is_done (job_phase j)" using assms(3) by (auto simp: finished_def)
  have b: "ids_ok e w" "gate_part w" "count_part w"
    using books_ok_reachable [OF assms(1,2)] by (simp_all add: books_ok_def)
  have "\<not> has_slot (job_phase j)" "\<not> in_queue (job_phase j)" "\<not> is_calling (job_phase j)"
    using j(2) by (cases "job_phase j"; simp)+
  with b j ids_okD(1) [OF b(1) j(1)] show ?thesis by (simp add: gate_part_def count_part_def in_phase_iff)
qed

section \<open>Properties\<close>

text \<open>C3. No request waits for another, unless it is configured to: from every reachable world every request that has a slot,
  calls or streams, and with an admission timeout configured also every request that waits for its slot, has a way to
  its answer of at most two steps, all of them its own (its timeout, its provider's answer, its consumer's leaving),
  after which its reservation is closed and it has neither a slot nor a place in the queue nor a count in flight. With
  \<open>admission_timeout_s = 0\<close>, which means to wait for ever, the requests that wait for a slot are excluded: they
  depend on another request that gives its slot back.\<close>

theorem every_request_can_finish:
  assumes "reachable e s w" "inj (fresh_id e)" "job_phase j = Reserved \<or> job_phase j = Queued \<longrightarrow> 0 < admission_timeout_s s"
    and "chars_per_token s \<noteq> 0" "jobs w t = Some j" "in_service (job_phase j)"
  shows "\<exists>evs w' j'. length evs \<le> 2 \<and> list_all (acts_for t) evs \<and> svc_exec e s evs w = Some w' \<and>
    jobs w' t = Some j' \<and> is_done (job_phase j') \<and> res_closed (job_reservation j') \<and>
    t \<notin> set (holding w') \<and> t \<notin> fst ` set (waiters (gate (svc w'))) \<and> t \<notin> set (calling w')"
proof -
  have g: "gate_part w" using books_ok_reachable [OF assms(1,2)] by (simp add: books_ok_def)
  have "can_end e s w t"
  proof (cases "job_phase j")
    case Reserved
    then show ?thesis
      using assms(3,5) finished_shed by (intro can_endI [where evs = "[Expire t]"]) simp_all
  next
    case Queued
    with assms(3) have "0 < admission_timeout_s s" by simp
    from queued_ends [OF g assms(5) Queued this] show ?thesis .
  next
    case Admitted
    from admitted_ends [OF assms(5) Admitted] show ?thesis .
  next
    case (Calling d ex)
    then show ?thesis
      using assms(5) client_fault_lands by (intro can_endI [where evs = "[Fault t ProviderError]"]) simp_all
  next
    case (Streaming st)
    from stream_ends [OF reachable_stream [OF assms(1,5) Streaming] assms(4,5) Streaming] show ?thesis .
  qed (use assms(6) in simp_all)
  then obtain evs w' where w': "length evs \<le> 2" "list_all (acts_for t) evs" "svc_exec e s evs w = Some w'" "finished w' t"
    unfolding can_end_def by blast
  from finished_is_clean [OF exec_reachable [OF assms(1) w'(3)] assms(2) w'(4)] w'(1-3) show ?thesis by blast
qed

theorem every_request_can_finish_witness:
  "\<exists>evs w' j'. length evs \<le> 2 \<and> svc_exec demo_env demo_settings evs (demo_world demo_streaming) = Some w' \<and>
     jobs w' 0 = Some j' \<and> is_done (job_phase j') \<and> 0 \<notin> set (holding w')"
proof -
  obtain j st where j: "jobs (demo_world demo_streaming) 0 = Some j" "job_phase j = Streaming st"
    using demo_streaming_job by blast
  have "0 < admission_timeout_s demo_settings" by (simp add: demo_settings_def default_settings_def)
  moreover have "in_service (job_phase j)" using j(2) by simp
  ultimately show ?thesis
    using every_request_can_finish [OF demo_streaming_reachable demo_ids _ demo_per_token j(1)] by blast
qed

text \<open>C18. A request that is cancelled before it has a stream is never settled. When its task is cancelled while it waits for a
  slot (buffered or to be streamed) or for the answer of a buffered call, the cancellation runs to its end, leaves ledger
  and metrics as they are and takes the request out of the gate; and whatever happens afterwards, its reservation
  stays open and, if the provider had been called, the request stays counted as in flight. Open streams are not meant: they
  have their own way out (\<open>stream_ends\<close>).\<close>

theorem cancelled_request_is_never_settled:
  assumes "reachable e s w" "inj (fresh_id e)" "jobs w t = Some j" "cancelling t (job_phase j) \<noteq> []"
    and "svc_exec e s (cancelling t (job_phase j) @ evs) w = Some w'"
  shows "\<exists>v. svc_exec e s (cancelling t (job_phase j)) w = Some v \<and>
    ledger (svc v) = ledger (svc w) \<and> metrics (svc v) = metrics (svc w) \<and>
    t \<notin> set (holding v) \<and> t \<notin> fst ` set (waiters (gate (svc v))) \<and>
    jobs w' t = Some (j\<lparr>job_phase := Dropped (is_calling (job_phase j))\<rparr>) \<and> \<not> res_closed (job_reservation j)"
proof -
  let ?j = "j\<lparr>job_phase := Dropped (is_calling (job_phase j))\<rparr>"
  obtain v where v: "svc_exec e s (cancelling t (job_phase j)) w = Some v" "svc_exec e s evs v = Some w'"
    using svc_exec_appendD [OF assms(5)] by blast
  have still: "ledger (svc v) = ledger (svc w)" "metrics (svc v) = metrics (svc w)" "jobs v t = Some ?j"
    using v(1) assms(3,4)
    by (cases "job_phase j"; auto simp: provider_cancelled_def split: if_splits)+
  have "gate_part v" "ids_ok e w"
    using books_ok_reachable [OF exec_reachable [OF assms(1) v(1)] assms(2)] books_ok_reachable [OF assms(1,2)]
    by (simp_all add: books_ok_def)
  then have "t \<notin> set (holding v)" "t \<notin> fst ` set (waiters (gate (svc v)))" "\<not> res_closed (job_reservation j)"
    using still(3) ids_okD(1) [of e w t j] assms(3,4)
    by (cases "job_phase j"; simp add: gate_part_def in_phase_iff)+
  with v(1) still dropped_stays [OF v(2) still(3)] show ?thesis by auto
qed

theorem cancelled_request_is_never_settled_witness:
  "\<exists>w' j. svc_exec demo_env demo_settings [CancelCall 0, Tick] (demo_world demo_called) = Some w' \<and>
     jobs w' 0 = Some j \<and> job_phase j = Dropped True"
proof -
  have "(case jobs (demo_world demo_called) 0 of
      Some j \<Rightarrow> (case job_phase j of Calling d ex \<Rightarrow> True | _ \<Rightarrow> False) | None \<Rightarrow> False)" by code_simp
  then obtain j d ex where j: "jobs (demo_world demo_called) 0 = Some j" "job_phase j = Calling d ex"
    by (auto split: option.splits phase.splits)
  then obtain w' where w': "svc_exec demo_env demo_settings (cancelling 0 (job_phase j) @ [Tick]) (demo_world demo_called) = Some w'"
    by simp
  have "cancelling 0 (job_phase j) \<noteq> []" using j by simp
  from cancelled_request_is_never_settled [OF demo_called_reachable demo_ids j(1) this w'] w' j(2) show ?thesis by auto
qed

end
