(* ===== verification/Endpoint.thy ===== *)
theory Endpoint
  imports Surface
begin

text \<open>
  \<open>POST /v1/infer/stream\<close> of \<open>app/main.py\<close>: the generator \<open>body()\<close> that turns the events of the service's
  generator into server-sent events, with what its consumer can do to it. Two generators are nested here: \<open>source\<close>
  is the one of the service (a live stream of \<open>Streaming.thy\<close> or a replayed cached answer), \<open>place\<close> says where
  \<open>body()\<close> itself is suspended. Starlette pulls the body; when the client is gone it cancels the task, which hits
  \<open>body()\<close> while it waits inside the service's generator (\<open>CancelTask\<close>) or, at a \<open>yield\<close>, drops it, so that the event
  loop closes it (\<open>Close\<close>), and after it the generator of the service (\<open>Reap\<close>).
\<close>

section \<open>The generator of the service, as its consumer sees it\<close>

datatype source =
    Live routing_decision stream
  | Replay "stream_event list"

datatype pulled =
    Yields stream_event
  | Waits
  | Stops
  | Raises exc

definition reached :: "stream \<Rightarrow> pulled" where
  "reached st =
     (case suspended_at st of
        AtProvider \<Rightarrow> Waits
      | Settling u \<Rightarrow> Stops
      | Unbilled x \<Rightarrow> Raises x
      | _ \<Rightarrow> Yields (last (emitted st)))"

text \<open>\<open>__anext__\<close>. A generator that ended answers \<open>StopAsyncIteration\<close>; at its error event it goes on to raise.\<close>

fun pull :: "env \<Rightarrow> settings \<Rightarrow> source \<Rightarrow> pulled \<times> source" where
  "pull e s (Replay []) = (Stops, Replay [])"
| "pull e s (Replay (ev # evs)) = (Yields ev, Replay evs)"
| "pull e s (Live d st) =
     (case stream_next e s d Pulled st of
        None \<Rightarrow> (Stops, Live d st)
      | Some st' \<Rightarrow>
          ((case (suspended_at st, suspended_at st') of (AtError x, Settling u) \<Rightarrow> Raises x | _ \<Rightarrow> reached st'), Live d st'))"

text \<open>What the provider answers while the generator waits for it.\<close>

fun hear :: "env \<Rightarrow> settings \<Rightarrow> stream_input \<Rightarrow> source \<Rightarrow> (pulled \<times> source) option" where
  "hear e s i (Replay evs) = None"
| "hear e s i (Live d st) =
     (if suspended_at st = AtProvider
      then map_option (\<lambda>st'. (reached st', Live d st')) (stream_next e s d i st) else None)"

section \<open>The body of the response\<close>

datatype item =
    Event stream_event
  | Mark

datatype place =
    Unstarted stream_event
  | AtItem
  | InStream
  | AtMark bool
  | Over

record response =
  place :: place
  source :: source
  sent :: "item list"

text \<open>What the step of the generator is to whoever resumed it. \<open>IgnoredExit\<close> is Python's \<open>RuntimeError\<close> for a generator
  that yields when it is closed; what it yields is lost.\<close>

datatype reaction =
    Sends item
  | Suspends
  | Finishes
  | Propagates
  | IgnoredExit

datatype consumer_input =
    Next
  | Provider stream_input
  | CancelTask
  | Close
  | Reap

definition send :: "item \<Rightarrow> place \<Rightarrow> response \<Rightarrow> reaction \<times> response" where
  "send it p r = (Sends it, r\<lparr>place := p, sent := sent r @ [it]\<rparr>)"

text \<open>The loop \<open>async for\<close>. Both its end and an exception of the service lead to the \<open>finally\<close>, which yields the mark.\<close>

definition got :: "response \<Rightarrow> pulled \<times> source \<Rightarrow> reaction \<times> response" where
  "got r p =
     (let r' = r\<lparr>source := snd p\<rparr> in
      case fst p of
        Yields ev \<Rightarrow> send (Event ev) AtItem r'
      | Waits \<Rightarrow> (Suspends, r'\<lparr>place := InStream\<rparr>)
      | Stops \<Rightarrow> send Mark (AtMark False) r'
      | Raises x \<Rightarrow> send Mark (AtMark False) r')"

fun body_do :: "env \<Rightarrow> settings \<Rightarrow> consumer_input \<Rightarrow> response \<Rightarrow> (reaction \<times> response) option" where
  "body_do e s Next r =
     (case place r of
        Unstarted ev \<Rightarrow> Some (send (Event ev) AtItem r)
      | AtItem \<Rightarrow> Some (got r (pull e s (source r)))
      | AtMark leaving \<Rightarrow> Some (if leaving then Propagates else Finishes, r\<lparr>place := Over\<rparr>)
      | _ \<Rightarrow> None)"
| "body_do e s (Provider i) r =
     (if place r = InStream \<and> i \<noteq> Closed then map_option (got r) (hear e s i (source r)) else None)"
| "body_do e s CancelTask r =
     (if place r = InStream
      then map_option (\<lambda>p. send Mark (AtMark (fst p = Stops)) (r\<lparr>source := snd p\<rparr>)) (hear e s Closed (source r))
      else None)"
| "body_do e s Close r =
     (case place r of
        Unstarted ev \<Rightarrow> Some (Finishes, r\<lparr>place := Over\<rparr>)
      | AtItem \<Rightarrow> Some (IgnoredExit, r\<lparr>place := AtMark True\<rparr>)
      | AtMark leaving \<Rightarrow> Some (Finishes, r\<lparr>place := Over\<rparr>)
      | _ \<Rightarrow> None)"
| "body_do e s Reap r =
     (case (place r, source r) of
        (Over, Live d st) \<Rightarrow>
          map_option (\<lambda>st'. (Finishes, r\<lparr>source := Live d st'\<rparr>)) (stream_next e s d Closed st)
      | _ \<Rightarrow> None)"

fun body_exec :: "env \<Rightarrow> settings \<Rightarrow> consumer_input list \<Rightarrow> response \<Rightarrow> response option" where
  "body_exec e s [] r = Some r"
| "body_exec e s (i # is) r = (case body_do e s i r of None \<Rightarrow> None | Some (out, r') \<Rightarrow> body_exec e s is r')"

section \<open>The endpoint\<close>

text \<open>The events of \<open>_replay_cached\<close>, from the cached answer.\<close>

definition replay_of :: "inference_result \<Rightarrow> stream_event list" where
  "replay_of res =
     [StartEvent (result_model res) (result_complexity res) (result_downgraded res) True (result_notes res) 0]
     @ (if result_text res \<noteq> [] then [DeltaEvent (result_text res)] else [])
     @ [EndEvent (result_model res) (result_in res) (result_out res) 0 (result_downgraded res) True]"

text \<open>The generator after its first \<open>__anext__\<close>, which runs admission and yields the start event.\<close>

definition started :: "settings \<Rightarrow> arrival \<Rightarrow> bool \<Rightarrow> (exc, response) result" where
  "started s a admitted =
     (case a of
        Refused x \<Rightarrow> Inl x
      | FromCache res \<Rightarrow> Inr \<lparr>place = Unstarted (hd (replay_of res)), source = Replay (tl (replay_of res)), sent = []\<rparr>
      | Holding d rv \<Rightarrow>
          if admitted then Inr \<lparr>place = Unstarted (hd (emitted (open_stream d))), source = Live d (open_stream d), sent = []\<rparr>
          else Inl (AdmissionTimeoutError (admission_timeout_s s)))"

definition post_infer_stream ::
  "env \<Rightarrow> settings \<Rightarrow> service \<Rightarrow> body \<Rightarrow> bool \<Rightarrow> response answer \<times> service" where
  "post_infer_stream e s sv b admitted =
     (case request_of_body b of
        None \<Rightarrow> (Refusal \<lparr>status_code = 422, headers = []\<rparr>, sv)
      | Some r \<Rightarrow> (case arrive e s sv r of (a, sv') \<Rightarrow> (answer_of (started s a admitted), sv')))"

definition item_text :: "(json \<Rightarrow> string) \<Rightarrow> (routing_note \<Rightarrow> string) \<Rightarrow> (exc \<Rightarrow> string) \<Rightarrow> item \<Rightarrow> string" where
  "item_text dumps note_text detail it =
     (case it of Event ev \<Rightarrow> sse dumps (sse_payload note_text detail ev) | Mark \<Rightarrow> ''data: [DONE]'' @ [nl, nl])"

definition response_text :: "(json \<Rightarrow> string) \<Rightarrow> (routing_note \<Rightarrow> string) \<Rightarrow> (exc \<Rightarrow> string) \<Rightarrow> item list \<Rightarrow> string" where
  "response_text dumps note_text detail its = concat (map (item_text dumps note_text detail) its)"

section \<open>Facts\<close>

lemma replay_of_cached: "replay_of (cached_result d c) = replay_cached d c"
  by (simp add: replay_of_def cached_result_def replay_cached_def)

lemma replay_of_shape:
  obtains b ds fin where "replay_of res = b # ds @ [fin]" "is_start b" "list_all is_delta ds" "\<not> is_start fin" "\<not> is_delta fin"
proof -
  let ?ds = "if result_text res \<noteq> [] then [DeltaEvent (result_text res)] else []"
  have "replay_of res = hd (replay_of res) # ?ds @ [last (replay_of res)]" by (simp add: replay_of_def)
  then show thesis by (rule that) (simp_all add: replay_of_def)
qed

lemma replay_of_well_formed: "well_formed_stream (replay_of res)"
proof -
  obtain b ds fin where "replay_of res = b # ds @ [fin]" "is_start b" "list_all is_delta ds" "\<not> is_start fin" "\<not> is_delta fin"
    using replay_of_shape .
  then show ?thesis unfolding well_formed_stream_def by blast
qed

text \<open>What was sent of a stream before it broke off is itself a well-formed stream.\<close>

lemma well_formed_prefix:
  assumes "well_formed_stream (evs @ rest)" "evs \<noteq> []"
  shows "well_formed_stream evs"
proof -
  obtain b ds fin where e: "evs @ rest = b # ds @ fin" "is_start b" "list_all is_delta ds"
    "fin = [] \<or> (\<exists>ev. fin = [ev] \<and> \<not> is_start ev \<and> \<not> is_delta ev)"
    using assms(1) unfolding well_formed_stream_def by blast
  obtain es where es: "evs = b # es" "es @ rest = ds @ fin" using assms(2) e(1) by (cases evs) auto
  from es(2) consider us where "es = ds @ us" "us @ rest = fin" | us where "es @ us = ds" "rest = us @ fin"
    by (auto simp: append_eq_append_conv2)
  then show ?thesis
  proof cases
    case (1 us)
    then have "us = [] \<or> us = fin" using e(4) by (cases us) auto
    with 1 e es(1) show ?thesis unfolding well_formed_stream_def by blast
  next
    case (2 us)
    then have "list_all is_delta es" using e(3) by auto
    with e(2) es(1) show ?thesis unfolding well_formed_stream_def by (metis append_Nil2)
  qed
qed

text \<open>Where the body stands, against the events the service yielded (\<open>evs\<close>) and whether it will yield more.\<close>

definition sent_ok :: "stream_event list \<Rightarrow> bool \<Rightarrow> response \<Rightarrow> bool" where
  "sent_ok evs ended r \<longleftrightarrow>
     (case place r of
        Unstarted ev \<Rightarrow> sent r = [] \<and> evs = [ev]
      | AtItem \<Rightarrow> sent r = map Event evs
      | InStream \<Rightarrow> sent r = map Event evs
      | AtMark leaving \<Rightarrow> sent r = map Event evs @ [Mark] \<and> ended \<or> leaving \<and> sent r = map Event evs
      | Over \<Rightarrow> sent r = map Event evs @ [Mark] \<and> ended \<or> sent r = map Event evs \<or> sent r = [] \<and> length evs = 1)"

definition ended :: "stream \<Rightarrow> bool" where
  "ended st \<longleftrightarrow> (case suspended_at st of Settling u \<Rightarrow> True | Unbilled x \<Rightarrow> True | _ \<Rightarrow> False)"

definition at_yield :: "stream \<Rightarrow> bool" where
  "at_yield st \<longleftrightarrow> \<not> ended st \<and> suspended_at st \<noteq> AtProvider"

definition live_ok :: "env \<Rightarrow> settings \<Rightarrow> routing_decision \<Rightarrow> response \<Rightarrow> bool" where
  "live_ok e s d r \<longleftrightarrow>
     (\<exists>st. source r = Live d st \<and> stream_run e s d st \<and> sent_ok (emitted st) (ended st) r \<and>
        (place r = AtItem \<or> (\<exists>ev. place r = Unstarted ev) \<longrightarrow> at_yield st) \<and>
        (place r = InStream \<longrightarrow> suspended_at st = AtProvider))"

definition replay_ok :: "stream_event list \<Rightarrow> response \<Rightarrow> bool" where
  "replay_ok all r \<longleftrightarrow>
     (\<exists>evs rest. source r = Replay rest \<and> all = evs @ rest \<and> sent_ok evs (rest = []) r \<and> place r \<noteq> InStream)"

lemma emitted_next:
  assumes "stream_next e s d i st = Some st'"
  shows "reached st' = Waits \<and> emitted st' = emitted st \<and> suspended_at st' = AtProvider \<or>
    (\<exists>ev. reached st' = Yields ev \<and> emitted st' = emitted st @ [ev] \<and> at_yield st') \<or>
    (reached st' = Stops \<or> (\<exists>x. reached st' = Raises x)) \<and> emitted st' = emitted st \<and> ended st'"
  using assms
  by (cases i)
    (auto simp: stream_defs reached_def at_yield_def ended_def final_usage_def
      split: suspended.splits if_splits option.splits sum.splits)

lemma live_ok_got:
  assumes "live_ok e s d r" "source r = Live d st" "place r = AtItem \<or> place r = InStream"
    and "stream_next e s d i st = Some st'" "p = reached st' \<or> ended st' \<and> p = Raises x"
  shows "live_ok e s d (snd (got r (p, Live d st')))"
proof -
  have st: "stream_run e s d st'" "sent r = map Event (emitted st)"
    using assms(1-4) run_next by (auto simp: live_ok_def sent_ok_def)
  from emitted_next [OF assms(4)] show ?thesis
    using assms(5) st
    by (elim disjE exE conjE)
      (auto simp: live_ok_def sent_ok_def got_def send_def Let_def at_yield_def ended_def reached_def split: suspended.splits)
qed

lemma live_ok_pull:
  assumes "live_ok e s d r" "source r = Live d st" "place r = AtItem"
  shows "live_ok e s d (snd (got r (pull e s (source r))))"
proof -
  have y: "at_yield st" using assms by (auto simp: live_ok_def)
  then obtain st' where st': "stream_next e s d Pulled st = Some st'"
    by (cases "suspended_at st") (auto simp: at_yield_def ended_def)
  let ?p = "case (suspended_at st, suspended_at st') of (AtError x, Settling u) \<Rightarrow> Raises x | _ \<Rightarrow> reached st'"
  have "?p = reached st' \<or> (\<exists>x. ended st' \<and> ?p = Raises x)"
    by (auto simp: ended_def split: suspended.splits)
  then have "live_ok e s d (snd (got r (?p, Live d st')))"
    using live_ok_got [OF assms(1,2) _ st'] assms(3) by blast
  then show ?thesis by (simp add: assms(2) st' del: stream_next.simps)
qed

lemma live_ok_step:
  assumes "live_ok e s d r" "body_do e s i r = Some (out, r')"
  shows "live_ok e s d r'"
proof -
  obtain st where st: "source r = Live d st" "stream_run e s d st" "sent_ok (emitted st) (ended st) r"
    using assms(1) unfolding live_ok_def by blast
  show ?thesis
  proof (cases i)
    case Next
    show ?thesis
    proof (cases "place r = AtItem")
      case True
      then show ?thesis using assms(2) live_ok_pull [OF assms(1) st(1) True] Next by simp
    next
      case False
      then show ?thesis
        using assms st Next by (auto simp: live_ok_def sent_ok_def send_def split: place.splits)
    qed
  next
    case (Provider j)
    then have p: "place r = InStream" and "suspended_at st = AtProvider"
      using assms st by (auto simp: live_ok_def split: if_splits)
    with Provider assms(2) st(1) obtain st' where st': "stream_next e s d j st = Some st'"
      "r' = snd (got r (reached st', Live d st'))"
      by (auto simp del: stream_next.simps split: if_splits)
    show ?thesis unfolding st'(2) by (rule live_ok_got [OF assms(1) st(1) _ st'(1)]) (simp_all add: p)
  next
    case CancelTask
    then have p: "place r = InStream" and a: "suspended_at st = AtProvider"
      using assms st by (auto simp: live_ok_def split: if_splits)
    with CancelTask assms(2) st(1) obtain st' where st': "stream_next e s d Closed st = Some st'"
      "r' = snd (send Mark (AtMark (reached st' = Stops)) (r\<lparr>source := Live d st'\<rparr>))"
      by (auto simp del: stream_next.simps)
    have "ended st'" "emitted st' = emitted st"
      using st'(1) a by (auto simp: finalize_def ended_def split: sum.splits)
    with st st' p run_next [OF st(2) st'(1)] show ?thesis
      by (simp add: live_ok_def sent_ok_def send_def)
  next
    case Close
    then show ?thesis using assms st by (auto simp: live_ok_def sent_ok_def split: place.splits)
  next
    case Reap
    then obtain st' where p: "place r = Over" and st': "stream_next e s d Closed st = Some st'" "r' = r\<lparr>source := Live d st'\<rparr>"
      using assms(2) st(1) by (auto simp del: stream_next.simps split: place.splits)
    have "\<not> ended st" "emitted st' = emitted st"
      using st'(1) by (auto simp: finalize_def ended_def split: suspended.splits sum.splits)
    with st st' p run_next [OF st(2) st'(1)] show ?thesis by (auto simp: live_ok_def sent_ok_def)
  qed
qed

lemma replay_ok_step:
  assumes "replay_ok all r" "body_do e s i r = Some (out, r')"
  shows "replay_ok all r'"
proof -
  obtain evs rest where r: "source r = Replay rest" "all = evs @ rest" "sent_ok evs (rest = []) r" "place r \<noteq> InStream"
    using assms(1) unfolding replay_ok_def by blast
  show ?thesis
  proof (cases i)
    case Next
    show ?thesis
    proof (cases "place r = AtItem")
      case True
      show ?thesis
      proof (cases rest)
        case Nil
        then show ?thesis
          using assms(2) r True Next by (auto simp: replay_ok_def sent_ok_def got_def send_def)
      next
        case (Cons ev rest')
        then have "all = (evs @ [ev]) @ rest'" "r' = r\<lparr>source := Replay rest', place := AtItem, sent := sent r @ [Event ev]\<rparr>"
          using assms(2) r True Next by (auto simp: got_def send_def)
        with r True show ?thesis unfolding replay_ok_def
          by (intro exI [of _ "evs @ [ev]"] exI [of _ rest']) (simp add: sent_ok_def)
      qed
    next
      case False
      then show ?thesis
        using assms r Next by (auto simp: replay_ok_def sent_ok_def send_def split: place.splits)
    qed
  qed (use assms(2) r in \<open>auto simp: replay_ok_def sent_ok_def split: place.splits\<close>)
qed

text \<open>The two kinds of response, from their start.\<close>

definition response_ok :: "env \<Rightarrow> settings \<Rightarrow> response \<Rightarrow> bool" where
  "response_ok e s r \<longleftrightarrow> (\<exists>d. live_ok e s d r) \<or> (\<exists>res. replay_ok (replay_of res) r)"

lemma response_ok_started: "started s a admitted = Inr r \<Longrightarrow> response_ok e s r"
proof (cases a)
  case (FromCache res)
  assume "started s a admitted = Inr r"
  then have "replay_ok (replay_of res) r"
    unfolding replay_ok_def
    by (intro exI [of _ "[hd (replay_of res)]"] exI [of _ "tl (replay_of res)"])
      (auto simp: FromCache started_def sent_ok_def replay_of_def)
  then show ?thesis unfolding response_ok_def by blast
next
  case (Holding d rv)
  assume "started s a admitted = Inr r"
  then have "live_ok e s d r"
    using run_open by (auto simp: Holding started_def live_ok_def sent_ok_def at_yield_def ended_def open_stream_def yield_event_def
        split: if_splits)
  then show ?thesis unfolding response_ok_def by blast
qed (simp add: started_def)

lemma response_ok_step: "response_ok e s r \<Longrightarrow> body_do e s i r = Some (out, r') \<Longrightarrow> response_ok e s r'"
  unfolding response_ok_def using live_ok_step replay_ok_step by blast

lemma response_ok_exec: "response_ok e s r \<Longrightarrow> body_exec e s is r = Some r' \<Longrightarrow> response_ok e s r'"
proof (induction "is" arbitrary: r)
  case (Cons i "is")
  then obtain out r1 where "body_do e s i r = Some (out, r1)" "body_exec e s is r1 = Some r'"
    by (auto split: option.splits simp del: body_do.simps)
  with Cons response_ok_step show ?case by blast
qed simp

text \<open>The events a source has given away so far, all of them (\<open>whole\<close>) or not.\<close>

fun carries :: "source \<Rightarrow> stream_event list \<Rightarrow> bool \<Rightarrow> bool" where
  "carries (Live d st) evs whole \<longleftrightarrow> evs = emitted st \<and> (whole \<longrightarrow> ended st)"
| "carries (Replay rest) evs whole \<longleftrightarrow> (\<exists>res. replay_of res = evs @ rest) \<and> (whole \<longrightarrow> rest = [])"

text \<open>Everything that was sent is what the service yielded, with the mark only behind all of it.\<close>

lemma response_sent:
  assumes "response_ok e s r"
  obtains evs ms where "sent r = map Event evs @ ms" "ms = [] \<or> ms = [Mark]"
    "sent r = [] \<or> well_formed_stream evs \<and> carries (source r) evs (ms = [Mark])" "place r = AtMark False \<Longrightarrow> ms = [Mark]"
proof -
  have "\<exists>evs whole. sent_ok evs whole r \<and> well_formed_stream evs \<and> carries (source r) evs whole \<or> sent r = [] \<and> place r \<noteq> AtMark False"
    using assms unfolding response_ok_def
  proof (elim disjE exE)
    fix d assume "live_ok e s d r"
    then obtain st where "source r = Live d st" "stream_run e s d st" "sent_ok (emitted st) (ended st) r"
      unfolding live_ok_def by blast
    with stream_well_formed show ?thesis by (intro exI [of _ "emitted st"] exI [of _ "ended st"]) auto
  next
    fix res assume "replay_ok (replay_of res) r"
    then obtain evs rest where r: "source r = Replay rest" "replay_of res = evs @ rest" "sent_ok evs (rest = []) r"
      unfolding replay_ok_def by blast
    have w: "well_formed_stream (evs @ rest)" using replay_of_well_formed [of res] r(2) by simp
    show ?thesis
    proof (cases "evs = []")
      case True
      with w have "rest \<noteq> []" by (auto simp: well_formed_stream_def)
      with True r(3) show ?thesis by (auto simp: sent_ok_def split: place.splits)
    next
      case False
      with w r show ?thesis
        by (intro exI [of _ evs] exI [of _ "rest = []"]) (auto intro: well_formed_prefix)
    qed
  qed
  then obtain evs whole where "sent_ok evs whole r \<and> well_formed_stream evs \<and> carries (source r) evs whole \<or>
      sent r = [] \<and> place r \<noteq> AtMark False" by blast
  then show thesis
  proof
    assume k: "sent_ok evs whole r \<and> well_formed_stream evs \<and> carries (source r) evs whole"
    then have "carries (source r) evs False" by (cases "source r") auto
    with k that [of evs "[]"] that [of evs "[Mark]"] that [of "[]" "[]"] show thesis
      by (auto simp: sent_ok_def split: place.splits)
  qed (use that [of "[]" "[]"] in simp)
qed

text \<open>The body ends for its consumer only after the mark.\<close>

lemma finishes_after_mark:
  assumes "body_do e s i r = Some (Finishes, r')" "i \<noteq> Close" "i \<noteq> Reap"
  shows "place r = AtMark False"
proof -
  have "fst (got r p) \<noteq> Finishes" for p by (cases "fst p") (simp_all add: got_def send_def)
  then have "got r p \<noteq> (Finishes, r')" for p by (metis fst_conv)
  with assms show ?thesis by (cases i) (auto simp: send_def split: place.splits if_splits)
qed

section \<open>What the client reads\<close>

lemma frames_of_done_rest: "frames_of loads ((''data: [DONE]'' @ [nl, nl]) @ rest) = DoneFrame # frames_of loads rest"
proof -
  have n: "nl \<notin> set ''data: [DONE]''" by (simp add: nl_def)
  have a: "(''data: [DONE]'' @ [nl, nl]) @ rest = ''data: [DONE]'' @ nl # [] @ nl # rest" by (simp only: append.simps append_assoc)
  show ?thesis
    unfolding a frames_of_line [OF n] parse_done_line
    using frames_of_line [of "[]" loads rest] by (simp add: parse_empty_line)
qed

fun frame_of :: "(stream_event \<Rightarrow> json) \<Rightarrow> item \<Rightarrow> frame" where
  "frame_of payload (Event ev) = DataFrame (payload ev)"
| "frame_of payload Mark = DoneFrame"

lemma frames_of_response:
  assumes "\<And>ev. Event ev \<in> set its \<Longrightarrow> one_line_object (dumps (sse_payload note_text detail ev))"
    and "\<And>ev. Event ev \<in> set its \<Longrightarrow> loads (dumps (sse_payload note_text detail ev)) = Some (sse_payload note_text detail ev)"
  shows "frames_of loads (response_text dumps note_text detail its) = map (frame_of (sse_payload note_text detail)) its"
  using assms
proof (induction its)
  case Nil
  show ?case by (simp add: response_text_def frames_of_def parse_empty_line)
next
  case (Cons it its)
  then have IH: "frames_of loads (response_text dumps note_text detail its) = map (frame_of (sse_payload note_text detail)) its"
    by simp
  show ?case
  proof (cases it)
    case (Event ev)
    let ?p = "sse_payload note_text detail ev"
    from Cons.prems Event have "one_line_object (dumps ?p)" "loads (dumps ?p) = Some ?p" by simp_all
    then have "frames_of loads (sse dumps ?p @ rest) = DataFrame ?p # frames_of loads rest" for rest
      by (rule frames_of_sse) (simp add: sse_payload_def)
    with IH Event show ?thesis by (simp add: response_text_def item_text_def)
  next
    case Mark
    with IH show ?thesis using frames_of_done_rest [of loads] by (simp add: response_text_def item_text_def)
  qed
qed

section \<open>Properties\<close>

text \<open>C10. What a client of \<open>/v1/infer/stream\<close> reads is the protocol, whatever it, the network and the provider do: the
  body, cut into lines and parsed as the reader of the vLLM adapter does, is the payloads of the events the service
  yielded, in their order and without a gap, a start event, deltas and at most one end or error event, then nothing
  or the end mark. The mark is only there when the service has nothing more to yield, and a body that ends for the
  one who reads it has it, also after an error, also for a cached answer.\<close>

theorem streamed_response_reads_back:
  assumes "post_infer_stream e s sv b admitted = (Answer r0, sv')" "body_exec e s ins r0 = Some r"
    and "\<And>ev. Event ev \<in> set (sent r) \<Longrightarrow> one_line_object (dumps (sse_payload note_text detail ev))"
    and "\<And>ev. Event ev \<in> set (sent r) \<Longrightarrow>
      loads (dumps (sse_payload note_text detail ev)) = Some (sse_payload note_text detail ev)"
  shows "\<exists>evs ms. frames_of loads (response_text dumps note_text detail (sent r)) =
      map (\<lambda>ev. DataFrame (sse_payload note_text detail ev)) evs @ ms \<and>
    (ms = [] \<or> ms = [DoneFrame]) \<and> (sent r = [] \<or> well_formed_stream evs \<and> carries (source r) evs (ms = [DoneFrame])) \<and>
    (\<forall>i r'. body_do e s i r = Some (Finishes, r') \<and> i \<noteq> Close \<and> i \<noteq> Reap \<longrightarrow> ms = [DoneFrame])"
proof -
  obtain a where "started s a admitted = Inr r0"
    using assms(1) by (auto simp: post_infer_stream_def answer_of_def split: option.splits prod.splits sum.splits)
  then have "response_ok e s r" using response_ok_exec [OF response_ok_started assms(2)] by blast
  then obtain evs ms where r: "sent r = map Event evs @ ms" "ms = [] \<or> ms = [Mark]"
    "sent r = [] \<or> well_formed_stream evs \<and> carries (source r) evs (ms = [Mark])" "place r = AtMark False \<Longrightarrow> ms = [Mark]"
    using response_sent by metis
  let ?ms = "map (frame_of (sse_payload note_text detail)) ms"
  have "frames_of loads (response_text dumps note_text detail (sent r)) =
      map (\<lambda>ev. DataFrame (sse_payload note_text detail ev)) evs @ ?ms"
    using frames_of_response [where its = "sent r", OF assms(3,4)] r(1) by simp
  moreover have "(?ms = [DoneFrame]) = (ms = [Mark])" "?ms = [] \<or> ?ms = [DoneFrame]" using r(2) by auto
  moreover have "\<forall>i r'. body_do e s i r = Some (Finishes, r') \<and> i \<noteq> Close \<and> i \<noteq> Reap \<longrightarrow> ms = [Mark]"
    using finishes_after_mark r(4) by blast
  ultimately show ?thesis using r(3) by (intro exI [of _ evs] exI [of _ ?ms]) simp
qed

text \<open>A stream whose provider fails after the start, read to the end.\<close>

abbreviation demo_body :: body where
  "demo_body \<equiv> \<lparr>prompt_field = ''hi'', user_field = None, task_field = Some ''simple'', max_output_field = Some 100,
     budget_field = Some 1, daily_budget_field = None, model_field = None\<rparr>"

lemma demo_response:
  obtains d rv sv' where
    "post_infer_stream demo_env demo_settings (new_service demo_settings) demo_body True =
       (Answer \<lparr>place = Unstarted (hd (emitted (open_stream d))), source = Live d (open_stream d), sent = []\<rparr>, sv')"
    "started demo_settings (Holding d rv) True =
       Inr \<lparr>place = Unstarted (hd (emitted (open_stream d))), source = Live d (open_stream d), sent = []\<rparr>"
proof -
  let ?r = "\<lparr>prompt = ''hi'', user_id = ''anonymous'', task_type = Some ''simple'', max_output_tokens = Some 100,
       budget_usd = Some 1, user_daily_budget_usd = None, force_model = None\<rparr>"
  have b: "request_of_body demo_body = Some ?r" by (simp add: request_of_body_def at_least_def)
  have "(case arrive demo_env demo_settings (new_service demo_settings) ?r of (Holding d rv, sv') \<Rightarrow> True | _ \<Rightarrow> False)"
    by code_simp
  then obtain d rv sv' where a: "arrive demo_env demo_settings (new_service demo_settings) ?r = (Holding d rv, sv')"
    by (auto split: prod.splits arrival.splits)
  show thesis
    by (rule that [of d sv' rv]) (simp_all add: post_infer_stream_def b a started_def answer_of_def)
qed

theorem streamed_response_reads_back_witness:
  "\<exists>r0 sv' r dumps loads fs. post_infer_stream demo_env demo_settings (new_service demo_settings) demo_body True = (Answer r0, sv') \<and>
     body_exec demo_env demo_settings [Next, Next, Provider (Raised ProviderError), Next] r0 = Some r \<and>
     frames_of loads (response_text dumps (\<lambda>_. []) (\<lambda>_. []) (sent r)) = fs @ [DoneFrame]"
proof -
  obtain d sv' where p: "post_infer_stream demo_env demo_settings (new_service demo_settings) demo_body True =
       (Answer \<lparr>place = Unstarted (hd (emitted (open_stream d))), source = Live d (open_stream d), sent = []\<rparr>, sv')"
    using demo_response by metis
  let ?r0 = "\<lparr>place = Unstarted (hd (emitted (open_stream d))), source = Live d (open_stream d), sent = []\<rparr>"
  let ?start = "hd (emitted (open_stream d))" and ?pay = "sse_payload (\<lambda>_. []) (\<lambda>_. [])"
  let ?dumps = "\<lambda>j. if j = ?pay (ErrorEvent ProviderError) then ''{e}'' else ''{s}''"
  let ?loads = "\<lambda>t. Some (?pay (if t = ''{e}'' then ErrorEvent ProviderError else ?start))"
  have len: "chars_per_token demo_settings \<noteq> 0" by (simp add: demo_settings_def default_settings_def)
  define st1 where "st1 = stream_raised ProviderError ((open_stream d)\<lparr>suspended_at := AtProvider\<rparr>)"
  obtain u where "Streaming.final_usage demo_env demo_settings d st1 = Inr u" using final_usage_total [OF len] by blast
  then have u: "finalize demo_env demo_settings d st1 = st1\<lparr>suspended_at := Settling u\<rparr>" by (simp add: finalize_def)
  have st: "suspended_at (open_stream d) = AtStart" "suspended_at st1 = AtError ProviderError"
    "emitted st1 = [?start, ErrorEvent ProviderError]"
    by (simp_all add: st1_def open_stream_def stream_raised_def yield_event_def)
  obtain r where r: "body_exec demo_env demo_settings [Next, Next, Provider (Raised ProviderError), Next] ?r0 = Some r"
    "sent r = [Event ?start, Event (ErrorEvent ProviderError), Mark]" "place r = AtMark False"
    using st u by (simp add: send_def got_def reached_def st1_def [symmetric])
  have ne: "?pay ?start \<noteq> ?pay (ErrorEvent ProviderError)"
    by (simp add: sse_payload_def open_stream_def yield_event_def)
  have ev: "ev = ?start \<or> ev = ErrorEvent ProviderError" if "Event ev \<in> set (sent r)" for ev using that r(2) by auto
  have one: "one_line_object (?dumps (?pay ev))" for ev by (simp add: one_line_object_def nl_def)
  have again: "?loads (?dumps (?pay ev)) = Some (?pay ev)" if "Event ev \<in> set (sent r)" for ev
    using ev [OF that] ne by auto
  have "body_do demo_env demo_settings Next r = Some (Finishes, r\<lparr>place := Over\<rparr>)" using r(3) by simp
  with streamed_response_reads_back [OF p r(1), of ?dumps "\<lambda>_. []" "\<lambda>_. []" ?loads, OF one again]
  obtain fs where "frames_of ?loads (response_text ?dumps (\<lambda>_. []) (\<lambda>_. []) (sent r)) = fs @ [DoneFrame]" by blast
  with p r(1) show ?thesis by blast
qed

text \<open>The text of what was sent.\<close>

fun item_delta :: "item \<Rightarrow> string" where
  "item_delta (Event ev) = delta_text ev"
| "item_delta Mark = []"

lemma deltas_sent:
  assumes "live_ok e s d r" "source r = Live d st"
  shows "concat (map item_delta (sent r)) = concat (pieces st)"
proof -
  have run: "stream_run e s d st" and ok: "sent_ok (emitted st) (ended st) r" using assms by (auto simp: live_ok_def)
  have m: "concat (map item_delta (map Event evs)) = concat (map delta_text evs)" for evs by (simp add: comp_def)
  have "sent r = map Event (emitted st) \<or> sent r = map Event (emitted st) @ [Mark] \<or> sent r = [] \<and> length (emitted st) = 1"
    using ok by (auto simp: sent_ok_def split: place.splits)
  then show ?thesis
  proof (elim disjE conjE)
    assume "sent r = []" "length (emitted st) = 1"
    moreover obtain fin where "emitted st = emitted (open_stream d) @ map DeltaEvent (pieces st) @ fin"
      using stream_okE [OF run] by blast
    ultimately show ?thesis by (simp add: open_stream_def yield_event_def)
  qed (use stream_deltas [OF run] m [of "emitted st"] in simp_all)
qed

text \<open>Closing a stream hands over its final usage and changes nothing else of it.\<close>

lemma stream_closes_with:
  assumes "stream_run e s d st" "chars_per_token s \<noteq> 0"
  obtains u where "Streaming.final_usage e s d st = Inr u"
    "suspended_at st = Settling u \<or> stream_next e s d Closed st = Some (st\<lparr>suspended_at := Settling u\<rparr>)"
proof -
  obtain u where u: "Streaming.final_usage e s d st = Inr u" using final_usage_total [OF assms(2)] by blast
  from stream_closes [OF assms] have "suspended_at st = Settling u \<or> stream_next e s d Closed st = Some (st\<lparr>suspended_at := Settling u\<rparr>)"
    using settlingE [OF assms(1)] u by (auto simp: finalize_def split: suspended.splits)
  with u that show thesis by blast
qed

text \<open>C13. A client that goes away is billed for what it got. Wherever the response stands, dropping it (a cancellation if
  it waits for the provider, else the closing of the two generators) leads in at most three steps to the bill of its
  stream: the usage the provider reported last, when it has reported one, and otherwise the input tokens of the routing
  decision and the count of the text that was sent. But a body that is closed between two events answers with Python's
  \<open>RuntimeError\<close>: its \<open>finally\<close> yields.\<close>

theorem abandoned_response_is_billed:
  assumes "started s a admitted = Inr r0" "body_exec e s ins r0 = Some r" "source r = Live d st" "chars_per_token s \<noteq> 0"
  shows "(\<exists>ins' r' st' u. length ins' \<le> 3 \<and> set ins' \<subseteq> {CancelTask, Close, Reap} \<and>
      body_exec e s ins' r = Some r' \<and> place r' = Over \<and> source r' = Live d st' \<and> suspended_at st' = Settling u \<and>
      (case last_usage st of Some v \<Rightarrow> u = v
       | None \<Rightarrow> usage_in u = Router.input_tokens d \<and>
           count_tokens (tokenizer e) (concat (map item_delta (sent r))) (chars_per_token s) = Inr (usage_out u))) \<and>
    (place r = AtItem \<longrightarrow> body_do e s Close r = Some (IgnoredExit, r\<lparr>place := AtMark True\<rparr>))"
proof -
  have "response_ok e s r" using response_ok_exec [OF response_ok_started [OF assms(1)] assms(2)] .
  then obtain d' where "live_ok e s d' r" using assms(3) by (auto simp: response_ok_def replay_ok_def)
  then have ok: "live_ok e s d r" using assms(3) by (auto simp: live_ok_def)
  then have st: "stream_run e s d st" "place r = InStream \<Longrightarrow> suspended_at st = AtProvider"
    using assms(3) by (auto simp: live_ok_def)
  obtain u where fu: "Streaming.final_usage e s d st = Inr u" and
    u: "suspended_at st = Settling u \<or> stream_next e s d Closed st = Some (st\<lparr>suspended_at := Settling u\<rparr>)"
    by (rule stream_closes_with [OF st(1) assms(4)])
  have bill: "case last_usage st of Some v \<Rightarrow> u = v
       | None \<Rightarrow> usage_in u = Router.input_tokens d \<and>
           count_tokens (tokenizer e) (concat (map item_delta (sent r))) (chars_per_token s) = Inr (usage_out u)"
    using fu unfolding deltas_sent [OF ok assms(3)]
    by (auto simp: Streaming.final_usage_def bind_result_Inr_iff split: option.splits)
  have "\<exists>is r' st'. length is \<le> 1 \<and> set is \<subseteq> {Reap} \<and> body_exec e s is (r\<lparr>place := Over\<rparr>) = Some r' \<and>
      place r' = Over \<and> source r' = Live d st' \<and> suspended_at st' = Settling u"
    using u
  proof
    assume "stream_next e s d Closed st = Some (st\<lparr>suspended_at := Settling u\<rparr>)"
    with assms(3) show ?thesis by (intro exI [of _ "[Reap]"]) (simp del: stream_next.simps)
  qed (use assms(3) in \<open>intro exI [of _ "[]"], simp\<close>)
  then obtain "is" r' st' where r': "length is \<le> 1" "set is \<subseteq> {Reap}" "body_exec e s is (r\<lparr>place := Over\<rparr>) = Some r'"
      "place r' = Over" "source r' = Live d st'" "suspended_at st' = Settling u"
    by blast
  have "\<exists>ins' r' st'. length ins' \<le> 3 \<and> set ins' \<subseteq> {CancelTask, Close, Reap} \<and> body_exec e s ins' r = Some r' \<and>
      place r' = Over \<and> source r' = Live d st' \<and> suspended_at st' = Settling u"
  proof (cases "place r")
    case InStream
    with st(2) u have "stream_next e s d Closed st = Some (st\<lparr>suspended_at := Settling u\<rparr>)" by auto
    with InStream st(2) assms(3) show ?thesis
      by (intro exI [of _ "[CancelTask, Close]"]) (simp add: send_def del: stream_next.simps)
  next
    case AtItem
    with r' show ?thesis by (intro exI [of _ "[Close, Close] @ is"] exI [of _ r'] exI [of _ st']) auto
  next
    case Over
    then have "r\<lparr>place := Over\<rparr> = r" by simp
    with r' show ?thesis by (intro exI [of _ "is"] exI [of _ r'] exI [of _ st']) auto
  next
    case (AtMark leaving)
    with r' show ?thesis by (intro exI [of _ "[Close] @ is"] exI [of _ r'] exI [of _ st']) auto
  next
    case (Unstarted ev)
    with r' show ?thesis by (intro exI [of _ "[Close] @ is"] exI [of _ r'] exI [of _ st']) auto
  qed
  with bill show ?thesis by fastforce
qed

theorem abandoned_response_is_billed_witness:
  "\<exists>r0 r ins' r' d st' u. body_exec demo_env demo_settings [Next] r0 = Some r \<and> place r = AtItem \<and>
     body_do demo_env demo_settings Close r = Some (IgnoredExit, r\<lparr>place := AtMark True\<rparr>) \<and>
     body_exec demo_env demo_settings ins' r = Some r' \<and> source r' = Live d st' \<and> suspended_at st' = Settling u"
proof -
  obtain d rv where st: "started demo_settings (Holding d rv) True =
       Inr \<lparr>place = Unstarted (hd (emitted (open_stream d))), source = Live d (open_stream d), sent = []\<rparr>" (is "_ = Inr ?r0")
    using demo_response by metis
  obtain r where r: "body_exec demo_env demo_settings [Next] ?r0 = Some r" "place r = AtItem" "source r = Live d (open_stream d)"
    by (simp add: send_def)
  have "chars_per_token demo_settings \<noteq> 0" by (simp add: demo_settings_def default_settings_def)
  from abandoned_response_is_billed [OF st r(1,3) this] r(1,2) show ?thesis by blast
qed

end
