(* ===== verification/Messages.thy ===== *)
theory Messages
  imports Surface
begin

text \<open>
  What the program writes for people: the texts of its exceptions, of the routing notes and of the reasons of the
  complexity estimate, with Python's formats \<open>{x:.4f}\<close> and \<open>{s!r}\<close>. \<open>Errors.thy\<close>, \<open>Router.thy\<close> and \<open>Complexity.thy\<close> keep
  these as data; here is how the data is written. An exception whose text quotes something its class does not
  carry (the reply of a server, say) has no text here.
\<close>

section \<open>Formats\<close>

text \<open>\<open>f"{x:.df}"\<close> for \<open>d > 0\<close>: the exact value rounded to \<open>d\<close> decimals, half to even.\<close>

definition pad :: "nat \<Rightarrow> string \<Rightarrow> string" where
  "pad d ds = replicate (d - length ds) CHR ''0'' @ ds"

definition fixed :: "nat \<Rightarrow> f64 \<Rightarrow> string" where
  "fixed d x = (let n = nat \<bar>rne (x * 10 ^ d)\<bar> in
     (if x < 0 then ''-'' else []) @ show_nat (n div 10 ^ d) @ ''.'' @ pad d (show_nat (n mod 10 ^ d)))"

definition fixed_delay :: "nat \<Rightarrow> delay \<Rightarrow> string" where
  "fixed_delay n d = (case d of Finite s \<Rightarrow> fixed n s | Infinite \<Rightarrow> ''inf'')"

text \<open>\<open>repr\<close> of a string, and of a list of strings.\<close>

definition printable :: "char \<Rightarrow> bool" where
  "printable c = (let n = code_point c in (32 \<le> n \<and> n < 127) \<or> (161 \<le> n \<and> n \<noteq> 173))"

definition repr_char :: "char \<Rightarrow> char \<Rightarrow> string" where
  "repr_char q c = (let n = code_point c in
     if c = q \<or> n = 92 then [CHR 0x5C, c]
     else if n = 9 then [CHR 0x5C, CHR ''t'']
     else if n = 10 then [CHR 0x5C, CHR ''n'']
     else if n = 13 then [CHR 0x5C, CHR ''r'']
     else if printable c then [c]
     else [CHR 0x5C, CHR ''x'', hex_digit (n div 16), hex_digit (n mod 16)])"

definition py_repr :: "string \<Rightarrow> string" where
  "py_repr s =
     (let q = (if CHR 0x27 \<in> set s \<and> CHR 0x22 \<notin> set s then CHR 0x22 else CHR 0x27)
      in q # concat (map (repr_char q) s) @ [q])"

fun join :: "string \<Rightarrow> string list \<Rightarrow> string" where
  "join sep [] = []"
| "join sep [s] = s"
| "join sep (s # ss) = s @ sep @ join sep ss"

definition repr_list :: "string list \<Rightarrow> string" where
  "repr_list ss = ''['' @ join '', '' (map py_repr ss) @ '']''"

section \<open>Texts\<close>

text \<open>One definition for each \<open>__init__\<close> that formats a message, then \<open>str(e)\<close>.\<close>

definition budget_text :: "f64 \<Rightarrow> f64 \<Rightarrow> string" where
  "budget_text projected budget =
     ''cheapest capable model projects $'' @ fixed 4 projected @ '' but budget is $'' @ fixed 4 budget"

definition user_budget_text :: "string \<Rightarrow> f64 \<Rightarrow> f64 \<Rightarrow> f64 \<Rightarrow> string" where
  "user_budget_text u spent_so_far limit requested =
     ''user '' @ py_repr u @ '' would spend $'' @ fixed 4 (fadd spent_so_far requested) @ '' exceeding daily limit $'' @ fixed 4 limit"

definition rate_limit_text :: "string \<Rightarrow> delay \<Rightarrow> string" where
  "rate_limit_text u d = ''rate limit exceeded for '' @ py_repr u @ ''; retry in '' @ fixed_delay 2 d @ ''s''"

definition circuit_text :: "string \<Rightarrow> f64 \<Rightarrow> string" where
  "circuit_text n d = ''circuit for '' @ py_repr n @ '' is open; retry in '' @ fixed 1 d @ ''s''"

definition admission_text :: "f64 \<Rightarrow> string" where
  "admission_text waited = ''timed out after '' @ fixed 1 waited @ ''s waiting for capacity''"

fun exc_text :: "exc \<Rightarrow> string option" where
  "exc_text (BudgetExceededError c b) = Some (budget_text c b)"
| "exc_text (UserBudgetExceededError u spent_so_far limit requested) = Some (user_budget_text u spent_so_far limit requested)"
| "exc_text (RateLimitExceededError u d) = Some (rate_limit_text u d)"
| "exc_text (CircuitOpenError n d) = Some (circuit_text n d)"
| "exc_text (AdmissionTimeoutError w) = Some (admission_text w)"
| "exc_text (ValueError (UnknownModel m)) = Some (''unknown model '' @ [CHR 0x27] @ m @ [CHR 0x27])"
| "exc_text (ValueError (NoModelForTier t)) = Some (''no model can serve tier '' @ tier_name t)"
| "exc_text x = None"

fun note_text :: "routing_note \<Rightarrow> string" where
  "note_text (ForcedModel m) = ''forced model='' @ m"
| "note_text (TierPrimary t m c) = ''tier='' @ tier_name t @ '' -> primary='' @ m @ '' ($'' @ fixed 4 c @ '')''"
| "note_text (PrimaryOverBudget c b) = ''primary $'' @ fixed 4 c @ '' > budget $'' @ fixed 4 b @ ''; attempting downgrade''"
| "note_text (DowngradedTo m c) = ''downgraded to '' @ m @ '' ($'' @ fixed 4 c @ '') to fit budget''"
| "note_text ServedFromCache = ''served from cache (cost $0)''"

fun reason_text :: "reason \<Rightarrow> string" where
  "reason_text (ExplicitTaskType key) = ''explicit task_type='' @ key"
| "reason_text (PromptTokens n x) = ''prompt_tokens='' @ show_int n @ '' (length_signal='' @ fixed 2 x @ '')''"
| "reason_text (MaxOutputTokens n x) = ''max_output_tokens='' @ show_int n @ '' (output_signal='' @ fixed 2 x @ '')''"
| "reason_text (ReasoningKeywords ks) = ''reasoning_keywords='' @ repr_list ks"
| "reason_text (SimpleKeywords ks) = ''simple_keywords='' @ repr_list ks"
| "reason_text ContainsCodeBlock = ''contains_code_block''"
| "reason_text (ScoreTier x t) = ''score='' @ fixed 2 x @ '' -> tier='' @ tier_name t"

text \<open>The body of the answer of \<open>POST /v1/route/explain\<close>.\<close>

definition explain_response :: "explanation \<Rightarrow> json" where
  "explain_response ex = JObj
     [(''model'', JStr (ex_model ex)), (''complexity'', JStr (tier_name (ex_complexity ex))),
      (''complexity_score'', JFloat (ex_score ex)), (''complexity_reasons'', JList (map (JStr \<circ> reason_text) (ex_reasons ex))),
      (''input_tokens'', JInt (ex_input_tokens ex)), (''projected_output_tokens'', JInt (ex_output_tokens ex)),
      (''projected_cost_usd'', JFloat (ex_cost_usd ex)), (''downgraded'', JBool (ex_downgraded ex)),
      (''routing_notes'', JList (map (JStr \<circ> note_text) (ex_notes ex)))]"

definition post_explain :: "tokenizer \<Rightarrow> settings \<Rightarrow> body \<Rightarrow> json answer" where
  "post_explain tk s b =
     (case request_of_body b of
        None \<Rightarrow> Refusal \<lparr>status_code = 422, headers = []\<rparr>
      | Some r \<Rightarrow>
          (case route_explain tk s r of
             Answer ex \<Rightarrow> Answer (explain_response ex) | Refusal h \<Rightarrow> Refusal h | Crash x \<Rightarrow> Crash x))"

section \<open>Reading an amount back\<close>

definition read_amount :: "nat \<Rightarrow> string \<Rightarrow> rat" where
  "read_amount d s =
     (let (sign, digits) = (if starts_with ''-'' s then (- 1, drop 1 s) else (1, s))
      in case py_partition CHR ''.'' digits of (whole, _, decimals) \<Rightarrow>
        sign * of_nat (read_nat whole * 10 ^ d + read_nat decimals) / 10 ^ d)"

lemma show_nat_no: "CHR ''.'' \<notin> set (show_nat n)" "\<not> starts_with ''-'' (show_nat n @ t)"
proof -
  show "CHR ''.'' \<notin> set (show_nat n)" using show_nat_digits [of n] by auto
  have "show_nat n \<noteq> []" by (cases "n < 10") (simp_all add: show_nat.simps [of n])
  from subsetD [OF show_nat_digits hd_in_set [OF this]] have "hd (show_nat n) \<in> set ''0123456789''" .
  then show "\<not> starts_with ''-'' (show_nat n @ t)" using \<open>show_nat n \<noteq> []\<close>
    by (cases "show_nat n") (auto simp: starts_with_def)
qed

lemma read_fixed_amount: "read_amount d (fixed d x) = of_int (rne (x * 10 ^ d)) / 10 ^ d"
proof -
  define n where "n = nat \<bar>rne (x * 10 ^ d)\<bar>"
  define t where "t = show_nat (n div 10 ^ d) @ CHR ''.'' # pad d (show_nat (n mod 10 ^ d))"
  have p: "py_partition CHR ''.'' t = (show_nat (n div 10 ^ d), ''.'', pad d (show_nat (n mod 10 ^ d)))"
    unfolding t_def by (rule py_partition_append) (rule show_nat_no)
  have "read_nat (pad d (show_nat k)) = k" for k by (simp only: pad_def read_nat_zeros read_show_nat)
  then have v: "read_nat (show_nat (n div 10 ^ d)) * 10 ^ d + read_nat (pad d (show_nat (n mod 10 ^ d))) = n"
    by (simp only: read_show_nat div_mult_mod_eq)
  have f: "fixed d x = (if x < 0 then CHR ''-'' # t else t)" by (simp add: fixed_def n_def t_def Let_def)
  show ?thesis
  proof (cases "x < 0")
    case True
    then have "rne (x * 10 ^ d) \<le> 0" by (intro rne_le_of_int) (simp add: mult_le_0_iff)
    then have "of_int (rne (x * 10 ^ d)) = - (of_nat n :: rat)" by (simp add: n_def)
    with True f p v show ?thesis
      by (simp add: read_amount_def starts_with_def del: read_nat.simps of_nat_add of_nat_mult)
  next
    case False
    then have "0 \<le> rne (x * 10 ^ d)" by (intro rne_ge_of_int) simp
    then have "of_int (rne (x * 10 ^ d)) = (of_nat n :: rat)" by (simp add: n_def)
    moreover have "\<not> starts_with ''-'' t" unfolding t_def by (rule show_nat_no)
    ultimately show ?thesis
      using False f p v by (simp add: read_amount_def del: read_nat.simps of_nat_add of_nat_mult)
  qed
qed

lemma read_fixed_mono: "x \<le> y \<Longrightarrow> read_amount d (fixed d x) \<le> read_amount d (fixed d y)"
  unfolding read_fixed_amount by (intro divide_right_mono) (simp_all add: rne_mono mult_right_mono)

lemma read_fixed_close: "\<bar>read_amount d (fixed d x) - x\<bar> \<le> 1 / (2 * 10 ^ d)"
proof -
  have "\<bar>of_int (rne (x * 10 ^ d)) - x * 10 ^ d\<bar> \<le> 1 / 2" by (rule rne_error)
  then show ?thesis unfolding read_fixed_amount by (simp add: abs_le_iff field_simps)
qed

section \<open>Properties\<close>

lemma route_over_budget:
  assumes "route tk p s ty mx bu fm ex = Inl (BudgetExceededError c b)"
  shows "b < c \<and> b = request_budget s bu"
proof -
  have "\<not> (\<exists>a. count_tokens tk p (chars_per_token s) = Inl (BudgetExceededError c b))"
    "\<not> (\<exists>a. estimate_complexity tk p ty mx (chars_per_token s) = Inl (BudgetExceededError c b))"
    using count_tokens_error [of tk p "chars_per_token s"]
    by (auto simp: estimate_complexity_def bind_result_Inl_iff Let_def split: option.splits)
  with assms show ?thesis
    by (auto simp: route_def route_forced_def route_by_tier_def bind_result_Inl_iff Let_def
        split: if_splits option.splits list.splits)
qed

lemma refused_where:
  assumes "arrive e s sv r = (Refused x, sv')"
  obtains (rate) u d where "x = RateLimitExceededError u d"
    | (routed) "route (tokenizer e) (prompt r) s (task_type r) (max_output_tokens r) (budget_usd r) (force_model r) {} = Inl x"
    | (limit) now n and L :: ledger and d :: routing_decision and L' where "reserve now n L (user_id r) (projected_cost d) (user_limit s r) = (Inl x, L')"
proof -
  obtain o1 s1 where 1: "check_rate_limit e sv (user_id r) = (o1, s1)" by fastforce
  obtain o2 s2 where 2: "route_request e s s1 r = (o2, s2)" by fastforce
  consider (a) "o1 = Inl x" | (b) "o2 = Inl x" | (c) d s3 where "reserve_budget e s s3 d r = (Inl x, sv')"
    using assms unfolding arrive_def by (auto simp: 1 2 split: sum.splits prod.splits option.splits)
  then show thesis
  proof cases
    case a
    with 1 rate show thesis
      by (auto simp: check_rate_limit_def RateLimit.check_def Let_def split: option.splits prod.splits if_splits)
  next
    case b
    with 2 routed show thesis by (auto simp: route_request_def split: sum.splits if_splits)
  next
    case (c d s3)
    from quiet_reserve [OF c] show thesis by (elim conjE exE) (rule limit)
  qed
qed

text \<open>C40. A refusal for money says why: its text shows two amounts, each within half a unit of the fourth decimal of the
  exact one, and the amount that was needed is never shown below the amount that was allowed, although both are
  rounded. For a request's own budget they are the projected cost of the cheapest capable model and the budget of
  the request; for the daily limit, what the user would have spent and the limit that was checked.\<close>

theorem refusal_texts_show_why:
  assumes "arrive e s sv r = (Refused x, sv')" "fl64 (user_limit s r) = user_limit s r"
  shows "case x of
      BudgetExceededError c b \<Rightarrow> b = request_budget s (budget_usd r) \<and>
        exc_text x = Some (''cheapest capable model projects $'' @ fixed 4 c @ '' but budget is $'' @ fixed 4 b) \<and>
        \<bar>read_amount 4 (fixed 4 c) - c\<bar> \<le> 1 / 20000 \<and> \<bar>read_amount 4 (fixed 4 b) - b\<bar> \<le> 1 / 20000 \<and>
        read_amount 4 (fixed 4 b) \<le> read_amount 4 (fixed 4 c)
    | UserBudgetExceededError u spent_so_far limit requested \<Rightarrow> u = user_id r \<and> limit = user_limit s r \<and>
        exc_text x = Some (''user '' @ py_repr u @ '' would spend $'' @ fixed 4 (fadd spent_so_far requested) @
          '' exceeding daily limit $'' @ fixed 4 limit) \<and>
        \<bar>read_amount 4 (fixed 4 (fadd spent_so_far requested)) - fadd spent_so_far requested\<bar> \<le> 1 / 20000 \<and>
        \<bar>read_amount 4 (fixed 4 limit) - limit\<bar> \<le> 1 / 20000 \<and>
        read_amount 4 (fixed 4 limit) \<le> read_amount 4 (fixed 4 (fadd spent_so_far requested))
    | _ \<Rightarrow> True"
proof -
  note [simp] = budget_text_def user_budget_text_def
  have close: "\<bar>read_amount 4 (fixed 4 y) - y\<bar> \<le> 1 / 20000" "\<bar>read_amount 4 (fixed 4 y) - y\<bar> * 20000 \<le> 1" for y
    using read_fixed_close [of 4 y] by simp_all
  from assms(1) show ?thesis
  proof (cases rule: refused_where)
    case rate
    then show ?thesis by simp
  next
    case routed
    have "\<not> (\<exists>u c l a. x = UserBudgetExceededError u c l a)" using route_error [OF routed] by auto
    moreover have "x = BudgetExceededError c b \<Longrightarrow> b < c \<and> b = request_budget s (budget_usd r)" for c b
      using route_over_budget routed by blast
    ultimately show ?thesis by (cases x) (auto simp: close intro: read_fixed_mono)
  next
    case (limit now n L d L')
    note ref = reserve_refused [OF limit]
    have "user_limit s r \<le> fadd (user_limit s r) (lit 1 9)"
      unfolding fadd_def by (rule flr.ge_repr) (simp_all add: lit_nonneg assms(2))
    then have "user_limit s r \<le> fadd (total (spend (prune now L (user_id r)) (user_id r))) (projected_cost d)"
      using ref(3) by simp
    then show ?thesis unfolding ref(1) by (simp add: close read_fixed_mono)
  qed
qed

theorem refusal_texts_show_why_witness:
  "\<exists>c sv'. arrive demo_env demo_settings (new_service demo_settings) (demo_request\<lparr>budget_usd := Some 0\<rparr>) =
     (Refused (BudgetExceededError c 0), sv') \<and> read_amount 4 (fixed 4 0) \<le> read_amount 4 (fixed 4 c)"
proof -
  let ?r = "demo_request\<lparr>budget_usd := Some 0\<rparr>"
  have "(case arrive demo_env demo_settings (new_service demo_settings) ?r of
      (Refused (BudgetExceededError c b), sv') \<Rightarrow> b = 0 | _ \<Rightarrow> False)" by code_simp
  then obtain c sv' where a: "arrive demo_env demo_settings (new_service demo_settings) ?r = (Refused (BudgetExceededError c 0), sv')"
    by (auto split: prod.splits arrival.splits exc.splits)
  have "fl64 (user_limit demo_settings ?r) = user_limit demo_settings ?r"
    using fl64_numeral [of "num.Bit1 (num.Bit0 (num.Bit0 (num.Bit1 num.One)))"]
    by (simp add: user_limit_def demo_settings_def default_settings_def demo_request_def)
  from refusal_texts_show_why [OF a this] a show ?thesis by auto
qed

end
