(* ===== verification/Spec2Isabelle.thy ===== *)
theory Spec2Isabelle
  imports Complexity Router Ledger Breaker RateLimit Autoscaler Gate Cache Metrics Service Streaming Interleaving
    Guarantees Admission Delivery RedisLedger RedisRateLimit RedisCache VLLM Mock Consumption Http Factory
    FleetBudget FleetLedger LedgerRefinement FleetService SingleFlight Lifecycle Surface Progress Endpoint Messages
begin

text \<open>
  A gateway for LLM inference that routes each prompt to the cheapest model fit for it, enforces budgets and
  rates, and scales its replicas (a Python program, under \<open>src/app\<close>).

  THE PROGRAM. A request passes the rate limiter, is scored and routed to a model within its budget
  (\<open>complexity.py\<close>, \<open>router.py\<close>), looked up in the response cache (\<open>cache.py\<close>), reserved against its user's
  budget (\<open>cost/\<close>), admitted by the capacity gate (\<open>gate.py\<close>), generated by a provider (\<open>providers/\<close>) behind a
  circuit breaker per model (\<open>breaker.py\<close>) with failover, and settled at its real cost. \<open>service.py\<close> composes
  these for buffered and streamed answers, \<open>main.py\<close> is the HTTP surface, \<open>factory.py\<close> picks the backends, and
  \<open>autoscaler.py\<close> resizes the gate.

  THE THEORIES, bottom up.
  Prelude: results of calls that may raise, dictionaries, lists. Binary64: the arithmetic of Python's
  \<open>float\<close> on rationals, with rounding to nearest even. Roundoff: how far a rounded sum is from the exact one.
  PyString: Python's string operations.
  Config: \<open>config.py\<close> (tiers, models, prices, settings, the model map). Errors: every exception class.
  Tokens: \<open>tokens.py\<close>. Complexity: \<open>complexity.py\<close>. Router: \<open>router.py\<close>.
  Ledger: \<open>cost/base.py\<close> and \<open>cost/memory.py\<close>. RedisLedger: \<open>cost/redis_ledger.py\<close>.
  Breaker: \<open>breaker.py\<close>. RateLimit and RedisRateLimit: \<open>ratelimit.py\<close>. Autoscaler: \<open>autoscaler.py\<close>.
  Gate: \<open>gate.py\<close>. Cache and RedisCache: \<open>cache.py\<close>. Json: documents as Python holds them.
  Metrics: \<open>metrics.py\<close>. Provider: \<open>providers/base.py\<close>. Mock and VLLM: \<open>providers/mock.py\<close>, \<open>providers/vllm.py\<close>.
  Service: the steps of \<open>InferenceService\<close> and its buffered path \<open>handle\<close>, cut where it awaits.
  Streaming: \<open>handle_stream\<close>, a generator that is suspended, read, interrupted and settled.
  Interleaving: any number of buffered and streamed requests, timeouts, failures, cancelled calls, lost clients and
  autoscaler ticks, as a step relation on the whole service, with the invariant of its books; Holdings: that what is owed
  is in them. Http: \<open>main.py\<close>. Surface: \<open>schemas.py\<close> and the text of
  \<open>Metrics.prometheus\<close>. Factory: \<open>factory.py\<close> and \<open>Settings.from_env\<close>. Lifecycle: the loops of \<open>service.py\<close> that
  run beside the requests, and \<open>lifespan\<close> of \<open>main.py\<close>. SingleFlight: the class of that name in \<open>cache.py\<close>.
  Endpoint: the generator of \<open>infer_stream\<close> in \<open>main.py\<close>, with what its consumer can do to it. Messages: the texts of
  exceptions, notes and reasons. Progress: how every request of the interleaved service can end.
  FleetService: the segments of \<open>service.py\<close> that call the ledger, with the Redis ledger. FleetLedger: the methods of
  the Redis ledger called by many replicas, with a history of every reservation. FleetBudget and
  LedgerRefinement state what the Redis scripts are for: the budget of the whole fleet, and the in-process ledger.
  Each class of the code is a record with the fields of its instances; each method is a function from the
  record to the record and a result, \<open>Inl\<close> an exception; each loop that suspends is a step relation.

  WHAT IS SHOWN. Component by component: routing is the cheapest capable and affordable choice; the ledger never
  exceeds a limit by more than what settlements charge beyond the holds they find; the gate admits no more than its capacity and, without timeouts, leaves no slot
  idle; the limiter grants no more than burst plus rate in any window; the cache is bounded, least recently used and never
  stale, and its key determines the call; the breaker is the documented state machine but for late
  outcomes; the autoscaler computes the ceiling, exactly for whole-number targets, and respects its cooldowns. For the fleet: the Redis scripts check and hold
  atomically, touch their own entry only, run at most once per call whatever the network loses; they implement
  the in-process ledger and keep a user's budget for any number of replicas with any clocks, up to an error
  bound of the roundings that is stated; every entry in Redis stands for one reservation, and none of which no message was
  lost is missing before it is pruned or its key expires; the service around them answers as with the in-process ledger or with
  503; and the Redis limiter refines the in-process one. For the providers: retries return the first conclusive answer, a
  stream is never restarted after output, and every stream ends in one final chunk with a usage.
  For the composition (Guarantees, Admission, Delivery, Progress, Consumption, Http, Endpoint): every exit of a request
  refunds or charges exactly once; every request that is not cancelled, and waits for a slot no longer than a timeout,
  can end by its own steps; slots and counters are exact; the concurrency is that of the replicas; failover
  respects budget, context and a pinned model and reaches no model twice; a stream speaks its protocol, is billed for what its
  client was told, gives its slot back wherever it is interrupted, and is cached only when complete; a shutdown
  loses no bill and closes every connection, and no failing tick ends the autoscaler's loop; every refusal has
  its status, and a text that shows why; \<open>Retry-After\<close> is long enough; what the gateway streams its own reader
  reads back, wherever the response breaks off; a service is built as configured or names what is missing.
  Some theorems record behaviour that departs from a comment or from what the code means to do: the probe that
  is never reported, the wakeup lost to a timeout, the hold left by a lost reply, the cache that cannot be
  switched off with a capital letter, the circuit closed by a late success, the reply blamed on the client, the refund that fails and leaves a request
  in flight, the leader whose cancellation reaches its followers, the cancelled request that keeps its hold, the
  response that yields while it is closed.

  INTERFACES. The locales \<open>redis_client\<close>, \<open>budget_ledger\<close>, \<open>response_cache\<close>, \<open>circuit\<close>, \<open>leaky_account\<close> and \<open>rounding\<close> state what
  their clients rely on; each is interpreted on the model's own operations in the theory that defines them.

  PARAMETERS, and what is assumed of them where a theorem needs it. The tokenizer (a non-empty text has a
  token); the digest of the cache key (no collisions); the readings of the clocks (arbitrary, or in order);
  the random ids (distinct); Redis' commands (\<open>redis_laws\<close>, \<open>hash_laws\<close>, \<open>kv_laws\<close>: what sorted sets, hashes and
  strings do; \<open>in_score_order\<close>: how \<open>ZRANGE\<close> lists); the reading and writing of numbers and JSON (what is written is read back); what the model
  server answers and what the network loses (arbitrary).

  BOUNDS. No fuel is used: the failover loop (\<open>seek\<close>) ends because each round excludes a model, the retry loops
  run \<open>max_retries\<close> times, the loop of \<open>drain_settlements\<close> (\<open>while_option\<close>) ends because every round empties the set
  it looks at, and all other recursion is on the data. Numbers are the finite binary64 values, without
  overflow, and characters are those below 256.

  NOT MODELLED. The interleaved service is composed with the in-process backends; with the Redis ledger more of its
  calls suspend, and only the segments of FleetService are composed with it. A cancellation is a step where a
  request waits for a slot or for its provider, and not inside a call of Redis. The texts of exceptions that quote
  what the model keeps no trace of (a server's reply, the name of a missing package), the framework's parsing and
  routing of HTTP requests, the logging, the addresses of Redis, the construction of the clients of other
  libraries, the type declarations and re-exports of packages, and \<open>examples/\<close>, a script that prints.
\<close>

end
